(* ===== verification/Prelude.thy ===== *)
theory Prelude
  imports Main "HOL-Library.Word" "HOL-Library.Monad_Syntax"
begin

text \<open>
  Shared ground of the development: the machine integers of the Rust sources, the integer
  operations of the Rust core library that the sources call, array access with the panic
  that an index out of range raises, and lemmas on words, lists and options that several
  components use.

  Conventions. A function of the source that may stop the kernel (an \<open>assert!\<close>, an
  \<open>expect\<close>, an index out of range) returns an \<open>option\<close>: \<^term>\<open>None\<close> is
  the stop. A \<open>Result<T, E>\<close> of the source is a sum: \<^term>\<open>Inl e\<close> is
  \<open>Err(e)\<close>, \<^term>\<open>Inr x\<close> is \<open>Ok(x)\<close>. A method with \<open>&mut self\<close>
  takes the state and returns the new one beside its result. The kernel is built with the
  release profile, without overflow checks, so plain \<open>+\<close> and \<open>-\<close> on machine
  words wrap around, as they do on \<open>'a word\<close>.
\<close>

unbundle bit_operations_syntax

type_synonym u8 = "8 word"
type_synonym u16 = "16 word"
type_synonym u32 = "32 word"
type_synonym u64 = "64 word"
type_synonym u128 = "128 word"

named_theorems int_ops "definitions of the integer operations of the core library"
named_theorems stop_simps "when a computation that may stop the kernel goes through"

section \<open>Computations that may stop the kernel\<close>

text \<open>\<open>assert!(b)\<close>: the computation goes on when \<open>b\<close> holds.\<close>

definition ensure :: "bool \<Rightarrow> unit option" where
  "ensure b = (if b then Some () else None)"

text \<open>\<open>xs[i]\<close> and \<open>xs[i] = v\<close>: an index out of range stops the kernel.\<close>

definition at_index :: "'a list \<Rightarrow> nat \<Rightarrow> 'a option" where
  "at_index xs i = (if i < length xs then Some (xs ! i) else None)"

definition set_index :: "'a list \<Rightarrow> nat \<Rightarrow> 'a \<Rightarrow> 'a list option" where
  "set_index xs i v = (if i < length xs then Some (xs[i := v]) else None)"

lemma ensure_simps [simp]: "ensure True = Some ()" "ensure False = None"
  by (simp_all add: ensure_def)

lemma ensure_eq_Some [simp, stop_simps]: "ensure b = Some u \<longleftrightarrow> b"
  by (simp add: ensure_def)

lemma ensure_eq_None [simp]: "ensure b = None \<longleftrightarrow> \<not> b"
  by (simp add: ensure_def)

lemma at_index_eq_Some [stop_simps]: "at_index xs i = Some x \<longleftrightarrow> i < length xs \<and> x = xs ! i"
  by (auto simp: at_index_def)

lemma at_index_in [simp]: "i < length xs \<Longrightarrow> at_index xs i = Some (xs ! i)"
  by (simp add: at_index_def)

lemma set_index_in [simp]: "i < length xs \<Longrightarrow> set_index xs i v = Some (xs[i := v])"
  by (simp add: set_index_def)

lemma set_index_eq_Some [stop_simps]:
  "set_index xs i v = Some ys \<longleftrightarrow> i < length xs \<and> ys = xs[i := v]"
  by (auto simp: set_index_def)

lemma bind_Some_iff [stop_simps]:
  "Option.bind m f = Some y \<longleftrightarrow> (\<exists>x. m = Some x \<and> f x = Some y)"
  by (cases m) auto

section \<open>Results\<close>

text \<open>
  \<open>m?\<close> with what follows it, for a computation that may stop the kernel and may fail: an error
  returns at once.
\<close>

definition and_then :: "('e + 'a) option \<Rightarrow> ('a \<Rightarrow> ('e + 'b) option) \<Rightarrow> ('e + 'b) option" where
  "and_then m f = (case m of None \<Rightarrow> None | Some (Inl err) \<Rightarrow> Some (Inl err) | Some (Inr x) \<Rightarrow> f x)"

lemma and_then_simps [simp]:
  "and_then None f = None" "and_then (Some (Inl err)) f = Some (Inl err)" "and_then (Some (Inr x)) f = f x"
  by (simp_all add: and_then_def)

lemma and_then_ok: "and_then m f = Some (Inr y) \<longleftrightarrow> (\<exists>x. m = Some (Inr x) \<and> f x = Some (Inr y))"
  by (auto simp: and_then_def split: option.splits sum.splits)

section \<open>Integer operations of the core library\<close>

text \<open>
  \<open>checked_add\<close>, \<open>checked_sub\<close>, \<open>checked_mul\<close>, \<open>saturating_add\<close> and
  \<open>saturating_sub\<close> of the unsigned types, at any width.
\<close>

definition checked_add :: "'a::len word \<Rightarrow> 'a word \<Rightarrow> 'a word option" where
  "checked_add a b = (if unat a + unat b < 2 ^ LENGTH('a) then Some (a + b) else None)"

definition checked_sub :: "'a::len word \<Rightarrow> 'a word \<Rightarrow> 'a word option" where
  "checked_sub a b = (if b \<le> a then Some (a - b) else None)"

definition checked_mul :: "'a::len word \<Rightarrow> 'a word \<Rightarrow> 'a word option" where
  "checked_mul a b = (if unat a * unat b < 2 ^ LENGTH('a) then Some (a * b) else None)"

definition saturating_add :: "'a::len word \<Rightarrow> 'a word \<Rightarrow> 'a word" where
  "saturating_add a b = (if unat a + unat b < 2 ^ LENGTH('a) then a + b else - 1)"

definition saturating_sub :: "'a::len word \<Rightarrow> 'a word \<Rightarrow> 'a word" where
  "saturating_sub a b = (if b \<le> a then a - b else 0)"

definition saturating_mul :: "'a::len word \<Rightarrow> 'a word \<Rightarrow> 'a word" where
  "saturating_mul a b = (if unat a * unat b < 2 ^ LENGTH('a) then a * b else - 1)"

text \<open>\<open>next_multiple_of\<close> and \<open>checked_next_multiple_of\<close>, for \<open>b\<close> not 0.\<close>

definition next_multiple_of :: "'a::len word \<Rightarrow> 'a word \<Rightarrow> 'a word" where
  "next_multiple_of a b = (if a mod b = 0 then a else a + (b - a mod b))"

definition checked_next_multiple_of :: "'a::len word \<Rightarrow> 'a word \<Rightarrow> 'a word option" where
  "checked_next_multiple_of a b = (if a mod b = 0 then Some a else checked_add a (b - a mod b))"

definition is_multiple_of :: "'a::len word \<Rightarrow> 'a word \<Rightarrow> bool" where
  "is_multiple_of a b \<longleftrightarrow> (if b = 0 then a = 0 else a mod b = 0)"

text \<open>\<open>leading_zeros\<close> counts the clear bits from the top, \<open>trailing_zeros\<close> from
  the bottom; both give the width for 0.\<close>

definition leading_zeros :: "'a::len word \<Rightarrow> nat" where
  "leading_zeros w = length (takeWhile (\<lambda>i. \<not> bit w i) (rev [0..<LENGTH('a)]))"

definition trailing_zeros :: "'a::len word \<Rightarrow> nat" where
  "trailing_zeros w = length (takeWhile (\<lambda>i. \<not> bit w i) [0..<LENGTH('a)])"

lemmas core_int_ops [int_ops] = checked_add_def checked_sub_def checked_mul_def saturating_add_def
  saturating_sub_def

lemma unat_add_no_wrap:
  fixes a b :: "'a::len word"
  assumes "unat a + unat b < 2 ^ LENGTH('a)"
  shows "unat (a + b) = unat a + unat b"
  using assms by (simp add: unat_word_ariths)

lemma unat_mult_no_wrap:
  fixes a b :: "'a::len word"
  assumes "unat a * unat b < 2 ^ LENGTH('a)"
  shows "unat (a * b) = unat a * unat b"
  using assms by (simp add: unat_word_ariths)

lemma unat_sub_no_wrap: "b \<le> a \<Longrightarrow> unat (a - b) = unat a - unat b"
  by (simp add: unat_sub)

lemma unat_max_word: "unat (- 1 :: 'a::len word) = 2 ^ LENGTH('a) - 1"
  by (simp add: unsigned_minus_1_eq_mask mask_eq_exp_minus_1)

lemma unat_saturating_add:
  fixes a b :: "'a::len word"
  shows "unat (saturating_add a b) = min (unat a + unat b) (2 ^ LENGTH('a) - 1)"
  by (simp add: saturating_add_def unat_add_no_wrap unat_max_word)

lemma unat_saturating_sub: "unat (saturating_sub a b) = unat a - unat b"
  by (auto simp: saturating_sub_def unat_sub_no_wrap word_le_nat_alt not_le)

lemma checked_add_eq_Some:
  "checked_add a b = Some c \<Longrightarrow> unat c = unat a + unat b"
  by (auto simp: checked_add_def unat_add_no_wrap split: if_splits)

lemma checked_sub_eq_Some:
  "checked_sub a b = Some c \<longleftrightarrow> b \<le> a \<and> c = a - b"
  by (auto simp: checked_sub_def)

lemma unat_below: "unat (w :: 'a::len word) < 2 ^ LENGTH('a)"
  by simp

section \<open>The highest and the lowest set bit\<close>

lemma takeWhile_upt_first:
  assumes "a \<le> n" and "n < b" and "P n" and "\<And>i. a \<le> i \<Longrightarrow> i < n \<Longrightarrow> \<not> P i"
  shows "length (takeWhile (\<lambda>i. \<not> P i) [a..<b]) = n - a"
proof -
  have "[a..<b] = [a..<n] @ n # [Suc n..<b]"
    using assms(1,2) by (metis le_add_diff_inverse less_imp_le upt_add_eq_append upt_conv_Cons)
  moreover have "takeWhile (\<lambda>i. \<not> P i) ([a..<n] @ n # [Suc n..<b]) = [a..<n]"
    using assms(3,4) by (subst takeWhile_append2) auto
  ultimately show ?thesis by simp
qed

lemma takeWhile_rev_upt_last:
  assumes "n < b" and "P n" and "\<And>i. n < i \<Longrightarrow> i < b \<Longrightarrow> \<not> P i"
  shows "length (takeWhile (\<lambda>i. \<not> P i) (rev [0..<b])) = b - Suc n"
proof -
  have "[0..<b] = [0..<n] @ n # [Suc n..<b]"
    using assms(1) by (metis le0 le_add_diff_inverse less_imp_le upt_add_eq_append upt_conv_Cons)
  then have "rev [0..<b] = rev [Suc n..<b] @ n # rev [0..<n]"
    by simp
  moreover have "takeWhile (\<lambda>i. \<not> P i) (rev [Suc n..<b] @ n # rev [0..<n]) = rev [Suc n..<b]"
    using assms(2,3) by (subst takeWhile_append2) auto
  ultimately show ?thesis by simp
qed

lemma word_nonzero_bit: "(w :: 'a::len word) \<noteq> 0 \<Longrightarrow> \<exists>i<LENGTH('a). bit w i"
  by (metis bit_eq_iff bit_imp_le_length bit_0_eq bot_apply bot_bool_def)

lemma leading_zeros_eq:
  fixes w :: "'a::len word"
  assumes "bit w n" and "\<And>i. n < i \<Longrightarrow> \<not> bit w i"
  shows "leading_zeros w = LENGTH('a) - Suc n"
  unfolding leading_zeros_def
  by (rule takeWhile_rev_upt_last) (use assms bit_imp_le_length in auto)

lemma trailing_zeros_eq:
  fixes w :: "'a::len word"
  assumes "bit w n" and "\<And>i. i < n \<Longrightarrow> \<not> bit w i"
  shows "trailing_zeros w = n"
  unfolding trailing_zeros_def
  using takeWhile_upt_first [of 0 n "LENGTH('a)" "bit w"] assms bit_imp_le_length [of w n] by auto

text \<open>\<open>63 - leading_zeros\<close> is the highest set bit, \<open>trailing_zeros\<close> the lowest.\<close>

lemma highest_bit:
  fixes w :: "'a::len word"
  assumes "w \<noteq> 0"
  shows "bit w (LENGTH('a) - Suc (leading_zeros w))"
    and "\<And>i. bit w i \<Longrightarrow> i \<le> LENGTH('a) - Suc (leading_zeros w)"
    and "leading_zeros w < LENGTH('a)"
proof -
  let ?S = "{i. bit w i}"
  have fin: "finite ?S"
    by (rule finite_subset [of _ "{..<LENGTH('a)}"]) (auto dest: bit_imp_le_length)
  have ne: "?S \<noteq> {}"
    using word_nonzero_bit [OF assms] by auto
  define n where "n = Max ?S"
  have n: "bit w n" and top: "\<And>i. bit w i \<Longrightarrow> i \<le> n"
    using Max_in [OF fin ne] Max_ge [OF fin] by (auto simp: n_def)
  then have lz: "leading_zeros w = LENGTH('a) - Suc n"
    by (intro leading_zeros_eq) force+
  have "n < LENGTH('a)"
    using n by (rule bit_imp_le_length)
  then have pos: "LENGTH('a) - Suc (leading_zeros w) = n" and "leading_zeros w < LENGTH('a)"
    using lz by auto
  then show "bit w (LENGTH('a) - Suc (leading_zeros w))"
    and "\<And>i. bit w i \<Longrightarrow> i \<le> LENGTH('a) - Suc (leading_zeros w)"
    and "leading_zeros w < LENGTH('a)"
    using n top by auto
qed

lemma lowest_bit:
  fixes w :: "'a::len word"
  assumes "w \<noteq> 0"
  shows "bit w (trailing_zeros w)" and "\<And>i. bit w i \<Longrightarrow> trailing_zeros w \<le> i"
proof -
  obtain k where "bit w k"
    using word_nonzero_bit [OF assms] by blast
  define n where "n = (LEAST i. bit w i)"
  have n: "bit w n" and low: "\<And>i. bit w i \<Longrightarrow> n \<le> i"
    using LeastI [of "bit w", OF \<open>bit w k\<close>] Least_le [of "bit w"] by (auto simp: n_def)
  then have "trailing_zeros w = n"
    by (intro trailing_zeros_eq) force+
  then show "bit w (trailing_zeros w)" and "\<And>i. bit w i \<Longrightarrow> trailing_zeros w \<le> i"
    using n low by auto
qed

lemma bit_or_push_one:
  "bit (w OR push_bit l 1) i \<longleftrightarrow> bit w i \<or> i = l \<and> l < LENGTH('a)" for w :: "'a::len word"
  by (auto simp: bit_or_iff bit_exp_iff)

lemma bit_and_not_push_one:
  "bit (w AND NOT (push_bit l 1)) i \<longleftrightarrow> bit w i \<and> i \<noteq> l" for w :: "'a::len word"
  by (auto simp: bit_and_iff bit_not_iff bit_exp_iff dest: bit_imp_le_length)

text \<open>A word below \<open>2 ^ n\<close> has no bit from \<open>n\<close> on.\<close>

lemma no_high_bit:
  fixes w :: "'a::len word"
  assumes "unat w < 2 ^ n" and "n \<le> k"
  shows "\<not> bit w k"
proof -
  have "unat (take_bit n w) = unat w"
    using assms(1) by (simp add: unsigned_take_bit_eq take_bit_nat_eq_self)
  then have "take_bit n w = w"
    by (rule unsigned_word_eqI)
  then have "bit w k = bit (take_bit n w) k"
    by simp
  then show ?thesis
    using assms(2) by (simp add: bit_take_bit_iff)
qed

text \<open>\<open>w & (w - 1)\<close> clears the lowest set bit.\<close>

lemma bit_clear_lowest:
  fixes w :: "'a::len word"
  assumes "w \<noteq> 0"
  shows "bit (w AND (w - 1)) i \<longleftrightarrow> bit w i \<and> i \<noteq> trailing_zeros w"
proof -
  let ?n = "trailing_zeros w"
  let ?v = "w AND NOT (push_bit ?n 1)"
  have n: "bit w ?n" "?n < LENGTH('a)" and low: "\<And>i. bit w i \<Longrightarrow> ?n \<le> i"
    using lowest_bit [OF assms] bit_imp_le_length by auto
  have v: "bit ?v i \<longleftrightarrow> bit w i \<and> i \<noteq> ?n" for i
    by (rule bit_and_not_push_one)
  have one: "bit (push_bit ?n 1 :: 'a word) i \<longleftrightarrow> i = ?n" for i
    using n(2) by (auto simp: bit_exp_iff)
  have m: "bit (mask ?n :: 'a word) i \<longleftrightarrow> i < ?n" for i
    using n(2) by (auto simp: bit_mask_iff)
  have "?v + push_bit ?n 1 = ?v OR push_bit ?n 1"
    by (rule disjunctive_add_eq_or, rule bit_eqI) (simp only: bit_and_iff [of ?v] v one, simp)
  also have "\<dots> = w"
    by (rule bit_eqI) (use n(1) in \<open>auto simp only: bit_or_iff v one\<close>)
  finally have "w = ?v + push_bit ?n 1"
    by simp
  then have "w - 1 = ?v + (push_bit ?n 1 - 1)"
    by (metis (no_types) add_diff_eq)
  also have "push_bit ?n 1 - 1 = (mask ?n :: 'a word)"
    by (simp add: mask_eq_exp_minus_1)
  also have "?v + mask ?n = ?v OR mask ?n"
    by (rule disjunctive_add_eq_or, rule bit_eqI) (use low in \<open>auto simp only: bit_and_iff [of ?v] v m bit_0_eq bot_apply bot_bool_def\<close>, force)
  finally have "bit (w - 1) i \<longleftrightarrow> bit w i \<and> i \<noteq> ?n \<or> i < ?n"
    by (simp only: bit_or_iff v m)
  then show ?thesis
    using low [of i] by (auto simp: bit_and_iff)
qed

text \<open>The positions of the set bits, lowest first, as a loop over \<open>trailing_zeros\<close> meets them.\<close>

definition set_bits_of :: "'a::len word \<Rightarrow> nat list" where
  "set_bits_of w = filter (bit w) [0..<LENGTH('a)]"

lemma set_set_bits_of [simp]: "set (set_bits_of w) = {i. bit w i}"
  by (auto simp: set_bits_of_def dest: bit_imp_le_length)

lemma set_bits_of_0 [simp]: "set_bits_of 0 = []"
  by (simp add: set_bits_of_def)

lemma set_bits_of_step:
  assumes "w \<noteq> 0"
  shows "set_bits_of w = trailing_zeros w # set_bits_of (w AND (w - 1))"
proof (rule sorted_distinct_set_unique)
  show "sorted (set_bits_of w)" "distinct (set_bits_of w)"
    by (simp_all add: set_bits_of_def sorted_wrt_filter distinct_filter)
  show "sorted (trailing_zeros w # set_bits_of (w AND (w - 1)))"
    using lowest_bit(2) [OF assms] by (auto simp: bit_clear_lowest [OF assms]) (simp add: set_bits_of_def sorted_wrt_filter)
  show "distinct (trailing_zeros w # set_bits_of (w AND (w - 1)))"
    by (auto simp: bit_clear_lowest [OF assms]) (simp add: set_bits_of_def)
  show "set (set_bits_of w) = set (trailing_zeros w # set_bits_of (w AND (w - 1)))"
    using lowest_bit(1) [OF assms] by (auto simp: bit_clear_lowest [OF assms])
qed

lemma clear_lowest_less:
  fixes w :: "'a::len word"
  assumes "w \<noteq> 0"
  shows "unat (w AND (w - 1)) < unat w"
proof -
  have "w AND (w - 1) \<le> w - 1"
    by (simp add: word_and_le1)
  also have "w - 1 < w"
    using assms by (simp add: measure_unat word_less_nat_alt)
  finally show ?thesis
    by (simp add: word_less_nat_alt)
qed

section \<open>Lists\<close>

lemma remove1_split:
  assumes "distinct xs" and "x \<in> set xs"
  obtains as bs where "xs = as @ x # bs" and "remove1 x xs = as @ bs"
    and "x \<notin> set as" and "x \<notin> set bs"
  by (metis (no_types, lifting) assms distinct.simps(2) distinct_append remove1.simps(2)
      remove1_append split_list disjoint_insert(2) list.simps(15))

text \<open>A list cut into parts of one length.\<close>

lemma concat_parts:
  assumes "m * n \<le> length xs"
  shows "concat (map (\<lambda>k. take m (drop (m * k) xs)) [0..<n]) = take (m * n) xs"
  using assms
proof (induction n)
  case (Suc n)
  then show ?case
    by (simp add: take_add add.commute [of m "m * n"])
qed simp

end
