(* ===== verification/Abi.thy ===== *)
theory Abi
  imports Prelude
begin

text \<open>
  The kernel interface of \<open>lib/abi/src/lib.rs\<close> as far as the kernel logic uses it:
  error codes, handles, rights, access modes, scheduling policies, process states and the
  constants of the interface. The lemmas show the codings faithful: a handle keeps its
  index and generation, an error and a process state survive the registers, rights form a
  partial order under \<open>contains\<close>.
\<close>

section \<open>Errors\<close>

datatype error =
    BadHandle | WrongType | AccessDenied | InvalidArgs | NoMemory | LimitReached
  | PeerClosed | WouldBlock | BadState | Interrupted | UnknownError u64

type_synonym 'a result = "error + 'a"

definition error_KNOWN :: "error list" where
  "error_KNOWN = [BadHandle, WrongType, AccessDenied, InvalidArgs, NoMemory, LimitReached,
     PeerClosed, WouldBlock, BadState, Interrupted]"

fun error_code :: "error \<Rightarrow> u64" where
  "error_code BadHandle = 1"
| "error_code WrongType = 2"
| "error_code AccessDenied = 3"
| "error_code InvalidArgs = 4"
| "error_code NoMemory = 5"
| "error_code LimitReached = 6"
| "error_code PeerClosed = 7"
| "error_code WouldBlock = 8"
| "error_code BadState = 9"
| "error_code Interrupted = 10"
| "error_code (UnknownError code) = code"

definition error_from_code :: "u64 \<Rightarrow> error option" where
  "error_from_code code =
     (if code = 0 then None
      else if 1 \<le> code \<and> code \<le> 10 then at_index error_KNOWN (unat code - 1)
      else Some (UnknownError code))"

fun error_keeps_handles :: "error \<Rightarrow> bool" where
  "error_keeps_handles InvalidArgs = True"
| "error_keeps_handles BadHandle = True"
| "error_keeps_handles WrongType = True"
| "error_keeps_handles AccessDenied = True"
| "error_keeps_handles BadState = True"
| "error_keeps_handles WouldBlock = True"
| "error_keeps_handles PeerClosed = False"
| "error_keeps_handles LimitReached = False"
| "error_keeps_handles NoMemory = False"
| "error_keeps_handles Interrupted = False"
| "error_keeps_handles (UnknownError code) = False"

section \<open>Handles\<close>

text \<open>The low 16 bits index the table, the high 48 carry the generation.\<close>

datatype handle = Handle (handle_raw: u64)

definition handle_INDEX_BITS :: nat where "handle_INDEX_BITS = 16"
definition handle_MAX_INDEX :: u32 where "handle_MAX_INDEX = 0xFFFF"
definition handle_MAX_GENERATION :: u64 where "handle_MAX_GENERATION = 0xFFFFFFFFFFFF"
definition handle_INVALID :: handle where "handle_INVALID = Handle 0"

definition handle_new :: "u32 \<Rightarrow> u64 \<Rightarrow> handle" where
  "handle_new index generation = Handle
     (push_bit handle_INDEX_BITS (generation AND handle_MAX_GENERATION)
      OR ucast (index AND handle_MAX_INDEX))"

definition handle_index :: "handle \<Rightarrow> u32" where
  "handle_index h = ucast (handle_raw h AND ucast handle_MAX_INDEX)"

definition handle_generation :: "handle \<Rightarrow> u64" where
  "handle_generation h = drop_bit handle_INDEX_BITS (handle_raw h)"

section \<open>Rights\<close>

datatype rights = Rights (rights_bits: u32)

definition rights_NONE :: rights where "rights_NONE = Rights 0"
definition rights_DUPLICATE :: rights where "rights_DUPLICATE = Rights (push_bit 0 1)"
definition rights_TRANSFER :: rights where "rights_TRANSFER = Rights (push_bit 1 1)"
definition rights_SEND :: rights where "rights_SEND = Rights (push_bit 2 1)"
definition rights_NOTIFY :: rights where "rights_NOTIFY = Rights (push_bit 3 1)"
definition rights_RECEIVE :: rights where "rights_RECEIVE = Rights (push_bit 4 1)"
definition rights_MAP_READ :: rights where "rights_MAP_READ = Rights (push_bit 5 1)"
definition rights_MAP_WRITE :: rights where "rights_MAP_WRITE = Rights (push_bit 6 1)"
definition rights_MAP_EXEC :: rights where "rights_MAP_EXEC = Rights (push_bit 7 1)"
definition rights_MANAGE :: rights where "rights_MANAGE = Rights (push_bit 8 1)"
definition rights_DEVICE :: rights where "rights_DEVICE = Rights (push_bit 9 1)"
definition rights_DEBUG :: rights where "rights_DEBUG = Rights (push_bit 10 1)"
definition rights_KSTATS :: rights where "rights_KSTATS = Rights (push_bit 11 1)"
definition rights_ALL :: rights where "rights_ALL = Rights (push_bit 12 1 - 1)"

definition rights_union :: "rights \<Rightarrow> rights \<Rightarrow> rights" where
  "rights_union a b = Rights (rights_bits a OR rights_bits b)"

definition rights_contains :: "rights \<Rightarrow> rights \<Rightarrow> bool" where
  "rights_contains a b \<longleftrightarrow> rights_bits a AND rights_bits b = rights_bits b"

text \<open>\<open>a \<le> b\<close>: every right of \<open>a\<close> is one of \<open>b\<close>.\<close>

instantiation rights :: order
begin

definition less_eq_rights :: "rights \<Rightarrow> rights \<Rightarrow> bool" where
  "less_eq_rights a b = rights_contains b a"

definition less_rights :: "rights \<Rightarrow> rights \<Rightarrow> bool" where
  "less_rights a b = (rights_contains b a \<and> \<not> rights_contains a b)"

instance
proof
  fix a b c :: rights
  show "(a < b) = (a \<le> b \<and> \<not> b \<le> a)"
    by (simp add: less_rights_def less_eq_rights_def)
  show "a \<le> a"
    by (simp add: less_eq_rights_def rights_contains_def)
  show "a \<le> b \<Longrightarrow> b \<le> c \<Longrightarrow> a \<le> c"
    unfolding less_eq_rights_def rights_contains_def by (metis and.assoc and.commute)
  show "a \<le> b \<Longrightarrow> b \<le> a \<Longrightarrow> a = b"
    unfolding less_eq_rights_def rights_contains_def by (metis and.commute rights.expand)
qed

end

section \<open>Access of a mapping\<close>

datatype access = AccessNone | AccessRead | AccessReadWrite | AccessReadExec

definition access_from_raw :: "u64 \<Rightarrow> access option" where
  "access_from_raw raw =
     (if raw = 0 then Some AccessNone
      else if raw = 1 then Some AccessRead
      else if raw = 3 then Some AccessReadWrite
      else if raw = 5 then Some AccessReadExec
      else None)"

fun access_raw :: "access \<Rightarrow> u64" where
  "access_raw AccessNone = 0"
| "access_raw AccessRead = 1"
| "access_raw AccessReadWrite = 3"
| "access_raw AccessReadExec = 5"

fun access_rights :: "access \<Rightarrow> rights" where
  "access_rights AccessNone = rights_NONE"
| "access_rights AccessRead = rights_MAP_READ"
| "access_rights AccessReadWrite = rights_union rights_MAP_READ rights_MAP_WRITE"
| "access_rights AccessReadExec = rights_union rights_MAP_READ rights_MAP_EXEC"

section \<open>Policies and process states\<close>

datatype policy = RoundRobin | Fifo

definition policy_from_raw :: "u64 \<Rightarrow> policy option" where
  "policy_from_raw raw =
     (if raw = 0 then Some RoundRobin else if raw = 1 then Some Fifo else None)"

datatype process_state =
    Alive | Exited u64 | Killed | Fault u64 u64 u64 | UnknownState "u64 list"

fun process_state_to_words :: "process_state \<Rightarrow> u64 list" where
  "process_state_to_words Alive = [0, 0, 0, 0]"
| "process_state_to_words (Exited code) = [1, code, 0, 0]"
| "process_state_to_words Killed = [2, 0, 0, 0]"
| "process_state_to_words (Fault esr far elr) = [3, esr, far, elr]"
| "process_state_to_words (UnknownState ws) = ws"

text \<open>\<open>from_words\<close> reads an array of four words.\<close>

definition process_state_from_words :: "u64 list \<Rightarrow> process_state" where
  "process_state_from_words ws =
     (if ws ! 0 = 0 then Alive
      else if ws ! 0 = 1 then Exited (ws ! 1)
      else if ws ! 0 = 2 then Killed
      else if ws ! 0 = 3 then Fault (ws ! 1) (ws ! 2) (ws ! 3)
      else UnknownState ws)"

section \<open>Constants of the interface\<close>

definition PRIORITY_LEVELS :: nat where "PRIORITY_LEVELS = 64"
definition MAX_MAPPINGS :: nat where "MAX_MAPPINGS = 128"
definition MAX_MEMORY :: u64 where "MAX_MEMORY = push_bit 30 1"
definition MEM_CONTIGUOUS :: u64 where "MEM_CONTIGUOUS = push_bit 0 1"
definition MEM_UNCACHED :: u64 where "MEM_UNCACHED = push_bit 1 1"
definition MAX_CONTIGUOUS_PAGES :: u64 where "MAX_CONTIGUOUS_PAGES = push_bit 10 1"
definition NO_WAIT :: u64 where "NO_WAIT = push_bit 16 1"
definition MESSAGE_MAX :: nat where "MESSAGE_MAX = 1024"
definition MESSAGE_HANDLES :: nat where "MESSAGE_HANDLES = 4"
definition HANDLES_SHIFT :: nat where "HANDLES_SHIFT = 12"
definition INLINE_MAX :: nat where "INLINE_MAX = 64"
definition CLIENT_GONE :: u64 where "CLIENT_GONE = push_bit 63 1"
definition POLICY_TAIL :: u64 where "POLICY_TAIL = push_bit 8 1"
definition TRIGGER_EDGE :: u64 where "TRIGGER_EDGE = 1"
definition PAGE_SHIFT :: nat where "PAGE_SHIFT = 12"
definition PAGE_SIZE :: u64 where "PAGE_SIZE = push_bit PAGE_SHIFT 1"

section \<open>The codings are faithful\<close>

lemma handle_MAX_GENERATION_bit: "bit handle_MAX_GENERATION k \<longleftrightarrow> k < 48"
  unfolding handle_MAX_GENERATION_def
  by (simp add: mask_eq_exp_minus_1 [where n = 48 and 'a = "64 word", simplified, symmetric]
      bit_mask_iff) auto

lemma handle_MAX_INDEX_bit: "bit handle_MAX_INDEX k \<longleftrightarrow> k < 16"
  unfolding handle_MAX_INDEX_def
  by (simp add: mask_eq_exp_minus_1 [where n = 16 and 'a = "32 word", simplified, symmetric]
      bit_mask_iff) auto

lemma handle_bits:
  "bit (handle_raw (handle_new i g)) n \<longleftrightarrow>
     (if n < 16 then bit i n else n < 64 \<and> bit g (n - 16))"
  by (auto simp: handle_new_def handle_INDEX_BITS_def bit_or_iff bit_push_bit_iff bit_and_iff
      bit_ucast_iff handle_MAX_GENERATION_bit handle_MAX_INDEX_bit dest: bit_imp_le_length)

lemma handle_index_new: "unat i < 65536 \<Longrightarrow> handle_index (handle_new i g) = i"
proof (rule bit_eqI)
  fix n
  assume i: "unat i < 65536"
  have "\<not> bit i n" if "16 \<le> n"
    using i that by (intro no_high_bit [of _ 16]) simp_all
  then show "bit (handle_index (handle_new i g)) n \<longleftrightarrow> bit i n"
    by (auto simp: handle_index_def bit_ucast_iff bit_and_iff handle_MAX_INDEX_bit handle_bits
        dest: bit_imp_le_length)
qed

lemma handle_generation_new:
  "g \<le> handle_MAX_GENERATION \<Longrightarrow> handle_generation (handle_new i g) = g"
proof (rule bit_eqI)
  fix n
  assume "g \<le> handle_MAX_GENERATION"
  then have "unat g < 2 ^ 48"
    by (simp add: word_le_nat_alt handle_MAX_GENERATION_def)
  then have "n < 48" if "bit g n"
    using that no_high_bit [of g 48 n] by force
  then show "bit (handle_generation (handle_new i g)) n \<longleftrightarrow> bit g n"
    by (auto simp: handle_generation_def handle_INDEX_BITS_def bit_drop_bit_eq handle_bits)
qed

text \<open>A handle is its index and its generation: equal ones have both equal.\<close>

lemma handle_new_eq_iff:
  assumes "unat i < 65536" "unat j < 65536"
    and "g \<le> handle_MAX_GENERATION" "k \<le> handle_MAX_GENERATION"
  shows "handle_new i g = handle_new j k \<longleftrightarrow> i = j \<and> g = k"
  using assms by (metis handle_index_new handle_generation_new)

lemma handle_generation_le: "handle_generation h \<le> handle_MAX_GENERATION"
proof -
  have "unat (handle_generation h) = unat (handle_raw h) div 2 ^ 16"
    by (simp add: handle_generation_def handle_INDEX_BITS_def unat_div drop_bit_eq_div)
  moreover have "unat (handle_raw h) < 2 ^ 64"
    using unat_below [of "handle_raw h"] by simp
  ultimately show ?thesis
    by (simp add: word_le_nat_alt handle_MAX_GENERATION_def)
qed

lemma handle_index_below: "unat (handle_index h) < 65536"
proof -
  have "handle_raw h AND 0xFFFF \<le> 0xFFFF"
    by (rule word_and_le1)
  then have "take_bit 32 (unat (handle_raw h AND 0xFFFF)) \<le> 65535"
    by (intro order_trans [OF take_bit_nat_less_eq_self]) (simp add: word_le_nat_alt)
  then show ?thesis
    by (simp add: handle_index_def handle_MAX_INDEX_def unsigned_ucast_eq)
qed

text \<open>The error codes of \<open>KNOWN\<close> and those of a later kernel survive x0.\<close>

lemma error_from_code_code:
  "(\<forall>c. e = UnknownError c \<longrightarrow> 10 < c) \<Longrightarrow> error_from_code (error_code e) = Some e"
  by (cases e) (auto simp: error_from_code_def error_KNOWN_def not_le)

lemma process_state_roundtrip:
  "(\<forall>ws. s = UnknownState ws \<longrightarrow> 3 < ws ! 0) \<Longrightarrow>
   process_state_from_words (process_state_to_words s) = s"
  by (cases s) (auto simp: process_state_from_words_def)

lemma access_roundtrip: "access_from_raw (access_raw a) = Some a"
  by (cases a) (simp_all add: access_from_raw_def)

text \<open>No access both writes and executes.\<close>

lemma access_w_xor_x:
  "\<not> (rights_contains (access_rights a) rights_MAP_WRITE
      \<and> rights_contains (access_rights a) rights_MAP_EXEC)"
  by (cases a) (simp_all add: rights_contains_def rights_union_def rights_NONE_def
      rights_MAP_READ_def rights_MAP_WRITE_def rights_MAP_EXEC_def)

lemma rights_contains_trans:
  "rights_contains a b \<Longrightarrow> rights_contains b c \<Longrightarrow> rights_contains a c"
  using order_trans [of c b a] by (simp add: less_eq_rights_def)

lemma rights_contains_bit:
  "rights_contains a b \<longleftrightarrow> (\<forall>n. bit (rights_bits b) n \<longrightarrow> bit (rights_bits a) n)"
  unfolding rights_contains_def bit_eq_iff bit_and_iff
  by (metis bit_imp_le_length possible_bit_word)

end
