(* ===== verification/Abi_Words.thy ===== *)
theory Abi_Words
  imports Abi
begin

text \<open>
  What travels in registers between the kernel and a program, \<open>lib/abi/src/lib.rs\<close>:
  the numbers of the calls, the bytes of a message in x2-x9, the words of messages and
  notifications, the info words of handles, and the words of \<open>object_info\<close>. A coding and
  its reading are an instance of one interface, the locale \<open>codec\<close>: what is written is
  read back, so different values have different words.
\<close>

section \<open>Calls\<close>

datatype call =
    Call_HandleClose | Call_HandleDuplicate | Call_CreateChannel | Call_Send | Call_Receive | Call_Reply
  | Call_Notify | Call_MemCreate | Call_MemMap | Call_MemUnmap | Call_MemProtect | Call_ProcessCreate
  | Call_ProcessKill | Call_ProcessExit | Call_ThreadCreate | Call_ThreadStart | Call_ThreadExit
  | Call_ThreadSetPriority | Call_Yield | Call_DeviceWindowCreate | Call_IrqBind | Call_IrqAck
  | Call_ClockNow | Call_TimerCreate | Call_TimerSet | Call_TimerCancel | Call_ObjectInfo | Call_DebugWrite
  | Call_ThreadInterrupt | Call_ThreadUpcallBind | Call_ThreadUpcallControl | Call_ThreadUpcallRequest
  | Call_ThreadUpcallReturn | Call_ProcessControl

definition call_ALL :: "call list" where
  "call_ALL = [Call_HandleClose, Call_HandleDuplicate, Call_CreateChannel, Call_Send, Call_Receive, Call_Reply,
     Call_Notify, Call_MemCreate, Call_MemMap, Call_MemUnmap, Call_MemProtect, Call_ProcessCreate,
     Call_ProcessKill, Call_ProcessExit, Call_ThreadCreate, Call_ThreadStart, Call_ThreadExit,
     Call_ThreadSetPriority, Call_Yield, Call_DeviceWindowCreate, Call_IrqBind, Call_IrqAck,
     Call_ClockNow, Call_TimerCreate, Call_TimerSet, Call_TimerCancel, Call_ObjectInfo, Call_DebugWrite,
     Call_ThreadInterrupt, Call_ThreadUpcallBind, Call_ThreadUpcallControl, Call_ThreadUpcallRequest,
     Call_ThreadUpcallReturn, Call_ProcessControl]"

fun call_number :: "call \<Rightarrow> u16" where
  "call_number Call_HandleClose = 1"
| "call_number Call_HandleDuplicate = 2"
| "call_number Call_CreateChannel = 3"
| "call_number Call_Send = 4"
| "call_number Call_Receive = 5"
| "call_number Call_Reply = 6"
| "call_number Call_Notify = 7"
| "call_number Call_MemCreate = 8"
| "call_number Call_MemMap = 9"
| "call_number Call_MemUnmap = 10"
| "call_number Call_MemProtect = 11"
| "call_number Call_ProcessCreate = 12"
| "call_number Call_ProcessKill = 13"
| "call_number Call_ProcessExit = 14"
| "call_number Call_ThreadCreate = 15"
| "call_number Call_ThreadStart = 16"
| "call_number Call_ThreadExit = 17"
| "call_number Call_ThreadSetPriority = 18"
| "call_number Call_Yield = 19"
| "call_number Call_DeviceWindowCreate = 20"
| "call_number Call_IrqBind = 21"
| "call_number Call_IrqAck = 22"
| "call_number Call_ClockNow = 23"
| "call_number Call_TimerCreate = 24"
| "call_number Call_TimerSet = 25"
| "call_number Call_TimerCancel = 26"
| "call_number Call_ObjectInfo = 27"
| "call_number Call_DebugWrite = 28"
| "call_number Call_ThreadInterrupt = 30"
| "call_number Call_ThreadUpcallBind = 31"
| "call_number Call_ThreadUpcallControl = 32"
| "call_number Call_ThreadUpcallRequest = 33"
| "call_number Call_ThreadUpcallReturn = 34"
| "call_number Call_ProcessControl = 36"

text \<open>The indexing of \<open>ALL\<close> would stop the kernel out of range.\<close>

definition call_from_number :: "u16 \<Rightarrow> call option option" where
  "call_from_number number =
     (if 1 \<le> number \<and> number \<le> 28 then map_option Some (at_index call_ALL (unat number - 1))
      else if 30 \<le> number \<and> number \<le> 34 then map_option Some (at_index call_ALL (unat number - 2))
      else if number = 36 then Some (Some Call_ProcessControl)
      else Some None)"

definition RETIRED_CALLS :: "u16 list" where "RETIRED_CALLS = [29, 35]"

section \<open>Bytes in registers\<close>

definition from_le_bytes :: "u8 list \<Rightarrow> u64" where
  "from_le_bytes bs = foldr (\<lambda>b w. push_bit 8 w OR ucast b) bs 0"

definition to_le_bytes :: "u64 \<Rightarrow> u8 list" where
  "to_le_bytes w = map (\<lambda>i. ucast (drop_bit (8 * i) w)) [0..<8]"

text \<open>\<open>as_chunks\<close> of the core library: the whole chunks of eight, and the rest.\<close>

definition as_chunks8 :: "'a list \<Rightarrow> 'a list list \<times> 'a list" where
  "as_chunks8 bs =
     (let n = length bs div 8 in (map (\<lambda>k. take 8 (drop (8 * k) bs)) [0..<n], drop (8 * n) bs))"

definition or_bytes :: "u8 list \<Rightarrow> u64 \<Rightarrow> u64" where
  "or_bytes rest w = fold (\<lambda>(i, b) w. w OR push_bit (8 * i) (ucast b)) (enumerate 0 rest) w"

definition inline_words :: "u8 list \<Rightarrow> u64 list option" where
  "inline_words bs = do {
     ensure (length bs \<le> INLINE_MAX);
     let words = replicate 8 0;
     let (whole, rest) = as_chunks8 bs;
     let words = map from_le_bytes (take 8 whole) @ drop (length whole) words;
     Some (if length whole < length words
           then words[length whole := or_bytes rest (words ! length whole)] else words) }"

definition inline_bytes :: "u64 list \<Rightarrow> u8 list" where
  "inline_bytes ws = concat (map to_le_bytes ws)"

section \<open>Handles that come with a message\<close>

datatype object_kind =
    KindProcess | KindThread | KindChannel | KindTimer | KindResource | KindMemory | KindInterrupt
  | KindDeviceWindow | KindUnknown u8

fun object_kind_code :: "object_kind \<Rightarrow> u8" where
  "object_kind_code KindProcess = 1"
| "object_kind_code KindThread = 2"
| "object_kind_code KindChannel = 3"
| "object_kind_code KindTimer = 4"
| "object_kind_code KindResource = 5"
| "object_kind_code KindMemory = 6"
| "object_kind_code KindInterrupt = 7"
| "object_kind_code KindDeviceWindow = 8"
| "object_kind_code (KindUnknown code) = code"

definition object_kind_from_code :: "u8 \<Rightarrow> object_kind" where
  "object_kind_from_code code =
     (if code = 1 then KindProcess else if code = 2 then KindThread else if code = 3 then KindChannel
      else if code = 4 then KindTimer else if code = 5 then KindResource else if code = 6 then KindMemory
      else if code = 7 then KindInterrupt else if code = 8 then KindDeviceWindow else KindUnknown code)"

definition info :: "object_kind \<Rightarrow> rights \<Rightarrow> u64" where
  "info kind r = ucast (rights_bits r) OR push_bit 32 (ucast (object_kind_code kind))"

definition parse_info :: "u64 \<Rightarrow> object_kind \<times> rights" where
  "parse_info word = (object_kind_from_code (ucast (drop_bit 32 word)), Rights (ucast word))"

section \<open>What receive returns\<close>

definition SOURCE_SHIFT :: nat where "SOURCE_SHIFT = 24"

datatype source =
    SourceMessage | SourceUnlabeled | SourceSession | SourceTimer | SourceExit | SourceInterrupt
  | SourceUnknown u64

fun source_code :: "source \<Rightarrow> u64" where
  "source_code SourceMessage = 0"
| "source_code SourceUnlabeled = 1"
| "source_code SourceSession = 2"
| "source_code SourceTimer = 3"
| "source_code SourceExit = 4"
| "source_code SourceInterrupt = 5"
| "source_code (SourceUnknown code) = code"

definition source_from_code :: "u64 \<Rightarrow> source" where
  "source_from_code code =
     (if code = 0 then SourceMessage else if code = 1 then SourceUnlabeled else if code = 2 then SourceSession
      else if code = 3 then SourceTimer else if code = 4 then SourceExit else if code = 5 then SourceInterrupt
      else SourceUnknown code)"

record notification =
  nf_source :: source
  nf_label :: u64
  nf_bits :: u64
  nf_count :: u32

definition notification_write_words :: "notification \<Rightarrow> u64 list \<Rightarrow> u64 list" where
  "notification_write_words n ws =
     (replicate 11 0)[0 := push_bit SOURCE_SHIFT (source_code (nf_source n)), 1 := nf_bits n,
        2 := ucast (nf_count n), 9 := nf_label n]"

definition notification_to_words :: "notification \<Rightarrow> u64 list" where
  "notification_to_words n = notification_write_words n (replicate 11 0)"

definition notification_from_words :: "u64 list \<Rightarrow> notification" where
  "notification_from_words ws =
     \<lparr>nf_source = source_from_code (drop_bit SOURCE_SHIFT (ws ! 0) AND 0xF), nf_label = ws ! 9,
      nf_bits = ws ! 1, nf_count = ucast (ws ! 2)\<rparr>"

text \<open>The length and the count of handles are \<open>usize\<close>, 64 bits.\<close>

record message =
  msg_len :: u64
  msg_handles :: u64
  msg_words :: "u64 list"
  msg_label :: u64
  msg_token :: u64

definition message_description :: "message \<Rightarrow> u64" where
  "message_description m = msg_len m OR push_bit HANDLES_SHIFT (msg_handles m)"

definition message_to_words :: "message \<Rightarrow> u64 list" where
  "message_to_words m =
     [message_description m] @ map (\<lambda>i. msg_words m ! i) [0..<8] @ [msg_label m, msg_token m]"

definition message_from_words :: "u64 list \<Rightarrow> message" where
  "message_from_words ws =
     \<lparr>msg_len = ws ! 0 AND (push_bit 11 1 - 1),
      msg_handles = drop_bit HANDLES_SHIFT (ws ! 0) AND 7,
      msg_words = map (\<lambda>i. ws ! (1 + i)) [0..<8], msg_label = ws ! 9, msg_token = ws ! 10\<rparr>"

section \<open>What object\_info returns\<close>

record log_batch =
  lb_count :: u64
  lb_lost :: u64
  lb_left :: u64

definition log_batch_to_words :: "log_batch \<Rightarrow> u64 list" where
  "log_batch_to_words x = [lb_count x, lb_lost x, lb_left x]"

definition log_batch_from_words :: "u64 list \<Rightarrow> log_batch" where
  "log_batch_from_words ws = \<lparr>lb_count = ws ! 0, lb_lost = ws ! 1, lb_left = ws ! 2\<rparr>"

record process_memory =
  pm_quota :: u64
  pm_used :: u64
  pm_returned :: u64

definition process_memory_to_words :: "process_memory \<Rightarrow> u64 list" where
  "process_memory_to_words x = [pm_quota x, pm_used x, pm_returned x]"

definition process_memory_from_words :: "u64 list \<Rightarrow> process_memory" where
  "process_memory_from_words ws = \<lparr>pm_quota = ws ! 0, pm_used = ws ! 1, pm_returned = ws ! 2\<rparr>"

record share_info =
  sh_limit :: u64
  sh_used :: u64
  sh_returned :: u64

record process_shares =
  ps_threads :: share_info
  ps_timers :: share_info
  ps_own :: bool

definition process_shares_to_words :: "process_shares \<Rightarrow> u64 list" where
  "process_shares_to_words x =
     [sh_limit (ps_threads x), sh_used (ps_threads x), sh_returned (ps_threads x),
      sh_limit (ps_timers x), sh_used (ps_timers x), sh_returned (ps_timers x), of_bool (ps_own x)]"

definition process_shares_from_words :: "u64 list \<Rightarrow> process_shares" where
  "process_shares_from_words w =
     \<lparr>ps_threads = \<lparr>sh_limit = w ! 0, sh_used = w ! 1, sh_returned = w ! 2\<rparr>,
      ps_timers = \<lparr>sh_limit = w ! 3, sh_used = w ! 4, sh_returned = w ! 5\<rparr>,
      ps_own = (w ! 6 \<noteq> 0)\<rparr>"

record memory_info =
  mi_size :: u64
  mi_pages :: u64
  mi_mappings :: u64

definition memory_info_to_words :: "memory_info \<Rightarrow> u64 list" where
  "memory_info_to_words x = [mi_size x, mi_pages x, mi_mappings x]"

definition memory_info_from_words :: "u64 list \<Rightarrow> memory_info" where
  "memory_info_from_words ws = \<lparr>mi_size = ws ! 0, mi_pages = ws ! 1, mi_mappings = ws ! 2\<rparr>"

record irq_info =
  ii_line :: u64
  ii_masked :: bool
  ii_edge :: bool

definition irq_info_to_words :: "irq_info \<Rightarrow> u64 list" where
  "irq_info_to_words x = [ii_line x, of_bool (ii_masked x), of_bool (ii_edge x)]"

definition irq_info_from_words :: "u64 list \<Rightarrow> irq_info" where
  "irq_info_from_words ws = \<lparr>ii_line = ws ! 0, ii_masked = (ws ! 1 \<noteq> 0), ii_edge = (ws ! 2 \<noteq> 0)\<rparr>"

datatype thread_state =
    TS_Stopped | TS_Ready | TS_Running | TS_Receiving | TS_Sending | TS_AwaitingReply | TS_Ended | TS_Parked
  | TS_Unknown u64

fun thread_state_code :: "thread_state \<Rightarrow> u64" where
  "thread_state_code TS_Stopped = 0"
| "thread_state_code TS_Ready = 1"
| "thread_state_code TS_Running = 2"
| "thread_state_code TS_Receiving = 3"
| "thread_state_code TS_Sending = 4"
| "thread_state_code TS_AwaitingReply = 5"
| "thread_state_code TS_Ended = 6"
| "thread_state_code TS_Parked = 7"
| "thread_state_code (TS_Unknown code) = code"

definition thread_state_from_code :: "u64 \<Rightarrow> thread_state" where
  "thread_state_from_code code =
     (if code = 0 then TS_Stopped else if code = 1 then TS_Ready else if code = 2 then TS_Running
      else if code = 3 then TS_Receiving else if code = 4 then TS_Sending else if code = 5 then TS_AwaitingReply
      else if code = 6 then TS_Ended else if code = 7 then TS_Parked else TS_Unknown code)"

record thread_info =
  ti_state :: thread_state
  ti_base :: u8
  ti_priority :: u8
  ti_policy :: "policy option"

text \<open>\<open>p as u64\<close>: the discriminant of a policy.\<close>

fun policy_raw :: "policy \<Rightarrow> u64" where
  "policy_raw RoundRobin = 0"
| "policy_raw Fifo = 1"

definition thread_info_to_words :: "thread_info \<Rightarrow> u64 list" where
  "thread_info_to_words x =
     [thread_state_code (ti_state x), ucast (ti_base x), ucast (ti_priority x),
      case ti_policy x of Some p \<Rightarrow> policy_raw p | None \<Rightarrow> - 1]"

definition thread_info_from_words :: "u64 list \<Rightarrow> thread_info" where
  "thread_info_from_words ws =
     \<lparr>ti_state = thread_state_from_code (ws ! 0), ti_base = ucast (ws ! 1), ti_priority = ucast (ws ! 2),
      ti_policy = policy_from_raw (ws ! 3)\<rparr>"

record channel_info =
  ci_queued :: u64
  ci_receivers :: u64
  ci_sources :: u64
  ci_closed :: bool

definition channel_info_to_words :: "channel_info \<Rightarrow> u64 list" where
  "channel_info_to_words x = [ci_queued x, ci_receivers x, ci_sources x, of_bool (ci_closed x)]"

definition channel_info_from_words :: "u64 list \<Rightarrow> channel_info" where
  "channel_info_from_words ws =
     \<lparr>ci_queued = ws ! 0, ci_receivers = ws ! 1, ci_sources = ws ! 2, ci_closed = (ws ! 3 \<noteq> 0)\<rparr>"

record process_handles =
  ph_live :: u64
  ph_retired :: u64
  ph_limit :: u64

definition process_handles_to_words :: "process_handles \<Rightarrow> u64 list" where
  "process_handles_to_words x = [ph_live x, ph_retired x, ph_limit x]"

definition process_handles_from_words :: "u64 list \<Rightarrow> process_handles" where
  "process_handles_from_words ws = \<lparr>ph_live = ws ! 0, ph_retired = ws ! 1, ph_limit = ws ! 2\<rparr>"

record kernel_stats =
  ks_idle :: u64
  ks_idle_latency :: u64
  ks_irq_latency :: u64
  ks_cleanup_queue :: u64
  ks_longest_portion :: u64
  ks_free_frames :: u64
  ks_pool_pages :: u64
  ks_longest_firing :: u64
  ks_entry_to_poll :: u64

definition kernel_stats_to_words :: "kernel_stats \<Rightarrow> u64 list" where
  "kernel_stats_to_words x =
     [ks_idle x, ks_idle_latency x, ks_irq_latency x, ks_cleanup_queue x, ks_longest_portion x,
      ks_free_frames x, ks_pool_pages x, ks_longest_firing x, ks_entry_to_poll x]"

definition kernel_stats_from_words :: "u64 list \<Rightarrow> kernel_stats" where
  "kernel_stats_from_words ws =
     \<lparr>ks_idle = ws ! 0, ks_idle_latency = ws ! 1, ks_irq_latency = ws ! 2, ks_cleanup_queue = ws ! 3,
      ks_longest_portion = ws ! 4, ks_free_frames = ws ! 5, ks_pool_pages = ws ! 6,
      ks_longest_firing = ws ! 7, ks_entry_to_poll = ws ! 8\<rparr>"

datatype upcall_control =
    UC_Mask | UC_Enable | UC_Take | UC_Defer | UC_Resume | UC_Faults | UC_Stack | UC_Adopt | UC_Query

definition upcall_control_from_raw :: "u64 \<Rightarrow> upcall_control option" where
  "upcall_control_from_raw raw =
     (if raw = 0 then Some UC_Mask else if raw = 1 then Some UC_Enable else if raw = 2 then Some UC_Take
      else if raw = 3 then Some UC_Defer else if raw = 4 then Some UC_Resume else if raw = 13 then Some UC_Faults
      else if raw = 14 then Some UC_Stack else if raw = 15 then Some UC_Adopt else if raw = 16 then Some UC_Query
      else None)"

fun upcall_control_raw :: "upcall_control \<Rightarrow> u64" where
  "upcall_control_raw UC_Mask = 0"
| "upcall_control_raw UC_Enable = 1"
| "upcall_control_raw UC_Take = 2"
| "upcall_control_raw UC_Defer = 3"
| "upcall_control_raw UC_Resume = 4"
| "upcall_control_raw UC_Faults = 13"
| "upcall_control_raw UC_Stack = 14"
| "upcall_control_raw UC_Adopt = 15"
| "upcall_control_raw UC_Query = 16"

section \<open>The interface of a coding\<close>

locale codec =
  fixes encode :: "'a \<Rightarrow> 'w" and decode :: "'w \<Rightarrow> 'a" and carried :: "'a \<Rightarrow> bool"
  assumes decode_encode: "carried x \<Longrightarrow> decode (encode x) = x"
begin

lemma encode_inj: "carried x \<Longrightarrow> carried y \<Longrightarrow> encode x = encode y \<longleftrightarrow> x = y"
  using decode_encode by metis

lemma image_decode: "\<forall>x\<in>set xs. carried x \<Longrightarrow> map decode (map encode xs) = xs"
  using decode_encode by (induction xs) auto

end

text \<open>A code that another constructor has is not an unknown one.\<close>

fun kind_carried :: "object_kind \<Rightarrow> bool" where
  "kind_carried (KindUnknown c) \<longleftrightarrow> c = 0 \<or> c > 8"
| "kind_carried _ \<longleftrightarrow> True"

fun source_carried :: "source \<Rightarrow> bool" where
  "source_carried (SourceUnknown c) \<longleftrightarrow> 5 < c \<and> c < 16"
| "source_carried _ \<longleftrightarrow> True"

fun thread_state_carried :: "thread_state \<Rightarrow> bool" where
  "thread_state_carried (TS_Unknown c) \<longleftrightarrow> c > 7"
| "thread_state_carried _ \<longleftrightarrow> True"

fun process_state_carried :: "process_state \<Rightarrow> bool" where
  "process_state_carried (UnknownState ws) \<longleftrightarrow> length ws = 4 \<and> ws ! 0 > 3"
| "process_state_carried _ \<longleftrightarrow> True"

definition message_carried :: "message \<Rightarrow> bool" where
  "message_carried m \<longleftrightarrow>
     unat (msg_len m) \<le> MESSAGE_MAX \<and> unat (msg_handles m) \<le> MESSAGE_HANDLES \<and> length (msg_words m) = 8"

subsection \<open>Kinds, sources and states\<close>

interpretation kind: codec object_kind_code object_kind_from_code kind_carried
proof
  show "object_kind_from_code (object_kind_code x) = x" if "kind_carried x" for x
    using that by (cases x) (auto simp: object_kind_from_code_def)
qed

interpretation src: codec source_code source_from_code source_carried
proof
  show "source_from_code (source_code x) = x" if "source_carried x" for x
    using that by (cases x) (auto simp: source_from_code_def)
qed

interpretation tstate: codec thread_state_code thread_state_from_code thread_state_carried
proof
  show "thread_state_from_code (thread_state_code x) = x" if "thread_state_carried x" for x
    using that by (cases x) (auto simp: thread_state_from_code_def)
qed

interpretation upcall: codec upcall_control_raw "\<lambda>w. the (upcall_control_from_raw w)" "\<lambda>_. True"
proof
  show "the (upcall_control_from_raw (upcall_control_raw x)) = x" for x
    by (cases x) (auto simp: upcall_control_from_raw_def)
qed

subsection \<open>The words of \<open>object_info\<close>\<close>

interpretation logs: codec log_batch_to_words log_batch_from_words "\<lambda>_. True"
  by unfold_locales (simp add: log_batch_to_words_def log_batch_from_words_def)

interpretation memory: codec process_memory_to_words process_memory_from_words "\<lambda>_. True"
  by unfold_locales (simp add: process_memory_to_words_def process_memory_from_words_def)

interpretation shares: codec process_shares_to_words process_shares_from_words "\<lambda>_. True"
  by unfold_locales (simp add: process_shares_to_words_def process_shares_from_words_def)

interpretation meminfo: codec memory_info_to_words memory_info_from_words "\<lambda>_. True"
  by unfold_locales (simp add: memory_info_to_words_def memory_info_from_words_def)

interpretation irq: codec irq_info_to_words irq_info_from_words "\<lambda>_. True"
  by unfold_locales (simp add: irq_info_to_words_def irq_info_from_words_def)

interpretation chan: codec channel_info_to_words channel_info_from_words "\<lambda>_. True"
  by unfold_locales (simp add: channel_info_to_words_def channel_info_from_words_def)

interpretation handles: codec process_handles_to_words process_handles_from_words "\<lambda>_. True"
  by unfold_locales (simp add: process_handles_to_words_def process_handles_from_words_def)

interpretation stats: codec kernel_stats_to_words kernel_stats_from_words "\<lambda>_. True"
  by unfold_locales (simp add: kernel_stats_to_words_def kernel_stats_from_words_def)

interpretation pstate: codec process_state_to_words process_state_from_words process_state_carried
proof
  show "process_state_from_words (process_state_to_words x) = x" if "process_state_carried x" for x
    using that by (intro process_state_roundtrip) auto
qed

lemma policy_from_raw_raw: "policy_from_raw (policy_raw p) = Some p"
  by (cases p) (simp_all add: policy_from_raw_def)

lemma ucast_ucast_narrow: "(ucast (ucast (x :: 'a::len word) :: u64) :: 'a word) = x" if "LENGTH('a) \<le> 64"
  using that by (intro bit_word_eqI) (simp add: bit_ucast_iff)

lemma policy_from_raw_none: "policy_from_raw (- 1) = None"
  by (simp add: policy_from_raw_def)

interpretation tinfo: codec thread_info_to_words thread_info_from_words "\<lambda>x. thread_state_carried (ti_state x)"
proof
  show "thread_info_from_words (thread_info_to_words x) = x" if "thread_state_carried (ti_state x)" for x
    using tstate.decode_encode [OF that]
    by (cases "ti_policy x")
      (simp_all add: thread_info_to_words_def thread_info_from_words_def policy_from_raw_raw ucast_ucast_narrow
        policy_from_raw_none)
qed

text \<open>The decoders make no unknown state of a code that a known one has.\<close>

lemma code_above:
  "(c :: u64) \<notin> {0, 1, 2, 3} \<Longrightarrow> 3 < c" "c \<notin> {0, 1, 2, 3, 4, 5, 6, 7} \<Longrightarrow> 7 < c"
  by (simp_all add: word_less_nat_alt word_unat_eq_iff)

lemma thread_state_decoded: "thread_state_carried (ti_state (thread_info_from_words ws))"
  using code_above(2) [of "ws ! 0"] by (auto simp: thread_info_from_words_def thread_state_from_code_def)

lemma process_state_decoded: "length ws = 4 \<Longrightarrow> process_state_carried (process_state_from_words ws)"
  using code_above(1) [of "ws ! 0"] by (auto simp: process_state_from_words_def)

subsection \<open>Messages and notifications\<close>

lemma info_parts:
  "ucast (drop_bit 32 (info k r)) = object_kind_code k" "ucast (info k r) = rights_bits r"
  by (rule bit_word_eqI,
      auto simp: info_def bit_ucast_iff bit_drop_bit_eq bit_or_iff bit_push_bit_iff dest: bit_imp_le_length)+

lemma description_parts:
  assumes "message_carried m"
  shows "message_description m AND mask 11 = msg_len m"
    and "drop_bit 12 (message_description m) AND mask 3 = msg_handles m"
    and "drop_bit 24 (message_description m) = 0"
proof -
  have small: "unat (msg_len m) < 2 ^ 11" "unat (msg_handles m) < 2 ^ 3"
    using assms by (simp_all add: message_carried_def MESSAGE_MAX_def MESSAGE_HANDLES_def)
  have len: "bit (msg_len m) k \<Longrightarrow> k < 11" for k
    using no_high_bit [OF small(1), of k] by (meson not_le)
  have hs: "bit (msg_handles m) k \<Longrightarrow> k < 3" for k
    using no_high_bit [OF small(2), of k] by (meson not_le)
  have bits: "bit (message_description m) k \<longleftrightarrow> bit (msg_len m) k \<or> 12 \<le> k \<and> k < 64 \<and> bit (msg_handles m) (k - 12)" for k
    by (auto simp: message_description_def HANDLES_SHIFT_def bit_or_iff bit_push_bit_iff)
  show "message_description m AND mask 11 = msg_len m"
    by (rule bit_word_eqI) (auto simp: bits bit_and_iff bit_mask_iff dest: len)
  show "drop_bit 12 (message_description m) AND mask 3 = msg_handles m"
    by (rule bit_word_eqI) (auto simp: bits bit_and_iff bit_mask_iff bit_drop_bit_eq dest: len hs)
  show "drop_bit 24 (message_description m) = 0"
    by (rule bit_word_eqI) (auto simp: bits bit_drop_bit_eq dest: len hs)
qed

interpretation infos: codec "\<lambda>(k, r). info k r" parse_info "\<lambda>(k, r). kind_carried k"
proof
  show "parse_info (case x of (k, r) \<Rightarrow> info k r) = x" if "case x of (k, r) \<Rightarrow> kind_carried k" for x
    using that kind.decode_encode by (cases x) (simp add: parse_info_def info_parts)
qed

lemma upt_8: "[0..<8] = [0, 1, 2, 3, 4, 5, 6, 7 :: nat]"
  by (simp add: upt_rec)

interpretation msg: codec message_to_words message_from_words message_carried
proof
  show "message_from_words (message_to_words m) = m" if m: "message_carried m" for m
  proof -
    have words: "map (\<lambda>i. msg_words m ! i) [0..<8] = msg_words m"
      using m by (intro nth_equalityI) (simp_all add: message_carried_def)
    have "push_bit 11 1 - 1 = (mask 11 :: u64)" "(7 :: u64) = mask 3"
      by (simp_all add: mask_eq_exp_minus_1)
    then have "message_from_words (message_to_words m) = m\<lparr>msg_words := map (\<lambda>i. msg_words m ! i) [0..<8]\<rparr>"
      using description_parts(1,2) [OF m]
      by (simp add: message_to_words_def message_from_words_def HANDLES_SHIFT_def upt_8)
    then show ?thesis
      by (simp add: words)
  qed
qed

lemma source_code_small: "source_carried x \<Longrightarrow> unat (source_code x) < 2 ^ 4"
  by (cases x) (auto simp: word_less_nat_alt)

lemma source_field:
  assumes "unat c < 2 ^ 4"
  shows "drop_bit 24 (push_bit 24 c) AND 0xF = (c :: u64)"
proof -
  have small: "k < 4" if "bit c k" for k
    using that no_high_bit [OF assms, of k] by (meson not_le)
  have "drop_bit 24 (push_bit 24 c) AND mask 4 = c"
    by (rule bit_word_eqI) (auto simp: bit_and_iff bit_mask_iff bit_drop_bit_eq bit_push_bit_iff dest: small)
  then show ?thesis
    by (simp add: mask_eq_exp_minus_1)
qed

interpretation notif: codec notification_to_words notification_from_words "\<lambda>n. source_carried (nf_source n)"
proof
  show "notification_from_words (notification_to_words n) = n" if n: "source_carried (nf_source n)" for n
    using src.decode_encode [OF n] source_field [OF source_code_small [OF n]]
    by (simp add: notification_to_words_def notification_write_words_def notification_from_words_def
        SOURCE_SHIFT_def ucast_ucast_narrow)
qed

subsection \<open>Bytes\<close>

lemma bit_or_bytes:
  "bit (fold (\<lambda>(i, b) w. w OR push_bit (8 * i) (ucast b)) (enumerate k bs) w) n \<longleftrightarrow>
     bit (w :: u64) n \<or> n < 64 \<and> k \<le> n div 8 \<and> n div 8 < k + length bs \<and> bit (bs ! (n div 8 - k) :: u8) (n mod 8)"
proof (induction bs arbitrary: k w)
  case (Cons b bs)
  have "bit (push_bit (8 * k) (ucast b) :: u64) n \<longleftrightarrow> n < 64 \<and> n div 8 = k \<and> bit b (n mod 8)"
  proof (cases "n div 8 = k")
    case True
    then show ?thesis
      by (auto simp: bit_push_bit_iff bit_ucast_iff minus_mult_div_eq_mod)
  next
    case False
    then have "\<not> bit b (n - 8 * k)" if "8 * k \<le> n"
      using that by (intro no_high_bit [of _ 8]) (use unat_below [of b] in auto)
    then show ?thesis
      using False by (auto simp: bit_push_bit_iff bit_ucast_iff)
  qed
  then show ?case
    using Cons.IH [of "Suc k" "w OR push_bit (8 * k) (ucast b)"]
    by (auto simp: bit_or_iff nth_Cons' le_Suc_eq)
qed auto

lemma bit_from_le_bytes:
  "bit (from_le_bytes bs) n \<longleftrightarrow> n < 64 \<and> n div 8 < length bs \<and> bit (bs ! (n div 8)) (n mod 8)"
proof (induction bs arbitrary: n)
  case (Cons b bs)
  have split: "bit (from_le_bytes (b # bs)) n \<longleftrightarrow>
      n < 64 \<and> (8 \<le> n \<and> bit (from_le_bytes bs) (n - 8) \<or> bit b n)"
    by (auto simp: from_le_bytes_def bit_or_iff bit_push_bit_iff bit_ucast_iff dest: bit_imp_le_length)
  show ?case
  proof (cases "n < 8")
    case False
    then have "\<not> bit b n" "n div 8 = Suc ((n - 8) div 8)" "(n - 8) mod 8 = n mod 8"
      using bit_imp_le_length [of b n] by (auto simp: le_div_geq le_mod_geq)
    then show ?thesis
      using False by (auto simp: split Cons.IH)
  qed (auto simp: split)
qed (simp add: from_le_bytes_def)

lemma to_le_bytes_nth: "i < 8 \<Longrightarrow> bit (to_le_bytes w ! i) n \<longleftrightarrow> n < 8 \<and> bit w (8 * i + n)"
  by (auto simp: to_le_bytes_def bit_ucast_iff bit_drop_bit_eq)

text \<open>A byte list read as a word and taken apart again: padded with zeros.\<close>

definition padded :: "nat \<Rightarrow> u8 list \<Rightarrow> u8 list" where
  "padded n bs = bs @ replicate (n - length bs) 0"

lemma to_le_from_le:
  assumes "length bs \<le> 8" and w: "\<And>n. bit w n \<longleftrightarrow> n < 64 \<and> n div 8 < length bs \<and> bit (bs ! (n div 8)) (n mod 8)"
  shows "to_le_bytes w = padded 8 bs"
proof (rule nth_equalityI)
  fix i
  assume "i < length (to_le_bytes w)"
  then have i: "i < 8"
    by (simp add: to_le_bytes_def)
  show "to_le_bytes w ! i = padded 8 bs ! i"
    by (rule bit_word_eqI) (use i in \<open>auto simp: to_le_bytes_nth w padded_def nth_append\<close>)
qed (use assms(1) in \<open>simp add: to_le_bytes_def padded_def\<close>)

lemma to_le_from_le_bytes: "length bs \<le> 8 \<Longrightarrow> to_le_bytes (from_le_bytes bs) = padded 8 bs"
  by (intro to_le_from_le) (simp_all add: bit_from_le_bytes)

lemma to_le_or_bytes: "length bs \<le> 8 \<Longrightarrow> to_le_bytes (or_bytes bs 0) = padded 8 bs"
  using bit_or_bytes [of 0 bs 0] by (intro to_le_from_le) (simp_all add: or_bytes_def)

lemma to_le_bytes_0: "to_le_bytes 0 = replicate 8 0"
  by (simp add: to_le_bytes_def upt_8 eval_nat_numeral)

text \<open>The words of \<open>inline_words\<close>: the whole ones, the one with the rest, zeros.\<close>

lemma inline_words_split:
  assumes "length bs \<le> 64" and "n = length bs div 8"
  shows "inline_words bs = Some
    (map (\<lambda>k. from_le_bytes (take 8 (drop (8 * k) bs))) [0..<n]
     @ (if n < 8 then or_bytes (drop (8 * n) bs) 0 # replicate (7 - n) 0 else []))"
proof (cases "n < 8")
  case True
  then have eight: "8 - n = Suc (7 - n)"
    by simp
  let ?whole = "map (\<lambda>k. from_le_bytes (take 8 (drop (8 * k) bs))) [0..<n]"
  have "length ?whole = n"
    by simp
  then have "(?whole @ 0 # replicate (7 - n) 0)[n := x] = ?whole @ x # replicate (7 - n) 0"
      "(?whole @ 0 # replicate (7 - n) 0) ! n = 0" for x
    by (metis list_update_length, metis nth_append_length)
  then show ?thesis
    using True assms eight
    by (simp add: inline_words_def as_chunks8_def INLINE_MAX_def Let_def comp_def del: upt_Suc)
next
  case False
  then have "n = 8"
    using assms by simp
  then show ?thesis
    using assms
    by (simp add: inline_words_def as_chunks8_def INLINE_MAX_def Let_def comp_def del: upt_Suc)
qed

section \<open>Numbers of calls\<close>

lemma call_ALL_numbers:
  "i < 28 \<Longrightarrow> call_number (call_ALL ! i) = of_nat (i + 1)"
  "28 \<le> i \<Longrightarrow> i < 33 \<Longrightarrow> call_number (call_ALL ! i) = of_nat (i + 2)"
proof -
  have "list_all (\<lambda>i. call_number (call_ALL ! i) = of_nat (i + 1)) [0..<28]"
    "list_all (\<lambda>i. call_number (call_ALL ! i) = of_nat (i + 2)) [28..<33]"
    by code_simp+
  then have small: "\<forall>i\<in>{0..<28}. call_number (call_ALL ! i) = of_nat (i + 1)"
      and large: "\<forall>i\<in>{28..<33}. call_number (call_ALL ! i) = of_nat (i + 2)"
    unfolding list_all_iff set_upt .
  show "i < 28 \<Longrightarrow> call_number (call_ALL ! i) = of_nat (i + 1)"
    using small by (meson atLeastLessThan_iff zero_le)
  show "28 \<le> i \<Longrightarrow> i < 33 \<Longrightarrow> call_number (call_ALL ! i) = of_nat (i + 2)"
    using large by (meson atLeastLessThan_iff)
qed

lemma call_from_number_number: "call_from_number (call_number c) = Some (Some c)"
  by (cases c) (simp_all add: call_from_number_def call_ALL_def at_index_def)

lemma call_number_from_number:
  assumes "call_from_number n = Some (Some c)"
  shows "call_number c = n"
proof -
  have word: "(of_nat (unat n) :: u16) = n"
    by simp
  consider "1 \<le> unat n" "unat n \<le> 28" "c = call_ALL ! (unat n - 1)"
    | "30 \<le> unat n" "unat n \<le> 34" "c = call_ALL ! (unat n - 2)"
    | "n = 36" "c = Call_ProcessControl"
    using assms by (auto simp: call_from_number_def at_index_eq_Some word_le_nat_alt split: if_splits)
  then show ?thesis
  proof cases
    case 1
    then have "call_number c = of_nat (unat n - 1 + 1)" "unat n - 1 + 1 = unat n"
      using call_ALL_numbers(1) [of "unat n - 1"] by auto
    then show ?thesis
      using word by metis
  next
    case 2
    then have "call_number c = of_nat (unat n - 2 + 2)" "unat n - 2 + 2 = unat n"
      using call_ALL_numbers(2) [of "unat n - 2"] by auto
    then show ?thesis
      using word by metis
  qed simp
qed

section \<open>The properties\<close>

text \<open>
  C16. The bytes of a message survive the registers: up to 64 bytes are packed into eight words
  from which \<open>inline_bytes\<close> gives them back with zeros after them, and more bytes stop the
  sender.
\<close>

theorem inline_bytes_survive:
  "case inline_words bs of
     None \<Rightarrow> length bs > INLINE_MAX
   | Some ws \<Rightarrow> length bs \<le> INLINE_MAX \<and> length ws = 8
       \<and> inline_bytes ws = bs @ replicate (INLINE_MAX - length bs) 0"
proof (cases "length bs \<le> 64")
  case True
  define n where "n = length bs div 8"
  have n: "8 * n \<le> length bs" "length bs < 8 * n + 8" "n \<le> 8"
    using True by (auto simp: n_def)
  have whole: "concat (map (\<lambda>k. to_le_bytes (from_le_bytes (take 8 (drop (8 * k) bs)))) [0..<n]) = take (8 * n) bs"
  proof -
    have "to_le_bytes (from_le_bytes (take 8 (drop (8 * k) bs))) = take 8 (drop (8 * k) bs)" if "k < n" for k
      using that n(1) by (simp add: to_le_from_le_bytes padded_def)
    then have "map (\<lambda>k. to_le_bytes (from_le_bytes (take 8 (drop (8 * k) bs)))) [0..<n]
        = map (\<lambda>k. take 8 (drop (8 * k) bs)) [0..<n]"
      by simp
    then show ?thesis
      using concat_parts [OF n(1)] by (simp only:)
  qed
  show ?thesis
  proof (cases "n < 8")
    case True
    have "to_le_bytes (or_bytes (drop (8 * n) bs) 0) = padded 8 (drop (8 * n) bs)"
      using n by (intro to_le_or_bytes) simp
    moreover have "concat (replicate k (replicate 8 (0 :: u8))) = replicate (k * 8) 0" for k
      by (induction k) (simp_all add: replicate_add)
    moreover have "64 - length bs = (8 + 8 * n - length bs) + (7 - n) * 8"
      using n True by linarith
    then have "replicate (64 - length bs) (0 :: u8) = replicate (8 + 8 * n - length bs) 0 @ replicate ((7 - n) * 8) 0"
      by (simp only: replicate_add)
    ultimately show ?thesis
      using True inline_words_split [OF \<open>length bs \<le> 64\<close> n_def] whole n
      by (simp add: inline_bytes_def comp_def padded_def to_le_bytes_0 INLINE_MAX_def map_replicate_const
          flip: append_assoc)
  next
    case False
    then have "n = 8"
      using n(3) by simp
    then show ?thesis
      using inline_words_split [OF \<open>length bs \<le> 64\<close> n_def] whole n True
      by (simp add: inline_bytes_def comp_def INLINE_MAX_def)
  qed
qed (simp add: inline_words_def INLINE_MAX_def)

text \<open>
  C17. What \<open>receive\<close> returns is read back as it was: a message and a notification keep
  every field, and a receiver that looks at the source in x1 never takes one for the other. The
  kind and the rights of a handle that comes with a message survive its info word.
\<close>

theorem receive_words_tell_apart:
  assumes "message_carried m" and "source_carried (nf_source n)" and "kind_carried k"
  shows "message_from_words (message_to_words m) = m
    \<and> nf_source (notification_from_words (message_to_words m)) = SourceMessage
    \<and> notification_from_words (notification_to_words n) = n
    \<and> parse_info (info k r) = (k, r)"
proof -
  have "nf_source (notification_from_words (message_to_words m)) = SourceMessage"
    using description_parts(3) [OF assms(1)]
    by (simp add: notification_from_words_def message_to_words_def SOURCE_SHIFT_def source_from_code_def)
  then show ?thesis
    using msg.decode_encode [OF assms(1)] notif.decode_encode [OF assms(2)] infos.decode_encode [of "(k, r)"] assms(3)
    by simp
qed

theorem receive_words_tell_apart_witness:
  "let m = \<lparr>msg_len = 1024, msg_handles = 4, msg_words = [1, 2, 3, 4, 5, 6, 7, 8], msg_label = 9, msg_token = - 1\<rparr>;
       n = \<lparr>nf_source = SourceTimer, nf_label = 5, nf_bits = - 1, nf_count = - 1\<rparr>;
       k = KindUnknown 9; r = rights_ALL
   in message_carried m \<and> source_carried (nf_source n) \<and> kind_carried k
    \<and> message_from_words (message_to_words m) = m
    \<and> nf_source (notification_from_words (message_to_words m)) = SourceMessage
    \<and> notification_from_words (notification_to_words n) = n
    \<and> parse_info (info k r) = (k, r)"
proof -
  let ?m = "\<lparr>msg_len = 1024, msg_handles = 4, msg_words = [1, 2, 3, 4, 5, 6, 7, 8], msg_label = 9, msg_token = - 1\<rparr>"
  let ?n = "\<lparr>nf_source = SourceTimer, nf_label = 5, nf_bits = - 1, nf_count = - 1\<rparr>"
  have "message_carried ?m" "source_carried (nf_source ?n)" "kind_carried (KindUnknown 9)"
    by (simp_all add: message_carried_def MESSAGE_MAX_def MESSAGE_HANDLES_def)
  then show ?thesis
    using receive_words_tell_apart [of ?m ?n "KindUnknown 9" rights_ALL] by (simp only: Let_def)
qed

text \<open>
  C18. The numbers of the calls and the calls correspond: every call is found under its number,
  no other number finds it, a retired number finds none, and no number stops the kernel.
\<close>

theorem call_numbers_exact:
  "(call_from_number n = Some (Some c) \<longleftrightarrow> call_number c = n)
   \<and> call_from_number n \<noteq> None \<and> (n \<in> set RETIRED_CALLS \<longrightarrow> call_from_number n = Some None)"
proof -
  have "call_from_number n \<noteq> None"
    by (auto simp: call_from_number_def at_index_def call_ALL_def word_le_nat_alt)
  then show ?thesis
    using call_from_number_number [of c] call_number_from_number [of n c]
    by (auto simp: RETIRED_CALLS_def call_from_number_def)
qed

theorem call_numbers_exact_witness:
  "29 \<in> set RETIRED_CALLS \<and> call_from_number 29 = Some None"
  using call_numbers_exact [of 29] by (simp add: RETIRED_CALLS_def)

text \<open>
  C19. Every record that \<open>object_info\<close> returns as words, the state of a process among them, is read back
  from its words as it was, so that two different ones never have the same words. The state of a thread and
  the state of a process may each be one that is unknown to this interface; what it carries is then a code
  that no known state has, as the decoder makes it.
\<close>

theorem object_info_words_exact:
  assumes "thread_state_carried (ti_state (t :: thread_info))" and "thread_state_carried (ti_state t')"
    and "process_state_carried p" and "process_state_carried p'"
  shows "thread_info_from_words (thread_info_to_words t) = t
    \<and> process_state_from_words (process_state_to_words p) = p
    \<and> log_batch_from_words (log_batch_to_words a) = a
    \<and> process_memory_from_words (process_memory_to_words b) = b
    \<and> process_shares_from_words (process_shares_to_words c) = c
    \<and> memory_info_from_words (memory_info_to_words d) = d
    \<and> irq_info_from_words (irq_info_to_words e) = e
    \<and> channel_info_from_words (channel_info_to_words f) = f
    \<and> process_handles_from_words (process_handles_to_words g) = g
    \<and> kernel_stats_from_words (kernel_stats_to_words h) = h
    \<and> (thread_info_to_words t = thread_info_to_words t' \<longleftrightarrow> t = t')
    \<and> (process_state_to_words p = process_state_to_words p' \<longleftrightarrow> p = p')
    \<and> (\<forall>ws. thread_state_carried (ti_state (thread_info_from_words ws)))
    \<and> (\<forall>ws. length ws = 4 \<longrightarrow> process_state_carried (process_state_from_words ws))"
  using tinfo.decode_encode [OF assms(1)] tinfo.encode_inj [OF assms(1,2)] pstate.decode_encode [OF assms(3)]
    pstate.encode_inj [OF assms(3,4)] logs.decode_encode memory.decode_encode shares.decode_encode
    meminfo.decode_encode irq.decode_encode chan.decode_encode handles.decode_encode stats.decode_encode
    thread_state_decoded process_state_decoded
  by simp

theorem object_info_words_exact_witness:
  "let t = \<lparr>ti_state = TS_AwaitingReply, ti_base = 5, ti_priority = 63, ti_policy = Some Fifo\<rparr>;
       t' = \<lparr>ti_state = TS_Unknown 8, ti_base = 0, ti_priority = 255, ti_policy = None\<rparr>;
       p = Fault 1 2 3; p' = UnknownState [4, 1, 2, 3];
       e = \<lparr>ii_line = 40, ii_masked = True, ii_edge = False\<rparr>
   in thread_state_carried (ti_state t) \<and> thread_state_carried (ti_state t')
    \<and> process_state_carried p \<and> process_state_carried p'
    \<and> thread_info_from_words (thread_info_to_words t) = t
    \<and> process_state_from_words (process_state_to_words p) = p
    \<and> irq_info_from_words (irq_info_to_words e) = e
    \<and> thread_info_to_words t \<noteq> thread_info_to_words t' \<and> process_state_to_words p \<noteq> process_state_to_words p'"
proof -
  let ?t = "\<lparr>ti_state = TS_AwaitingReply, ti_base = 5, ti_priority = 63, ti_policy = Some Fifo\<rparr>"
  let ?t' = "\<lparr>ti_state = TS_Unknown 8, ti_base = 0, ti_priority = 255, ti_policy = None\<rparr>"
  have carried: "thread_state_carried (ti_state ?t)" "thread_state_carried (ti_state ?t')"
    "process_state_carried (Fault 1 2 3)" "process_state_carried (UnknownState [4, 1, 2, 3])" and "?t \<noteq> ?t'"
    by simp_all
  then show ?thesis
    using object_info_words_exact [OF carried, where e = "\<lparr>ii_line = 40, ii_masked = True, ii_edge = False\<rparr>"]
    by (simp only: Let_def) simp
qed

end
