(* ===== verification/Time_Scale.thy ===== *)
theory Time_Scale
  imports Prelude
begin

text \<open>
  The time scale of the system, \<open>lib/abi/src/time.rs\<close> and \<open>kcore/src/time.rs\<close>:
  counter ticks to nanoseconds and back by a multiplication and a shift, the deadlines of
  periodic work, and the length of a stretch of work.

  The long division that finds the multiplier is a loop that does not end for a fraction of
  zero, so it is a partial function; the scale never asks for that fraction.
\<close>

definition NANOS_PER_SEC :: u64 where "NANOS_PER_SEC = 1000000000"

lemma unat_inc: "w < (- 1 :: 'a::len word) \<Longrightarrow> unat (w + 1) = unat w + 1"
proof -
  assume "w < - 1"
  then have "unat w < 2 ^ LENGTH('a) - 1"
    by (simp add: word_less_nat_alt unat_max_word)
  then show ?thesis
    using unat_add_no_wrap [of w 1] by simp
qed

section \<open>Fractions\<close>

record fraction =
  mul :: u64
  shift :: nat

partial_function (option) fraction_loop :: "u64 \<Rightarrow> u64 \<Rightarrow> u64 \<Rightarrow> nat \<Rightarrow> fraction option" where
  "fraction_loop den m rest sh =
     (if m < push_bit 63 1 then
        (let b = (rest \<ge> den - rest);
             rest' = (if b then rest - (den - rest) else 2 * rest)
         in fraction_loop den (2 * m + of_bool b) rest' (sh + 1))
      else Some \<lparr>mul = m, shift = sh\<rparr>)"

declare fraction_loop.simps [code]

text \<open>A division by zero stops the program.\<close>

definition fraction_of :: "u64 \<Rightarrow> u64 \<Rightarrow> fraction option" where
  "fraction_of num den =
     (if den = 0 then None else fraction_loop den (num div den) (num mod den) 0)"

definition fraction_apply :: "fraction \<Rightarrow> u64 \<Rightarrow> u64" where
  "fraction_apply f v =
     (let product = drop_bit (shift f) (ucast v * ucast (mul f) :: u128)
      in if product > ucast (- 1 :: u64) then - 1 else ucast product)"

section \<open>The scale\<close>

record scale =
  scale_hz :: u64
  to_ns :: fraction
  to_ticks :: fraction

definition scale_new :: "u64 \<Rightarrow> scale option option" where
  "scale_new hz =
     (if hz = 0 then Some None
      else do {
        ns \<leftarrow> fraction_of NANOS_PER_SEC hz;
        ticks \<leftarrow> fraction_of hz NANOS_PER_SEC;
        Some (Some \<lparr>scale_hz = hz, to_ns = ns, to_ticks = ticks\<rparr>) })"

definition ticks_to_ns :: "scale \<Rightarrow> u64 \<Rightarrow> u64" where
  "ticks_to_ns s ticks = fraction_apply (to_ns s) ticks"

definition estimate :: "scale \<Rightarrow> u64 \<Rightarrow> u64" where
  "estimate s ns = fraction_apply (to_ticks s) ns"

function ticks_up :: "scale \<Rightarrow> u64 \<Rightarrow> u64 \<Rightarrow> u64" where
  "ticks_up s ns ticks =
     (if ticks < - 1 \<and> ticks_to_ns s ticks < ns then ticks_up s ns (ticks + 1) else ticks)"
  by pat_completeness auto

termination
proof (relation "measure (\<lambda>(s, ns, ticks). 2 ^ 64 - unat ticks)")
  fix s :: scale and ns ticks :: u64
  assume "ticks < - 1 \<and> ticks_to_ns s ticks < ns"
  then have "unat (ticks + 1) = unat ticks + 1"
    using unat_inc by blast
  then show "((s, ns, ticks + 1), (s, ns, ticks)) \<in> measure (\<lambda>(s, ns, ticks). 2 ^ 64 - unat ticks)"
    using unat_below [of "ticks + 1"] by simp
qed simp

declare ticks_up.simps [simp del]

definition ns_to_ticks :: "scale \<Rightarrow> u64 \<Rightarrow> u64" where
  "ns_to_ticks s ns = ticks_up s ns (estimate s ns)"

definition next_release :: "u64 \<Rightarrow> u64 \<Rightarrow> u64 \<Rightarrow> u64" where
  "next_release t0 period now =
     (if now < t0 then t0
      else if period = 0 then - 1
      else
        let k = (now - t0) div period + 1 in
        case (do { d \<leftarrow> checked_mul k period; checked_add t0 d }) of Some x \<Rightarrow> x | None \<Rightarrow> - 1)"

section \<open>The clock of the kernel\<close>

type_synonym clock = scale

definition clock_new :: "u64 \<Rightarrow> clock option option" where
  "clock_new hz = scale_new hz"

definition deadline_after :: "clock \<Rightarrow> u64 \<Rightarrow> u64 \<Rightarrow> u64" where
  "deadline_after c now ns = saturating_add now (ns_to_ticks c ns)"

definition ns_until :: "clock \<Rightarrow> u64 \<Rightarrow> u64 \<Rightarrow> u64" where
  "ns_until c now cval = ticks_to_ns c (saturating_sub cval now)"

definition stretch :: "u64 \<Rightarrow> u64 \<Rightarrow> u64" where
  "stretch start now = max (saturating_sub now start) 1"

section \<open>The multiplier\<close>

lemma pow_63: "unat (push_bit 63 1 :: u64) = 2 ^ 63"
  by (simp add: push_bit_eq_mult)

text \<open>The quotient and the remainder of one more bit.\<close>

lemma long_division_step:
  fixes num den :: nat
  assumes "den > 0" and "q = num * 2 ^ k div den" and "r = num * 2 ^ k mod den"
  shows "num * 2 ^ Suc k div den = 2 * q + of_bool (den - r \<le> r)"
    and "num * 2 ^ Suc k mod den = (if den - r \<le> r then r - (den - r) else 2 * r)"
proof -
  have "num * 2 ^ k = q * den + r" "r < den"
    using assms by (auto simp: div_mult_mod_eq)
  then have "num * 2 ^ Suc k = 2 * q * den + 2 * r"
    by simp
  then obtain r' where r': "r' = (if den - r \<le> r then r - (den - r) else 2 * r)" "r' < den"
    and split: "num * 2 ^ Suc k = (2 * q + of_bool (den - r \<le> r)) * den + r'"
    using \<open>r < den\<close> by (cases "den - r \<le> r") (auto simp: algebra_simps)
  show "num * 2 ^ Suc k div den = 2 * q + of_bool (den - r \<le> r)"
    unfolding split using r'(2) assms(1) by simp
  show "num * 2 ^ Suc k mod den = (if den - r \<le> r then r - (den - r) else 2 * r)"
    unfolding split r'(1) [symmetric] using r'(2) by simp
qed

text \<open>
  The loop keeps the quotient and the remainder of \<open>num * 2 ^ k\<close>, and ends at the first shift
  that sets the top bit of the quotient.
\<close>

definition top_shift :: "nat \<Rightarrow> nat \<Rightarrow> nat" where
  "top_shift num den = (LEAST k. 2 ^ 63 \<le> num * 2 ^ k div den)"

lemma top_shift:
  assumes "num > 0" and "den > 0" and "den < 2 ^ 64"
  shows "2 ^ 63 \<le> num * 2 ^ top_shift num den div den" and "top_shift num den \<le> 127"
    and "k < top_shift num den \<Longrightarrow> num * 2 ^ k div den < 2 ^ 63"
proof -
  have "(2 :: nat) ^ 63 * den \<le> 1 * 2 ^ 127"
    using assms(3) by simp
  also have "\<dots> \<le> num * 2 ^ 127"
    using assms(1) by (intro mult_right_mono) simp_all
  finally have top: "2 ^ 63 \<le> num * 2 ^ 127 div den"
    using assms(2) by (simp only: less_eq_div_iff_mult_less_eq)
  show "2 ^ 63 \<le> num * 2 ^ top_shift num den div den"
    unfolding top_shift_def using top by (rule LeastI)
  show "top_shift num den \<le> 127"
    unfolding top_shift_def using top by (rule Least_le)
  show "num * 2 ^ k div den < 2 ^ 63" if "k < top_shift num den"
    using that not_less_Least [of k] unfolding top_shift_def by force
qed

lemma fraction_loop_runs:
  assumes "num > 0" and "den > 0" and "k \<le> top_shift num (unat den)"
    and "unat m = num * 2 ^ k div unat den" and "unat rest = num * 2 ^ k mod unat den"
  shows "\<exists>m'. fraction_loop den m rest k = Some \<lparr>mul = m', shift = top_shift num (unat den)\<rparr>
    \<and> unat m' = num * 2 ^ top_shift num (unat den) div unat den"
  using assms(3-)
proof (induction "top_shift num (unat den) - k" arbitrary: k m rest)
  case 0
  have den: "unat den > 0" "unat den < 2 ^ 64"
    using assms(2) unat_below [of den] by (simp_all add: word_less_nat_alt)
  have "k = top_shift num (unat den)"
    using 0 by simp
  then have "\<not> m < push_bit 63 1"
    using top_shift(1) [OF assms(1) den] 0(3) by (simp add: word_less_nat_alt pow_63)
  then show ?case
    using 0 \<open>k = _\<close> by (simp add: fraction_loop.simps [of den m])
next
  case (Suc n)
  have den: "unat den > 0" "unat den < 2 ^ 64"
    using assms(2) unat_below [of den] by (simp_all add: word_less_nat_alt)
  have small: "unat m < 2 ^ 63"
    using top_shift(3) [OF assms(1) den, of k] Suc(2,4) by simp
  have rest: "unat rest < unat den"
    using Suc(5) den(1) by simp
  note step = long_division_step [OF den(1) Suc(4,5)]
  have sub: "unat (den - rest) = unat den - unat rest"
    using rest by (intro unat_sub_no_wrap) (simp add: word_le_nat_alt)
  define b where "b = (den - rest \<le> rest)"
  have b: "b \<longleftrightarrow> unat den - unat rest \<le> unat rest"
    by (simp add: b_def word_le_nat_alt sub)
  define rest' where "rest' = (if b then rest - (den - rest) else 2 * rest)"
  have "unat rest' = num * 2 ^ Suc k mod unat den"
  proof (cases b)
    case True
    have "unat (rest - (den - rest)) = unat rest - unat (den - rest)"
      using True unfolding b_def by (rule unat_sub_no_wrap)
    then show ?thesis
      unfolding step(2) rest'_def using True b sub by (simp only: if_True)
  next
    case False
    then have "2 * unat rest < 2 ^ 64"
      using b den(2) rest by linarith
    then have "unat (2 * rest) = 2 * unat rest"
      by (simp add: unat_word_ariths)
    then show ?thesis
      using False step(2) b by (simp add: rest'_def)
  qed
  moreover have "unat (2 * m + of_bool b) = num * 2 ^ Suc k div unat den"
  proof -
    have "unat (2 * m + of_bool b) = 2 * unat m + of_bool b"
      using small by (cases b) (simp_all add: unat_word_ariths)
    then show ?thesis
      using step(1) b by simp
  qed
  moreover have "n = top_shift num (unat den) - Suc k" "Suc k \<le> top_shift num (unat den)"
    using Suc(2) by simp_all
  ultimately obtain m' where "fraction_loop den (2 * m + of_bool b) rest' (Suc k)
      = Some \<lparr>mul = m', shift = top_shift num (unat den)\<rparr>"
    "unat m' = num * 2 ^ top_shift num (unat den) div unat den"
    using Suc(1) [of "Suc k" "2 * m + of_bool b" rest'] by blast
  moreover have "m < push_bit 63 1"
    using small by (simp add: word_less_nat_alt pow_63)
  ultimately show ?case
    by (simp add: fraction_loop.simps [of den m] b_def [symmetric] rest'_def [symmetric] Let_def)
qed


lemma fraction_of_exact:
  assumes "num > 0" and "den > 0"
  obtains f where "fraction_of num den = Some f" and "shift f \<le> 127"
    and "unat (mul f) = unat num * 2 ^ shift f div unat den" and "2 ^ 63 \<le> unat (mul f)"
proof -
  have den: "unat den > 0" "unat den < 2 ^ 64" "unat num > 0"
    using assms unat_below [of den] by (simp_all add: word_less_nat_alt)
  obtain m where "fraction_loop den (num div den) (num mod den) 0
      = Some \<lparr>mul = m, shift = top_shift (unat num) (unat den)\<rparr>"
    "unat m = unat num * 2 ^ top_shift (unat num) (unat den) div unat den"
    using fraction_loop_runs [OF den(3) assms(2), of 0 "num div den" "num mod den"]
    by (auto simp: unat_div unat_mod)
  then show ?thesis
    using that [of "\<lparr>mul = m, shift = top_shift (unat num) (unat den)\<rparr>"] assms(2)
      top_shift(1,2) [OF den(3,1,2)] by (simp add: fraction_of_def)
qed

lemma fraction_apply_exact:
  assumes "shift f \<le> 127"
  shows "unat (fraction_apply f v) = min (unat v * unat (mul f) div 2 ^ shift f) (2 ^ 64 - 1)"
proof -
  let ?p = "drop_bit (shift f) (ucast v * ucast (mul f) :: u128)"
  have up: "unat (ucast w :: u128) = unat w" for w :: u64
    by (simp add: unsigned_ucast_eq take_bit_nat_eq_self unat_below less_trans [OF unat_below [of w]])
  have "unat v * unat (mul f) < 2 ^ 64 * 2 ^ 64"
    using unat_below [of v] unat_below [of "mul f"] by (intro mult_strict_mono) simp_all
  then have "unat (ucast v * ucast (mul f) :: u128) = unat v * unat (mul f)"
    by (simp add: unat_word_ariths up)
  then have p: "unat ?p = unat v * unat (mul f) div 2 ^ shift f"
    unfolding unat_drop_bit_eq by (simp add: drop_bit_eq_div)
  have big: "?p > ucast (- 1 :: u64) \<longleftrightarrow> unat ?p > 2 ^ 64 - 1"
    by (simp add: word_less_nat_alt up unat_max_word)
  show ?thesis
  proof (cases "unat ?p > 2 ^ 64 - 1")
    case True
    then show ?thesis
      using big p by (simp add: fraction_apply_def Let_def unat_max_word)
  next
    case False
    then have "unat (ucast ?p :: u64) = unat ?p"
      by (simp add: unsigned_ucast_eq take_bit_nat_eq_self)
    then show ?thesis
      using False big p by (simp add: fraction_apply_def Let_def)
  qed
qed


section \<open>Arithmetic of the scale\<close>

text \<open>\<open>t * M div 2 ^ S\<close> for a multiplier rounded down: never above the quotient, one below at most.\<close>

lemma scaled_le:
  fixes t num den M S :: nat
  assumes "den > 0" and "M = num * 2 ^ S div den"
  shows "t * M div 2 ^ S \<le> t * num div den"
proof -
  have "(t * M div 2 ^ S) * den * 2 ^ S \<le> t * M * den"
    using div_times_less_eq_dividend [of "t * M" "2 ^ S"] by (simp add: algebra_simps)
  also have "\<dots> \<le> t * (num * 2 ^ S)"
    using assms(2) by (simp add: algebra_simps)
  finally have "(t * M div 2 ^ S) * den * 2 ^ S \<le> (t * num) * 2 ^ S"
    by (simp add: algebra_simps)
  then have "(t * M div 2 ^ S) * den \<le> t * num"
    by simp
  then show ?thesis
    using assms(1) by (simp add: less_eq_div_iff_mult_less_eq)
qed

lemma rounded_down:
  fixes num den M S :: nat
  assumes "den > 0" and "M = num * 2 ^ S div den"
  shows "num * 2 ^ S < (M + 1) * den" and "M * den \<le> num * 2 ^ S"
  using assms(2) dividend_less_div_times [OF assms(1), of "num * 2 ^ S"]
  by (simp_all add: algebra_simps)

lemma small_tick:
  fixes t num den M S :: nat
  assumes "den > 0" and "num > 0" and "M = num * 2 ^ S div den" and "2 ^ 63 \<le> M" and "t * num \<le> 2 ^ 63 * den"
  shows "t \<le> 2 ^ S"
proof -
  have "t * num \<le> M * den"
    using assms(4,5) by (meson le_trans mult_le_mono1)
  also have "\<dots> \<le> 2 ^ S * num"
    using rounded_down(2) [OF assms(1,3)] by (simp add: mult.commute)
  finally show ?thesis
    using assms(2) by simp
qed

lemma scaled_ge:
  fixes t num den M S :: nat
  assumes "den > 0" and "M = num * 2 ^ S div den" and "t \<le> 2 ^ S"
  shows "t * num div den \<le> t * M div 2 ^ S + 1"
proof (cases "t = 0")
  case False
  let ?x = "t * num div den"
  have "?x * den * 2 ^ S \<le> t * (num * 2 ^ S)"
    using div_times_less_eq_dividend [of "t * num" den] by (simp add: algebra_simps)
  also have "\<dots> < t * ((M + 1) * den)"
    using rounded_down(1) [OF assms(1,2)] False by simp
  also have "\<dots> \<le> (t * M + 2 ^ S) * den"
    using assms(3) by (simp add: algebra_simps)
  finally have "?x * 2 ^ S * den < (t * M + 2 ^ S) * den"
    by (simp add: algebra_simps)
  then have "?x * 2 ^ S < t * M + 2 ^ S"
    by simp
  then have "(?x - 1) * 2 ^ S \<le> t * M"
    by (simp add: algebra_simps)
  then have "?x - 1 \<le> t * M div 2 ^ S"
    by (simp add: less_eq_div_iff_mult_less_eq)
  then show ?thesis
    by linarith
qed simp

text \<open>
  How far the estimate of a deadline \<open>d\<close> lies under the tick after \<open>u\<close>, a tick that is still
  before the deadline.
\<close>

lemma estimate_close:
  fixes u d N h M S M' S' c :: nat
  assumes pos: "h > 0" "N > 0" "d > 0" "h \<le> N" and M: "M = N * 2 ^ S div h" "2 ^ 63 \<le> M"
    and M': "M' = h * 2 ^ S' div N" "2 ^ 63 \<le> M'" and d: "c * d \<le> 2 ^ 63" and u: "u * M div 2 ^ S < d"
  shows "c * u < c * (d * M' div 2 ^ S') + c + 2"
proof -
  let ?e = "d * M' div 2 ^ S'"
  have before: "u * M < d * 2 ^ S"
    using u by (simp add: div_less_iff_less_mult)
  have "(c * u) * d \<le> u * M"
    using d M(2) by (metis le_trans mult.assoc mult.commute mult_le_mono2)
  then have cu: "c * u \<le> 2 ^ S"
    using before pos(3) by (metis le_less_trans less_imp_le mult.commute mult_less_cancel1)
  have upper: "c * u * N \<le> c * d * h + N"
  proof -
    have "c * u * N * 2 ^ S \<le> c * u * ((M + 1) * h)"
      using rounded_down(1) [OF pos(1) M(1)] by (simp add: mult.assoc)
    also have "\<dots> = (c * (u * M) + c * u) * h"
      by (simp add: algebra_simps)
    also have "\<dots> \<le> (c * (d * 2 ^ S) + 2 ^ S) * h"
      using before cu by (intro mult_right_mono add_mono mult_left_mono) simp_all
    also have "\<dots> \<le> (c * d * h + N) * 2 ^ S"
      using pos(4) by (simp add: algebra_simps)
    finally show ?thesis
      by simp
  qed
  have "M' * N \<le> 2 ^ S' * N"
    using rounded_down(2) [OF pos(2) M'(1)] pos(4) by (metis le_trans mult.commute mult_le_mono1)
  then have "c * d \<le> 2 ^ S'"
    using d M'(2) pos(2) by simp
  then have lower: "c * d * h < (c * (?e + 1) + 1) * N" if "c > 0"
  proof -
    have "c * d * h * 2 ^ S' < c * d * ((M' + 1) * N)"
      using rounded_down(1) [OF pos(2) M'(1)] that pos(3) by (simp add: mult.assoc)
    also have "\<dots> = (c * (d * M') + c * d) * N"
      by (simp add: algebra_simps)
    also have "\<dots> \<le> (c * ((?e + 1) * 2 ^ S') + 2 ^ S') * N"
      using \<open>c * d \<le> 2 ^ S'\<close> dividend_less_div_times [of "2 ^ S'" "d * M'"]
      by (intro mult_right_mono add_mono mult_left_mono) (simp_all add: algebra_simps)
    also have "\<dots> = (c * (?e + 1) + 1) * N * 2 ^ S'"
      by (simp add: algebra_simps)
    finally show ?thesis
      by simp
  qed
  show ?thesis
  proof (cases "c = 0")
    case False
    then have "c * u * N < (c * (?e + 1) + 2) * N"
      using upper lower by (simp add: algebra_simps)
    then have "c * u < c * (?e + 1) + 2"
      by (simp only: mult_less_cancel2)
    then show ?thesis
      by simp
  qed simp
qed


section \<open>The scale of a counter\<close>

text \<open>What \<open>Scale::new\<close> makes of a frequency.\<close>

definition exact_fraction :: "fraction \<Rightarrow> nat \<Rightarrow> nat \<Rightarrow> bool" where
  "exact_fraction f num den \<longleftrightarrow>
     shift f \<le> 127 \<and> unat (mul f) = num * 2 ^ shift f div den \<and> 2 ^ 63 \<le> unat (mul f)"

lemma nanos: "unat NANOS_PER_SEC = 1000000000" "NANOS_PER_SEC > 0"
  by (simp_all add: NANOS_PER_SEC_def)

lemma scale_new_exact:
  assumes "hz > 0"
  obtains s where "scale_new hz = Some (Some s)" and "scale_hz s = hz"
    and "exact_fraction (to_ns s) (unat NANOS_PER_SEC) (unat hz)"
    and "exact_fraction (to_ticks s) (unat hz) (unat NANOS_PER_SEC)"
proof -
  obtain ns where ns: "fraction_of NANOS_PER_SEC hz = Some ns" "exact_fraction ns (unat NANOS_PER_SEC) (unat hz)"
    using fraction_of_exact [OF nanos(2) assms] unfolding exact_fraction_def by metis
  obtain ticks where "fraction_of hz NANOS_PER_SEC = Some ticks" "exact_fraction ticks (unat hz) (unat NANOS_PER_SEC)"
    using fraction_of_exact [OF assms nanos(2)] unfolding exact_fraction_def by metis
  then show ?thesis
    using that [of "\<lparr>scale_hz = hz, to_ns = ns, to_ticks = ticks\<rparr>"] ns assms by (simp add: scale_new_def)
qed

lemma scale_of:
  assumes "scale_new hz = Some (Some s)"
  shows "unat hz > 0" and "exact_fraction (to_ns s) (unat NANOS_PER_SEC) (unat hz)"
    and "exact_fraction (to_ticks s) (unat hz) (unat NANOS_PER_SEC)"
proof -
  have "hz > 0"
    using assms by (auto simp: scale_new_def word_neq_0_conv split: if_splits)
  then show "unat hz > 0" "exact_fraction (to_ns s) (unat NANOS_PER_SEC) (unat hz)"
      "exact_fraction (to_ticks s) (unat hz) (unat NANOS_PER_SEC)"
    using assms scale_new_exact [of hz] by (auto simp: word_less_nat_alt)
qed

lemma apply_exact:
  "exact_fraction f num den \<Longrightarrow>
     unat (fraction_apply f v) = min (unat v * unat (mul f) div 2 ^ shift f) (2 ^ 64 - 1)"
  by (simp add: fraction_apply_exact exact_fraction_def)

lemma apply_le:
  "exact_fraction f num den \<Longrightarrow> den > 0 \<Longrightarrow> unat (fraction_apply f v) \<le> unat v * num div den"
  using scaled_le [of den "unat (mul f)" num "shift f" "unat v"]
  by (auto simp: apply_exact exact_fraction_def intro: order_trans [OF min.cobounded1])

text \<open>The estimate is never past the least tick at which the scale reaches the deadline.\<close>

lemma estimate_le:
  assumes s: "scale_new hz = Some (Some s)" and t: "ns \<le> ticks_to_ns s t"
  shows "estimate s ns \<le> t"
proof -
  note pos = scale_of(1) [OF s] nanos(1)
  have "unat ns \<le> unat t * unat NANOS_PER_SEC div unat hz"
    using t apply_le [OF scale_of(2) [OF s] pos(1), of t] by (simp add: ticks_to_ns_def word_le_nat_alt)
  then have "unat ns * unat hz \<le> unat t * unat NANOS_PER_SEC"
    using pos(1) by (simp only: less_eq_div_iff_mult_less_eq)
  then have "unat ns * unat hz div unat NANOS_PER_SEC \<le> unat t"
    using div_le_mono [of _ _ "unat NANOS_PER_SEC"] by (force simp: pos(2))
  then show ?thesis
    using apply_le [OF scale_of(3) [OF s], of ns] pos(2) by (simp add: estimate_def word_le_nat_alt)
qed

text \<open>The loop stops at the first tick from its start that reaches the deadline.\<close>

lemma ticks_up_first:
  "k \<le> ticks_up s ns k
   \<and> (\<forall>t. k \<le> t \<and> t < ticks_up s ns k \<longrightarrow> ticks_to_ns s t < ns)
   \<and> (ticks_up s ns k = - 1 \<or> ns \<le> ticks_to_ns s (ticks_up s ns k))"
proof (induction s ns k rule: ticks_up.induct)
  case (1 s ns k)
  show ?case
  proof (cases "k < - 1 \<and> ticks_to_ns s k < ns")
    case True
    then have next_k: "unat (k + 1) = unat k + 1"
      using unat_inc by blast
    have up: "ticks_up s ns k = ticks_up s ns (k + 1)"
      using True by (simp add: ticks_up.simps [of s ns k])
    have IH: "k + 1 \<le> ticks_up s ns (k + 1)"
        "\<And>t. k + 1 \<le> t \<Longrightarrow> t < ticks_up s ns (k + 1) \<Longrightarrow> ticks_to_ns s t < ns"
        "ticks_up s ns (k + 1) = - 1 \<or> ns \<le> ticks_to_ns s (ticks_up s ns (k + 1))"
      using 1(1) [OF True] by blast+
    have "k \<le> k + 1"
      using next_k by (simp add: word_le_nat_alt)
    then have "k \<le> ticks_up s ns (k + 1)"
      using IH(1) by (rule order_trans)
    moreover have "ticks_to_ns s t < ns" if t: "k \<le> t" "t < ticks_up s ns (k + 1)" for t
    proof (cases "t = k")
      case False
      then have "k + 1 \<le> t"
        using t(1) next_k by (simp add: word_le_nat_alt word_unat_eq_iff)
      then show ?thesis
        using IH(2) t(2) by blast
    qed (use True in simp)
    ultimately show ?thesis
      using IH(3) unfolding up by blast
  next
    case False
    then have "ticks_up s ns k = k"
      by (subst ticks_up.simps) (rule if_not_P)
    moreover have "k = - 1 \<or> k < - 1"
      by (simp add: less_le)
    ultimately show ?thesis
      using False by (auto simp: not_less)
  qed
qed


text \<open>The steps of the loop.\<close>

lemma steps_bound:
  assumes s: "scale_new hz = Some (Some s)" and before: "\<And>t. t < r \<Longrightarrow> ticks_to_ns s t < ns"
    and hz: "unat hz \<le> 1000000000" and ns: "m * unat ns \<le> 2 ^ 63"
    and c: "c = 2 \<and> m = 2 \<or> c = 3 \<and> m = 1" and le: "estimate s ns \<le> r"
  shows "unat r \<le> unat (estimate s ns) + c"
proof (cases "r = 0")
  case False
  let ?M = "unat (mul (to_ns s))" and ?S = "shift (to_ns s)" and ?M' = "unat (mul (to_ticks s))" and ?S' = "shift (to_ticks s)"
  note f = scale_of(2,3) [OF s] and pos = scale_of(1) [OF s]
  have r1: "unat (r - 1) = unat r - 1" "r - 1 < r"
    using False by (simp_all add: unat_sub_no_wrap word_le_nat_alt word_less_nat_alt unat_gt_0 Suc_leI)
  have "unat ns < 2 ^ 64 - 1"
    using ns c by auto
  moreover have "ticks_to_ns s (r - 1) < ns"
    using before r1(2) by blast
  ultimately have u: "(unat r - 1) * ?M div 2 ^ ?S < unat ns"
    using apply_exact [OF f(1), of "r - 1"] r1(1) by (simp add: ticks_to_ns_def word_less_nat_alt)
  have "m * (unat r - 1) < m * (unat ns * ?M' div 2 ^ ?S') + m + 2"
    using f by (intro estimate_close [OF pos, of 1000000000 "unat ns" ?M ?S ?M' ?S' m "unat r - 1"])
      (use hz ns u in \<open>auto simp: exact_fraction_def nanos\<close>)
  moreover have "unat (estimate s ns) = unat ns * ?M' div 2 ^ ?S'"
  proof -
    have "unat ns * ?M' div 2 ^ ?S' \<le> unat ns * unat hz div 1000000000"
      using scaled_le [of "1000000000" ?M' "unat hz" ?S' "unat ns"] f(2) by (simp add: exact_fraction_def nanos)
    also have "\<dots> \<le> unat ns"
      using hz by (metis div_le_mono mult_le_mono2 nonzero_mult_div_cancel_right zero_neq_numeral)
    finally show ?thesis
      using apply_exact [OF f(2), of ns] \<open>unat ns < 2 ^ 64 - 1\<close> by (simp add: estimate_def)
  qed
  ultimately show ?thesis
    using c by auto
qed simp

section \<open>The properties\<close>

text \<open>
  C20. Reading the clock is never ahead and lags by a nanosecond at most: on the scale of a
  counter, the nanoseconds of a tick are never above the exact quotient, and for values up to
  2^63 ns at most one under it. The scale of every frequency but 0 is found, and 0 has none.
\<close>

theorem clock_never_ahead:
  "scale_new 0 = Some None
   \<and> (hz > 0 \<longrightarrow> (\<exists>s. scale_new hz = Some (Some s) \<and> scale_hz s = hz
        \<and> (\<forall>t. unat (ticks_to_ns s t) \<le> unat t * 1000000000 div unat hz)
        \<and> (\<forall>t. unat t * 1000000000 \<le> 2 ^ 63 * unat hz \<longrightarrow>
              unat t * 1000000000 div unat hz \<le> unat (ticks_to_ns s t) + 1)))"
proof (intro conjI impI)
  assume "hz > 0"
  then obtain s where s: "scale_new hz = Some (Some s)" "scale_hz s = hz"
    using scale_new_exact by metis
  note f = scale_of(2) [OF s(1)] and pos = scale_of(1) [OF s(1)]
  have "unat (ticks_to_ns s t) \<le> unat t * 1000000000 div unat hz" for t
    using apply_le [OF f pos] by (simp add: ticks_to_ns_def nanos)
  moreover have "unat t * 1000000000 div unat hz \<le> unat (ticks_to_ns s t) + 1"
    if t: "unat t * 1000000000 \<le> 2 ^ 63 * unat hz" for t
  proof -
    have m: "unat (mul (to_ns s)) = unat NANOS_PER_SEC * 2 ^ shift (to_ns s) div unat hz" "2 ^ 63 \<le> unat (mul (to_ns s))"
      using f by (simp_all add: exact_fraction_def)
    have "unat t \<le> 2 ^ shift (to_ns s)"
      using small_tick [OF pos _ m, of "unat t"] t by (simp add: nanos)
    then have "unat t * 1000000000 div unat hz \<le> unat t * unat (mul (to_ns s)) div 2 ^ shift (to_ns s) + 1"
      using scaled_ge [OF pos m(1)] by (simp add: nanos)
    moreover have "unat t * 1000000000 div unat hz \<le> 2 ^ 63"
      using t pos by (metis div_le_mono nonzero_mult_div_cancel_right less_numeral_extra(3))
    ultimately show ?thesis
      using apply_exact [OF f, of t] by (simp add: ticks_to_ns_def)
  qed
  ultimately show "\<exists>s. scale_new hz = Some (Some s) \<and> scale_hz s = hz
        \<and> (\<forall>t. unat (ticks_to_ns s t) \<le> unat t * 1000000000 div unat hz)
        \<and> (\<forall>t. unat t * 1000000000 \<le> 2 ^ 63 * unat hz \<longrightarrow>
              unat t * 1000000000 div unat hz \<le> unat (ticks_to_ns s t) + 1)"
    using s by blast
qed (simp add: scale_new_def)

theorem clock_never_ahead_witness:
  "\<exists>s. scale_new 62500000 = Some (Some s)
     \<and> unat (ticks_to_ns s 62500000) \<le> 1000000000 \<and> 1000000000 \<le> unat (ticks_to_ns s 62500000) + 1"
proof -
  obtain s where "scale_new 62500000 = Some (Some s)"
      "\<forall>t. unat (ticks_to_ns s t) \<le> unat t * 1000000000 div unat (62500000 :: u64)"
      "\<forall>t. unat t * 1000000000 \<le> 2 ^ 63 * unat (62500000 :: u64) \<longrightarrow>
              unat t * 1000000000 div unat (62500000 :: u64) \<le> unat (ticks_to_ns s t) + 1"
    using clock_never_ahead [of 62500000] by auto
  then show ?thesis
    by (intro exI [of _ s]) (force dest: spec [of _ 62500000])
qed

text \<open>
  C21. A timer never fires before its deadline and no later than it can: the tick of a deadline
  is the least one at which the clock reaches it, or the last tick when none does. The search
  for it ends, after two steps at most for a counter of up to 1 GHz and deadlines of up to
  2^62 ns, and three up to 2^63 ns.
\<close>

theorem deadline_tick_least:
  assumes s: "scale_new hz = Some (Some s)"
  shows "(\<forall>t < ns_to_ticks s ns. ticks_to_ns s t < ns)
    \<and> (ns_to_ticks s ns = - 1 \<or> ns \<le> ticks_to_ns s (ns_to_ticks s ns))
    \<and> (unat hz \<le> 1000000000 \<and> unat ns \<le> 2 ^ 62 \<longrightarrow> unat (ns_to_ticks s ns) \<le> unat (estimate s ns) + 2)
    \<and> (unat hz \<le> 1000000000 \<and> unat ns \<le> 2 ^ 63 \<longrightarrow> unat (ns_to_ticks s ns) \<le> unat (estimate s ns) + 3)"
proof -
  let ?r = "ns_to_ticks s ns" and ?e = "estimate s ns"
  have loop: "?e \<le> ?r" "\<And>t. ?e \<le> t \<Longrightarrow> t < ?r \<Longrightarrow> ticks_to_ns s t < ns"
      "?r = - 1 \<or> ns \<le> ticks_to_ns s ?r"
    using ticks_up_first [of ?e s ns] by (auto simp: ns_to_ticks_def)
  have before: "ticks_to_ns s t < ns" if "t < ?r" for t
    using that loop(2) estimate_le [OF s, of ns t] by (meson not_le)
  moreover have "unat ?r \<le> unat ?e + c"
    if hz: "unat hz \<le> 1000000000" and ns: "m * unat ns \<le> 2 ^ 63" and c: "c = 2 \<and> m = 2 \<or> c = 3 \<and> m = 1" for c m
    using steps_bound [OF s before hz ns c] loop(1) by blast
  from this [of 2 2] this [of 1 3] have "unat hz \<le> 1000000000 \<and> unat ns \<le> 2 ^ 62 \<longrightarrow> unat ?r \<le> unat ?e + 2"
      "unat hz \<le> 1000000000 \<and> unat ns \<le> 2 ^ 63 \<longrightarrow> unat ?r \<le> unat ?e + 3"
    by auto
  ultimately show ?thesis
    using loop(3) by blast
qed

theorem deadline_tick_least_witness:
  "\<exists>s. scale_new 1000000000 = Some (Some s)
    \<and> (\<forall>t < ns_to_ticks s 5000. ticks_to_ns s t < 5000)
    \<and> (ns_to_ticks s 5000 = - 1 \<or> 5000 \<le> ticks_to_ns s (ns_to_ticks s 5000))
    \<and> unat (ns_to_ticks s 5000) \<le> unat (estimate s 5000) + 2"
proof -
  have "(1000000000 :: u64) > 0"
    by simp
  then obtain s where s: "scale_new 1000000000 = Some (Some s)"
    by (rule scale_new_exact)
  then show ?thesis
    using deadline_tick_least [OF s, of 5000] by (intro exI [of _ s]) simp
qed

lemma periods_no_wrap:
  fixes t0 now period :: u64
  assumes p: "unat period > 0" and q: "q * unat period \<le> unat now - unat t0"
    and corner: "\<not> (t0 = 0 \<and> now = - 1 \<and> period = 1)"
  shows "q + 1 < 2 ^ 64"
proof (rule ccontr)
  assume "\<not> q + 1 < 2 ^ 64"
  then have big: "2 ^ 64 - 1 \<le> q"
    by simp
  have "q * 1 \<le> q * unat period"
    using p by (intro mult_le_mono2) simp
  then have "q \<le> unat now - unat t0"
    using q by (metis mult.right_neutral order_trans)
  then have le: "q \<le> unat now - unat t0" "q * unat period \<le> unat now" "unat now \<le> 2 ^ 64 - 1"
    using q unat_below [of now] by simp_all
  then have eq: "q = 2 ^ 64 - 1" "unat now = 2 ^ 64 - 1" "unat t0 = 0"
    using big by simp_all
  have "unat period = 1"
  proof (rule ccontr)
    assume "unat period \<noteq> 1"
    then have "q * 2 \<le> q * unat period"
      using p by (intro mult_le_mono2) simp
    then show False
      using le(2) eq(1,2) by simp
  qed
  then show False
    using corner eq by (simp add: word_unat_eq_iff unat_max_word)
qed

lemma next_release_cases:
  assumes "period > 0" and "\<not> (t0 = 0 \<and> now = - 1 \<and> period = 1)"
  shows "(\<exists>k. unat (next_release t0 period now) = unat t0 + k * unat period
           \<and> now < next_release t0 period now
           \<and> (\<forall>j<k. unat t0 + j * unat period \<le> unat now))
    \<or> (next_release t0 period now = - 1
        \<and> (\<forall>k. unat now < unat t0 + k * unat period \<longrightarrow> unat t0 + k * unat period \<ge> 2 ^ 64))"
proof (cases "now < t0")
  case True
  then show ?thesis
    by (intro disjI1 exI [of _ 0]) (simp add: next_release_def)
next
  case False
  then have t0: "unat t0 \<le> unat now" "unat (now - t0) = unat now - unat t0"
    by (simp_all add: word_le_nat_alt not_less unat_sub_no_wrap)
  have nonzero: "period \<noteq> 0"
    using assms(1) by auto
  have p: "unat period > 0"
    using assms(1) by (simp add: word_less_nat_alt)
  define q where "q = (unat now - unat t0) div unat period"
  have q: "q * unat period \<le> unat now - unat t0" "unat now - unat t0 < (q + 1) * unat period"
    using dividend_less_div_times [OF p, of "unat now - unat t0"] by (simp_all add: q_def algebra_simps)
  have no_wrap: "q + 1 < 2 ^ 64"
    using periods_no_wrap [OF p _ assms(2)] q(1) by simp
  define k where "k = (now - t0) div period + 1"
  have "unat ((now - t0) div period) = q"
    by (simp add: unat_div t0(2) q_def)
  then have k: "unat k = q + 1"
    unfolding k_def using unat_add_no_wrap [of "(now - t0) div period" 1] no_wrap by simp
  have earlier: "unat t0 + j * unat period \<le> unat now" if "j < q + 1" for j
  proof -
    have "j * unat period \<le> q * unat period"
      using that by simp
    then show ?thesis
      using q(1) t0(1) by linarith
  qed
  have later: "unat now < unat t0 + (q + 1) * unat period"
    using q(2) t0(1) by linarith
  show ?thesis
  proof (cases "unat t0 + (q + 1) * unat period < 2 ^ 64")
    case True
    then have mul: "unat (k * period) = (q + 1) * unat period" "unat k * unat period < 2 ^ 64"
      using unat_mult_no_wrap [of k period] by (simp_all add: k)
    then have "next_release t0 period now = t0 + k * period"
      using False nonzero True by (simp add: next_release_def checked_mul_def checked_add_def Let_def k_def [symmetric])
    moreover have "unat (t0 + k * period) = unat t0 + (q + 1) * unat period"
      using unat_add_no_wrap [of t0 "k * period"] mul(1) True by simp
    ultimately have "unat (next_release t0 period now) = unat t0 + (q + 1) * unat period"
      by simp
    then show ?thesis
      using earlier later by (intro disjI1 exI [of _ "q + 1"]) (simp add: word_less_nat_alt)
  next
    case past: False
    have "next_release t0 period now = - 1"
    proof (cases "unat k * unat period < 2 ^ 64")
      case True
      then have "unat (k * period) = (q + 1) * unat period"
        using unat_mult_no_wrap [of k period] by (simp add: k)
      then show ?thesis
        using False nonzero True past by (simp add: next_release_def checked_mul_def checked_add_def Let_def k_def [symmetric])
    next
      case no: False
      then show ?thesis
        using False nonzero by (simp add: next_release_def checked_mul_def Let_def k_def [symmetric])
    qed
    moreover have "2 ^ 64 \<le> unat t0 + j * unat period" if "unat now < unat t0 + j * unat period" for j
    proof -
      have "q + 1 \<le> j"
        using that earlier [of j] by force
      then have "(q + 1) * unat period \<le> j * unat period"
        by (rule mult_le_mono1)
      then show ?thesis
        using past by linarith
    qed
    ultimately show ?thesis
      by blast
  qed
qed

text \<open>
  C22. The release of periodic work after \<open>now\<close> is the first deadline \<open>t0 + k * period\<close>
  that is later than \<open>now\<close>, or the last instant when that one lies past the range; one
  corner is left out, where the number of periods wraps around.
\<close>

theorem next_release_first:
  assumes "period > 0" and "\<not> (t0 = 0 \<and> now = - 1 \<and> period = 1)"
  shows "(\<exists>k. unat (next_release t0 period now) = unat t0 + k * unat period
           \<and> now < next_release t0 period now
           \<and> (\<forall>j<k. unat t0 + j * unat period \<le> unat now))
    \<or> (next_release t0 period now = - 1
        \<and> (\<forall>k. unat now < unat t0 + k * unat period \<longrightarrow> unat t0 + k * unat period \<ge> 2 ^ 64))"
  by (rule next_release_cases [OF assms])

theorem next_release_first_witness:
  "(\<exists>k. unat (next_release 100 30 200) = unat (100 :: u64) + k * unat (30 :: u64)
           \<and> 200 < next_release 100 30 200
           \<and> (\<forall>j<k. unat (100 :: u64) + j * unat (30 :: u64) \<le> unat (200 :: u64)))
    \<or> (next_release 100 30 200 = - 1
        \<and> (\<forall>k. unat (200 :: u64) < unat (100 :: u64) + k * unat (30 :: u64) \<longrightarrow> unat (100 :: u64) + k * unat (30 :: u64) \<ge> 2 ^ 64))"
  by (rule next_release_first) simp_all

text \<open>
  C23. The corner, and no other case: the release lies before \<open>now\<close> exactly when the work
  has a period of one tick from zero and \<open>now\<close> is the last instant. The count of periods then
  wraps around to zero, and so does the release, where the last instant was meant.
\<close>

theorem next_release_wraps:
  "(next_release t0 period now < now \<longleftrightarrow> t0 = 0 \<and> now = - 1 \<and> period = 1) \<and> next_release 0 1 (- 1) = 0"
proof -
  have corner: "next_release 0 1 (- 1) = 0"
    by (simp add: next_release_def checked_mul_def checked_add_def)
  moreover have "\<not> next_release t0 period now < now" if no: "\<not> (t0 = 0 \<and> now = - 1 \<and> period = 1)"
  proof (cases "period = 0")
    case True
    then show ?thesis
      by (auto simp: next_release_def not_less)
  next
    case False
    then have "period > 0"
      by (simp add: word_neq_0_conv)
    then show ?thesis
      using next_release_cases [OF _ no] by (auto simp: not_less)
  qed
  moreover have "(0 :: u64) < - 1"
    by (simp add: word_less_nat_alt unat_max_word)
  ultimately show ?thesis
    by auto
qed

end
