(* ===== verification/Quota.thy ===== *)
theory Quota
  imports Abi
begin

text \<open>
  Memory quotas and shares of a process, \<open>kcore/src/quota.rs\<close>: \<open>Account\<close> counts
  bytes in 64 bits, \<open>Share\<close> thread numbers or timers in 16 bits. Both keep the same
  contract, which the abstract \<open>ledger\<close> over natural numbers states: a charge fits
  in what is left or is refused, and the two parts that go back to the parent add up to
  the limit. The locale \<open>quota_contract\<close> is that contract as an interface; both
  implementations interpret it.
\<close>

section \<open>Account\<close>

record account =
  acc_limit :: u64
  acc_used :: u64
  acc_returned :: u64
  acc_closed :: bool

definition account_new :: "u64 \<Rightarrow> account" where
  "account_new limit =
     \<lparr>acc_limit = limit, acc_used = 0, acc_returned = 0, acc_closed = False\<rparr>"

definition account_charge :: "account \<Rightarrow> u64 \<Rightarrow> unit result \<times> account" where
  "account_charge a bytes =
     (case checked_add (acc_used a) bytes of
        Some used \<Rightarrow>
          if \<not> acc_closed a \<and> used \<le> acc_limit a - acc_returned a
          then (Inr (), a\<lparr>acc_used := used\<rparr>)
          else (Inl NoMemory, a)
      | None \<Rightarrow> (Inl NoMemory, a))"

definition account_refund :: "account \<Rightarrow> u64 \<Rightarrow> account option" where
  "account_refund a bytes = do {
     used \<leftarrow> checked_sub (acc_used a) bytes;
     Some (a\<lparr>acc_used := used\<rparr>) }"

definition account_return_free :: "account \<Rightarrow> u64 \<times> account" where
  "account_return_free a =
     (if acc_closed a then (0, a)
      else let free = acc_limit a - acc_returned a - acc_used a in
        (free, a\<lparr>acc_returned := acc_returned a + free, acc_closed := True\<rparr>))"

definition account_return_rest :: "account \<Rightarrow> (u64 \<times> account) option" where
  "account_return_rest a = do {
     ensure (acc_used a = 0);
     let rest = acc_limit a - acc_returned a;
     Some (rest, a\<lparr>acc_returned := acc_limit a, acc_closed := True\<rparr>) }"

section \<open>Share\<close>

record share =
  sh_limit :: u16
  sh_used :: u16
  sh_returned :: u16
  sh_closed :: bool

definition share_MAX :: u32 where "share_MAX = 0xFFFF"

definition share_new :: "u32 \<Rightarrow> share option" where
  "share_new limit = do {
     ensure (limit \<le> share_MAX);
     Some \<lparr>sh_limit = ucast limit, sh_used = 0, sh_returned = 0, sh_closed = False\<rparr> }"

definition share_charge :: "share \<Rightarrow> u32 \<Rightarrow> unit result \<times> share" where
  "share_charge s n =
     (let used = ucast (sh_used s) + min n (share_MAX + 1) in
      if \<not> sh_closed s \<and> used \<le> ucast (sh_limit s - sh_returned s)
      then (Inr (), s\<lparr>sh_used := ucast used\<rparr>)
      else (Inl LimitReached, s))"

definition share_refund :: "share \<Rightarrow> u32 \<Rightarrow> share option" where
  "share_refund s n = do {
     used \<leftarrow> checked_sub (ucast (sh_used s)) n;
     Some (s\<lparr>sh_used := ucast used\<rparr>) }"

definition share_return_free :: "share \<Rightarrow> u32 \<times> share" where
  "share_return_free s =
     (if sh_closed s then (0, s)
      else let free = sh_limit s - sh_returned s - sh_used s in
        (ucast free, s\<lparr>sh_returned := sh_returned s + free, sh_closed := True\<rparr>))"

definition share_return_rest :: "share \<Rightarrow> (u32 \<times> share) option" where
  "share_return_rest s = do {
     ensure (sh_used s = 0);
     let rest = sh_limit s - sh_returned s;
     Some (ucast rest, s\<lparr>sh_returned := sh_limit s, sh_closed := True\<rparr>) }"

section \<open>The contract\<close>

text \<open>What a quota promises, over natural numbers: \<open>total\<close> from the parent,
  \<open>held\<close> charged and not refunded, \<open>given\<close> back to the parent.\<close>

record ledger =
  total :: nat
  held :: nat
  given :: nat
  shut :: bool

definition ledger_ok :: "ledger \<Rightarrow> bool" where
  "ledger_ok l \<longleftrightarrow> held l + given l \<le> total l \<and> (\<not> shut l \<longrightarrow> given l = 0)"

definition ledger_charge :: "ledger \<Rightarrow> nat \<Rightarrow> ledger option" where
  "ledger_charge l n =
     (if \<not> shut l \<and> held l + given l + n \<le> total l then Some (l\<lparr>held := held l + n\<rparr>) else None)"

definition ledger_refund :: "ledger \<Rightarrow> nat \<Rightarrow> ledger option" where
  "ledger_refund l n = (if n \<le> held l then Some (l\<lparr>held := held l - n\<rparr>) else None)"

definition ledger_return_free :: "ledger \<Rightarrow> nat \<times> ledger" where
  "ledger_return_free l =
     (if shut l then (0, l)
      else (total l - held l, l\<lparr>given := total l - held l, shut := True\<rparr>))"

definition ledger_return_rest :: "ledger \<Rightarrow> (nat \<times> ledger) option" where
  "ledger_return_rest l =
     (if held l = 0 then Some (total l - given l, l\<lparr>given := total l, shut := True\<rparr>) else None)"

text \<open>The calls a quota gets in its life, and what each gives back to the parent.\<close>

datatype 'n quota_call = Charge 'n | Refund 'n | ReturnFree | ReturnRest

fun ledger_call :: "ledger \<Rightarrow> nat quota_call \<Rightarrow> (nat \<times> ledger) option" where
  "ledger_call l (Charge n) =
     Some (0, case ledger_charge l n of None \<Rightarrow> l | Some l' \<Rightarrow> l')"
| "ledger_call l (Refund n) = map_option (Pair 0) (ledger_refund l n)"
| "ledger_call l ReturnFree = Some (ledger_return_free l)"
| "ledger_call l ReturnRest = ledger_return_rest l"

fun account_call :: "account \<Rightarrow> u64 quota_call \<Rightarrow> (nat \<times> account) option" where
  "account_call a (Charge n) = Some (0, snd (account_charge a n))"
| "account_call a (Refund n) = map_option (Pair 0) (account_refund a n)"
| "account_call a ReturnFree = Some (map_prod unat id (account_return_free a))"
| "account_call a ReturnRest = map_option (map_prod unat id) (account_return_rest a)"

fun share_call :: "share \<Rightarrow> u32 quota_call \<Rightarrow> (nat \<times> share) option" where
  "share_call s (Charge n) = Some (0, snd (share_charge s n))"
| "share_call s (Refund n) = map_option (Pair 0) (share_refund s n)"
| "share_call s ReturnFree = Some (map_prod unat id (share_return_free s))"
| "share_call s ReturnRest = map_option (map_prod unat id) (share_return_rest s)"

text \<open>A life of calls: the sum of what went back to the parent, and the last state.\<close>

fun quota_life :: "('q \<Rightarrow> 'c \<Rightarrow> (nat \<times> 'q) option) \<Rightarrow> 'q \<Rightarrow> 'c list \<Rightarrow> (nat \<times> 'q) option" where
  "quota_life call q [] = Some (0, q)"
| "quota_life call q (c # cs) =
     (case call q c of
        None \<Rightarrow> None
      | Some (n, q') \<Rightarrow>
          (case quota_life call q' cs of None \<Rightarrow> None | Some (m, q'') \<Rightarrow> Some (n + m, q'')))"

text \<open>A ledger gives back exactly what it counts as given, and stays sound.\<close>

lemma ledger_call_given:
  assumes "ledger_ok l" and "ledger_call l c = Some (n, l')"
  shows "ledger_ok l' \<and> total l' = total l \<and> given l' = given l + n \<and> (shut l \<longrightarrow> shut l')"
  using assms
  by (cases c) (auto simp: ledger_ok_def ledger_charge_def ledger_refund_def
      ledger_return_free_def ledger_return_rest_def split: if_splits option.splits)

lemma ledger_life_given:
  assumes "ledger_ok l" and "quota_life ledger_call l cs = Some (n, l')"
  shows "ledger_ok l' \<and> total l' = total l \<and> given l' = given l + n"
  using assms
proof (induction cs arbitrary: l n)
  case Nil
  then show ?case by simp
next
  case (Cons c cs)
  then obtain k l1 m where c: "ledger_call l c = Some (k, l1)"
    and cs: "quota_life ledger_call l1 cs = Some (m, l')" and "n = k + m"
    by (auto split: option.splits prod.splits)
  with ledger_call_given [OF Cons.prems(1) c] Cons.IH [OF _ cs] show ?case
    by auto
qed

lemma ledger_rest_gives_all:
  "ledger_call l ReturnRest = Some (n, l') \<Longrightarrow> given l' = total l"
  by (auto simp: ledger_return_rest_def split: if_splits)

section \<open>The interface\<close>

text \<open>
  An implementation \<open>call\<close> over states \<open>'q\<close> with numbers \<open>'n\<close>: each call does
  what the ledger does on the numbers. The parent relies on nothing else.
\<close>

locale quota_contract =
  fixes abs :: "'q \<Rightarrow> ledger"
    and num :: "'n \<Rightarrow> nat"
    and call :: "'q \<Rightarrow> 'n quota_call \<Rightarrow> (nat \<times> 'q) option"
  assumes call_refines: "ledger_ok (abs q) \<Longrightarrow>
    map_option (map_prod id abs) (call q c) = ledger_call (abs q) (map_quota_call num c)"
begin

lemma call_ok:
  assumes "ledger_ok (abs q)" and "call q c = Some (n, q')"
  shows "ledger_call (abs q) (map_quota_call num c) = Some (n, abs q')"
  using call_refines [OF assms(1), of c] assms(2) by simp

lemma life_refines:
  "ledger_ok (abs q) \<Longrightarrow> quota_life call q cs = Some (n, q') \<Longrightarrow>
   quota_life ledger_call (abs q) (map (map_quota_call num) cs) = Some (n, abs q')"
proof (induction cs arbitrary: q n)
  case Nil
  then show ?case by simp
next
  case (Cons c cs)
  then obtain k q1 m where c: "call q c = Some (k, q1)"
    and cs: "quota_life call q1 cs = Some (m, q')" and n: "n = k + m"
    by (auto split: option.splits prod.splits)
  have step: "ledger_call (abs q) (map_quota_call num c) = Some (k, abs q1)"
    using call_ok [OF Cons.prems(1) c] .
  then have "ledger_ok (abs q1)"
    using ledger_call_given [OF Cons.prems(1)] by blast
  from Cons.IH [OF this cs] step n show ?case by simp
qed

lemma life_conserves:
  assumes "ledger_ok (abs q)" and "quota_life call q cs = Some (n, q')"
  shows "ledger_ok (abs q') \<and> total (abs q') = total (abs q)
    \<and> given (abs q') = given (abs q) + n"
  using ledger_life_given [OF assms(1) life_refines [OF assms]] .

lemma life_ends_with_all:
  assumes ok: "ledger_ok (abs q)" and life: "quota_life call q cs = Some (n, q1)"
    and rest: "call q1 ReturnRest = Some (m, q2)"
  shows "given (abs q) + n + m = total (abs q)"
proof -
  have 1: "ledger_ok (abs q1)" "total (abs q1) = total (abs q)"
      "given (abs q1) = given (abs q) + n"
    using life_conserves [OF ok life] by auto
  have step: "ledger_call (abs q1) ReturnRest = Some (m, abs q2)"
    using call_ok [OF 1(1) rest] by simp
  have "given (abs q2) = given (abs q1) + m"
    using ledger_call_given [OF 1(1) step] by simp
  moreover have "given (abs q2) = total (abs q1)"
    using ledger_rest_gives_all [OF step] .
  ultimately show ?thesis
    using 1 by simp
qed

end

section \<open>Both implementations keep the contract\<close>

definition account_ledger :: "account \<Rightarrow> ledger" where
  "account_ledger a = \<lparr>total = unat (acc_limit a), held = unat (acc_used a),
     given = unat (acc_returned a), shut = acc_closed a\<rparr>"

definition share_ledger :: "share \<Rightarrow> ledger" where
  "share_ledger s = \<lparr>total = unat (sh_limit s), held = unat (sh_used s),
     given = unat (sh_returned s), shut = sh_closed s\<rparr>"

lemma unat_sub_le_sum:
  fixes a b :: "'a::len word"
  assumes "unat b + n \<le> unat a"
  shows "b \<le> a" and "unat (a - b) = unat a - unat b"
  using assms by (simp_all add: word_le_nat_alt unat_sub_no_wrap)

lemma account_charge_refines:
  assumes "ledger_ok (account_ledger a)"
  shows "account_charge a n =
    (case ledger_charge (account_ledger a) (unat n) of
       None \<Rightarrow> (Inl NoMemory, a)
     | Some l \<Rightarrow> (Inr (), a\<lparr>acc_used := acc_used a + n\<rparr>))"
    and "ledger_charge (account_ledger a) (unat n) = Some l \<Longrightarrow>
      account_ledger (a\<lparr>acc_used := acc_used a + n\<rparr>) = l"
proof -
  have ok: "unat (acc_used a) + unat (acc_returned a) \<le> unat (acc_limit a)"
    using assms by (simp add: ledger_ok_def account_ledger_def)
  then have sub: "unat (acc_limit a - acc_returned a) = unat (acc_limit a) - unat (acc_returned a)"
    by (intro unat_sub_le_sum(2) [where n = "unat (acc_used a)"]) simp
  have lim: "unat (acc_limit a) < 2 ^ 64"
    using unat_below [of "acc_limit a"] by simp
  show "account_charge a n =
    (case ledger_charge (account_ledger a) (unat n) of
       None \<Rightarrow> (Inl NoMemory, a)
     | Some l \<Rightarrow> (Inr (), a\<lparr>acc_used := acc_used a + n\<rparr>))"
    using ok sub lim
    by (auto simp: account_charge_def ledger_charge_def account_ledger_def checked_add_def
        word_le_nat_alt unat_add_no_wrap)
  show "ledger_charge (account_ledger a) (unat n) = Some l \<Longrightarrow>
      account_ledger (a\<lparr>acc_used := acc_used a + n\<rparr>) = l"
    using lim
    by (auto simp: ledger_charge_def account_ledger_def unat_add_no_wrap split: if_splits)
qed

lemma account_call_refines:
  assumes "ledger_ok (account_ledger a)"
  shows "map_option (map_prod id account_ledger) (account_call a c) =
    ledger_call (account_ledger a) (map_quota_call unat c)"
proof -
  have ok: "unat (acc_used a) + unat (acc_returned a) \<le> unat (acc_limit a)"
    and fresh: "\<not> acc_closed a \<Longrightarrow> acc_returned a = 0"
    using assms by (simp_all add: ledger_ok_def account_ledger_def unat_eq_0)
  show ?thesis
  proof (cases c)
    case (Charge n)
    then show ?thesis
      using account_charge_refines [OF assms, of n]
      by (auto split: option.splits)
  next
    case (Refund n)
    then show ?thesis
      by (auto simp: account_refund_def ledger_refund_def account_ledger_def checked_sub_def
          word_le_nat_alt unat_sub_no_wrap)
  next
    case ReturnFree
    then show ?thesis
      using ok fresh
      by (auto simp: account_return_free_def ledger_return_free_def account_ledger_def Let_def
          unat_sub_no_wrap word_le_nat_alt)
  next
    case ReturnRest
    then show ?thesis
      using ok
      by (auto simp: account_return_rest_def ledger_return_rest_def account_ledger_def
          unat_eq_0 unat_sub_no_wrap word_le_nat_alt)
  qed
qed

interpretation acct: quota_contract account_ledger unat account_call
  by unfold_locales (rule account_call_refines)

text \<open>A share counts in 16 bits and takes numbers of 32: nothing is lost on the way.\<close>

lemma unat_ucast_up [simp]: "unat (ucast (w :: u16) :: u32) = unat w"
  by (simp add: unsigned_ucast_eq take_bit_nat_eq_self_iff less_trans [OF unat_below])

lemma unat_ucast_down: "unat (w :: u32) < 65536 \<Longrightarrow> unat (ucast w :: u16) = unat w"
  by (simp add: unsigned_ucast_eq take_bit_nat_eq_self_iff)

lemma share_charge_refines:
  assumes "ledger_ok (share_ledger s)"
  shows "share_charge s n =
    (case ledger_charge (share_ledger s) (unat n) of
       None \<Rightarrow> (Inl LimitReached, s)
     | Some l \<Rightarrow> (Inr (), s\<lparr>sh_used := ucast (ucast (sh_used s) + n)\<rparr>))"
    and "ledger_charge (share_ledger s) (unat n) = Some l \<Longrightarrow>
      share_ledger (s\<lparr>sh_used := ucast (ucast (sh_used s) + n)\<rparr>) = l"
proof -
  have ok: "unat (sh_used s) + unat (sh_returned s) \<le> unat (sh_limit s)"
    using assms by (simp add: ledger_ok_def share_ledger_def)
  then have sub: "unat (sh_limit s - sh_returned s) = unat (sh_limit s) - unat (sh_returned s)"
    by (intro unat_sub_le_sum(2) [where n = "unat (sh_used s)"]) simp
  have lim: "unat (sh_limit s) < 65536" "unat (sh_used s) < 65536"
    using unat_below [of "sh_limit s"] unat_below [of "sh_used s"] by simp_all
  have cut: "unat (ucast (sh_used s) + min n (share_MAX + 1)) =
      unat (sh_used s) + min (unat n) 65536"
    using lim by (subst unat_add_no_wrap) (auto simp: share_MAX_def min_def word_le_nat_alt)
  have whole: "unat (ucast (sh_used s) + n) = unat (sh_used s) + unat n" if "unat n < 65536"
    using lim that by (subst unat_add_no_wrap) simp_all
  show "share_charge s n =
    (case ledger_charge (share_ledger s) (unat n) of
       None \<Rightarrow> (Inl LimitReached, s)
     | Some l \<Rightarrow> (Inr (), s\<lparr>sh_used := ucast (ucast (sh_used s) + n)\<rparr>))"
  proof (cases "unat n < 65536")
    case True
    then have "min n (share_MAX + 1) = n"
      by (simp add: share_MAX_def min_def word_le_nat_alt)
    with True show ?thesis
      using ok sub whole
      by (auto simp: share_charge_def ledger_charge_def share_ledger_def word_le_nat_alt)
  next
    case False
    then show ?thesis
      using ok sub lim cut
      by (auto simp: share_charge_def ledger_charge_def share_ledger_def word_le_nat_alt Let_def)
  qed
  show "ledger_charge (share_ledger s) (unat n) = Some l \<Longrightarrow>
      share_ledger (s\<lparr>sh_used := ucast (ucast (sh_used s) + n)\<rparr>) = l"
    using lim whole
    by (auto simp: ledger_charge_def share_ledger_def unat_ucast_down split: if_splits)
qed

lemma share_call_refines:
  assumes "ledger_ok (share_ledger s)"
  shows "map_option (map_prod id share_ledger) (share_call s c) =
    ledger_call (share_ledger s) (map_quota_call unat c)"
proof -
  have ok: "unat (sh_used s) + unat (sh_returned s) \<le> unat (sh_limit s)"
    and fresh: "\<not> sh_closed s \<Longrightarrow> sh_returned s = 0"
    using assms by (simp_all add: ledger_ok_def share_ledger_def unat_eq_0)
  have used: "unat (sh_used s) < 65536"
    using unat_below [of "sh_used s"] by simp
  show ?thesis
  proof (cases c)
    case (Charge n)
    then show ?thesis
      using share_charge_refines [OF assms, of n]
      by (auto split: option.splits)
  next
    case (Refund n)
    then show ?thesis
      using used
      by (auto simp: share_refund_def ledger_refund_def share_ledger_def checked_sub_def
          word_le_nat_alt unat_sub_no_wrap unat_ucast_down)
  next
    case ReturnFree
    then show ?thesis
      using ok fresh
      by (auto simp: share_return_free_def ledger_return_free_def share_ledger_def Let_def
          unat_sub_no_wrap word_le_nat_alt)
  next
    case ReturnRest
    then show ?thesis
      using ok
      by (auto simp: share_return_rest_def ledger_return_rest_def share_ledger_def
          unat_eq_0 unat_sub_no_wrap word_le_nat_alt)
  qed
qed

interpretation shr: quota_contract share_ledger unat share_call
  by unfold_locales (rule share_call_refines)

lemma account_new_ledger:
  "account_ledger (account_new limit) = \<lparr>total = unat limit, held = 0, given = 0, shut = False\<rparr>"
  by (simp add: account_ledger_def account_new_def)

lemma share_new_ledger:
  "share_new limit = Some s \<Longrightarrow>
   share_ledger s = \<lparr>total = unat limit, held = 0, given = 0, shut = False\<rparr>"
  by (auto simp: share_ledger_def share_new_def share_MAX_def word_le_nat_alt unat_ucast_down
      stop_simps)

section \<open>Properties\<close>

text \<open>
  C1. Over any life of a memory quota that began with \<open>limit\<close> bytes, the bytes charged
  and the bytes that went back to the parent never exceed the limit together, and when the
  rest goes back (\<open>return_rest\<close>) the parts that went back add up to the limit exactly:
  no byte is lost and none is paid back twice.
\<close>

theorem account_conserves_limit:
  assumes "quota_life account_call (account_new limit) calls = Some (n, a)"
  shows "n = unat (acc_returned a)
    \<and> unat (acc_used a) + unat (acc_returned a) \<le> unat limit
    \<and> (\<forall>m a'. account_call a ReturnRest = Some (m, a') \<longrightarrow> n + m = unat limit)"
proof -
  have ok: "ledger_ok (account_ledger (account_new limit))"
    by (simp add: account_new_ledger ledger_ok_def)
  have "n = unat (acc_returned a) \<and> unat (acc_used a) + unat (acc_returned a) \<le> unat limit"
    using acct.life_conserves [OF ok assms]
    by (simp add: account_new_def account_ledger_def ledger_ok_def)
  moreover have "n + m = unat limit" if "account_call a ReturnRest = Some (m, a')" for m a'
    using acct.life_ends_with_all [OF ok assms that] by (simp add: account_new_ledger)
  ultimately show ?thesis
    by blast
qed

theorem account_conserves_limit_witness:
  "quota_life account_call (account_new 8192)
      [Charge 4096, Charge 8192, ReturnFree, Charge 1, Refund 4096] =
      Some (4096, \<lparr>acc_limit = 8192, acc_used = 0, acc_returned = 4096, acc_closed = True\<rparr>)
    \<and> account_call \<lparr>acc_limit = 8192, acc_used = 0, acc_returned = 4096, acc_closed = True\<rparr>
      ReturnRest =
      Some (4096, \<lparr>acc_limit = 8192, acc_used = 0, acc_returned = 8192, acc_closed = True\<rparr>)
    \<and> 4096 + 4096 = unat (8192 :: u64)"
proof -
  let ?cs = "[Charge 4096, Charge 8192, ReturnFree, Charge 1, Refund 4096] :: u64 quota_call list"
  let ?a = "\<lparr>acc_limit = 8192, acc_used = 0, acc_returned = 4096, acc_closed = True\<rparr>"
  have life: "quota_life account_call (account_new 8192) ?cs = Some (4096, ?a)"
    by (simp add: account_new_def account_charge_def account_refund_def account_return_free_def
        checked_add_def checked_sub_def)
  have rest: "account_call ?a ReturnRest =
      Some (4096, \<lparr>acc_limit = 8192, acc_used = 0, acc_returned = 8192, acc_closed = True\<rparr>)"
    by (simp add: account_return_rest_def)
  have "4096 + 4096 = unat (8192 :: u64)"
    using account_conserves_limit [OF life] rest by blast
  with life rest show ?thesis
    by blast
qed

end
