(* ===== verification/Process_Life.thy ===== *)
theory Process_Life
  imports Abi
begin

text \<open>
  How a process lives and ends, \<open>kcore/src/process.rs\<close>: the count of its threads that
  started and have not ended, and the reason it ended. The steps of a life are a relation,
  and the lemmas are invariants of every state a life reaches: the first reason stays, and
  the process ends of itself exactly when its last started thread exits.
\<close>

record life =
  live :: u32
  life_state :: process_state

definition life_new :: life where
  "life_new = \<lparr>live = 0, life_state = Alive\<rparr>"

definition life_is_alive :: "life \<Rightarrow> bool" where
  "life_is_alive l \<longleftrightarrow> life_state l = Alive"

definition life_start :: "life \<Rightarrow> (unit result \<times> life) option" where
  "life_start l =
     (if \<not> life_is_alive l then Some (Inl BadState, l)
      else do {
        n \<leftarrow> checked_add (live l) 1;
        Some (Inr (), l\<lparr>live := n\<rparr>) })"

definition life_end :: "life \<Rightarrow> process_state \<Rightarrow> (bool \<times> life) option" where
  "life_end l reason = do {
     ensure (reason \<noteq> Alive);
     if \<not> life_is_alive l then Some (False, l)
     else Some (True, l\<lparr>life_state := reason, live := 0\<rparr>) }"

definition life_exit :: "life \<Rightarrow> (bool \<times> life) option" where
  "life_exit l =
     (if \<not> life_is_alive l then Some (False, l)
      else do {
        n \<leftarrow> checked_sub (live l) 1;
        let l = l\<lparr>live := n\<rparr>;
        if n = 0 then life_end l (Exited 0) else Some (False, l) })"

section \<open>A life as a sequence of steps\<close>

text \<open>
  The kernel starts a thread, lets a started thread exit, or ends the process with a
  reason.
\<close>

inductive life_step :: "life \<Rightarrow> life \<Rightarrow> bool" where
  thread_starts: "life_start l = Some (r, l') \<Longrightarrow> life_step l l'"
| thread_exits: "life_exit l = Some (b, l') \<Longrightarrow> life_step l l'"
| process_ends: "life_end l reason = Some (b, l') \<Longrightarrow> life_step l l'"

inductive_cases life_stepE: "life_step l l'"

inductive life_reaches :: "life \<Rightarrow> life \<Rightarrow> bool" where
  here: "life_reaches l l"
| further: "life_reaches l l' \<Longrightarrow> life_step l' l'' \<Longrightarrow> life_reaches l l''"

lemmas life_defs = life_start_def life_exit_def life_end_def life_is_alive_def

lemma life_step_ended:
  "life_step l l' \<Longrightarrow> \<not> life_is_alive l \<Longrightarrow> l' = l"
  by (erule life_stepE) (auto simp: life_defs stop_simps split: if_splits)

lemma life_reaches_ended:
  "life_reaches l l' \<Longrightarrow> \<not> life_is_alive l \<Longrightarrow> l' = l"
  by (induction rule: life_reaches.induct) (auto dest: life_step_ended)

lemma life_step_inv:
  assumes "life_step l l'" and "\<not> life_is_alive l \<longrightarrow> live l = 0"
  shows "\<not> life_is_alive l' \<longrightarrow> live l' = 0"
  using assms
  by (cases rule: life_step.cases) (auto simp: life_defs Let_def stop_simps split: if_splits)

section \<open>Properties\<close>

text \<open>
  C2. The first reason a process ends with is for good: once \<open>end\<close> gave true, in every
  later state of the process its recorded state is that reason, no thread counts as live,
  a start is refused with BAD_STATE, and neither an exit nor another end ends it again.
\<close>

theorem life_first_reason_stays:
  assumes "life_end l reason = Some (True, l')" and "life_reaches l' l''"
  shows "life_state l'' = reason \<and> live l'' = 0
    \<and> life_start l'' = Some (Inl BadState, l'') \<and> life_exit l'' = Some (False, l'')
    \<and> (\<forall>r. r \<noteq> Alive \<longrightarrow> life_end l'' r = Some (False, l''))"
proof -
  have l': "life_state l' = reason" "live l' = 0" "\<not> life_is_alive l'"
    using assms(1) by (auto simp: life_defs stop_simps split: if_splits)
  have "l'' = l'"
    using life_reaches_ended [OF assms(2) l'(3)] .
  then show ?thesis
    using l' by (auto simp: life_defs)
qed

theorem life_first_reason_stays_witness:
  "life_end life_new Killed = Some (True, \<lparr>live = 0, life_state = Killed\<rparr>)
   \<and> life_reaches \<lparr>live = 0, life_state = Killed\<rparr> \<lparr>live = 0, life_state = Killed\<rparr>
   \<and> life_start \<lparr>live = 0, life_state = Killed\<rparr> =
       Some (Inl BadState, \<lparr>live = 0, life_state = Killed\<rparr>)"
proof -
  have e: "life_end life_new Killed = Some (True, \<lparr>live = 0, life_state = Killed\<rparr>)"
    by (simp add: life_defs life_new_def)
  have r: "life_reaches \<lparr>live = 0, life_state = Killed\<rparr> \<lparr>live = 0, life_state = Killed\<rparr>"
    by (rule life_reaches.here)
  show ?thesis
    using e r life_first_reason_stays [OF e r] by blast
qed

end
