(* ===== verification/Ready_Queue.thy ===== *)
theory Ready_Queue
  imports Abi
begin

text \<open>
  The ready queue of \<open>kcore/src/sched.rs\<close>: a ring of items for each of the 64 levels,
  linked through the items themselves, the head of each ring, and a 64-bit mask of the
  levels that are not empty. The scheduler's threads, the kernel's cleanup work and the
  slots of a channel stand in such queues; the parked threads of a process stand in a ring
  of their own.

  Objects are addresses \<open>'p\<close>, and the links are a store from addresses to
  \<open>Link\<close> records: \<open>NonNull<T>\<close> is an address, a write through it an update of
  the store. Levels are the source's \<open>u8\<close>, only compared and used as an index, and
  are natural numbers here; the byte \<open>queued\<close> with its flag and tag is a word.

  The relation \<open>rq_rep\<close> says which list of items stands at each level; the lemmas
  show that every operation is the list operation its comment promises, and that it never
  stops the kernel when its caller keeps the contract.
\<close>

section \<open>Links\<close>

record 'p link =
  level :: nat
  queued :: u8
  prev :: "'p option"
  nxt :: "'p option"

type_synonym 'p links = "'p \<Rightarrow> 'p link"

definition QUEUED :: u8 where "QUEUED = 1"

definition link_new :: "nat \<Rightarrow> 'p link" where
  "link_new lvl = \<lparr>level = lvl, queued = 0, prev = None, nxt = None\<rparr>"

definition link_is_queued :: "'p link \<Rightarrow> bool" where
  "link_is_queued l \<longleftrightarrow> queued l AND QUEUED \<noteq> 0"

definition link_owner_at :: "'p link \<Rightarrow> u8" where
  "link_owner_at l = drop_bit 1 (queued l)"

definition link_set_owner :: "'p link \<Rightarrow> u8 \<Rightarrow> 'p link option" where
  "link_set_owner l owner = do {
     ensure (\<not> link_is_queued l \<and> owner < 128);
     Some (l\<lparr>queued := push_bit 1 owner\<rparr>) }"

definition link_set_level :: "'p link \<Rightarrow> nat \<Rightarrow> 'p link option" where
  "link_set_level l lvl = do {
     ensure (\<not> link_is_queued l);
     Some (l\<lparr>level := lvl\<rparr>) }"

section \<open>The queue\<close>

record 'p ready_queue =
  rq_mask :: u64
  rq_heads :: "'p option list"

definition rq_new :: "'p ready_queue" where
  "rq_new = \<lparr>rq_mask = 0, rq_heads = replicate PRIORITY_LEVELS None\<rparr>"

definition rq_is_empty :: "'p ready_queue \<Rightarrow> bool" where
  "rq_is_empty q \<longleftrightarrow> rq_mask q = 0"

definition rq_top :: "'p ready_queue \<Rightarrow> nat option" where
  "rq_top q = (if rq_mask q = 0 then None else Some (63 - leading_zeros (rq_mask q)))"

definition rq_first :: "'p ready_queue \<Rightarrow> nat \<Rightarrow> 'p option option" where
  "rq_first q lvl = at_index (rq_heads q) lvl"

text \<open>The level of an item, checked: level 0 goes to nothing.\<close>

definition rq_level :: "'p links \<Rightarrow> 'p \<Rightarrow> nat option" where
  "rq_level ls t = do {
     ensure (1 \<le> level (ls t) \<and> level (ls t) < PRIORITY_LEVELS);
     Some (level (ls t)) }"

definition rq_link_last ::
  "'p links \<Rightarrow> 'p ready_queue \<Rightarrow> 'p \<Rightarrow> nat \<Rightarrow> ('p links \<times> 'p ready_queue) option" where
  "rq_link_last ls q t lvl = do {
     ensure (\<not> link_is_queued (ls t));
     let ls = ls(t := (ls t)\<lparr>queued := queued (ls t) OR QUEUED\<rparr>);
     head \<leftarrow> at_index (rq_heads q) lvl;
     (case head of
        None \<Rightarrow>
          Some (ls(t := (ls t)\<lparr>prev := Some t, nxt := Some t\<rparr>),
            q\<lparr>rq_heads := (rq_heads q)[lvl := Some t],
              rq_mask := rq_mask q OR push_bit lvl 1\<rparr>)
      | Some h \<Rightarrow> do {
          tail \<leftarrow> prev (ls h);
          let ls = ls(t := (ls t)\<lparr>prev := Some tail, nxt := Some h\<rparr>);
          let ls = ls(tail := (ls tail)\<lparr>nxt := Some t\<rparr>);
          let ls = ls(h := (ls h)\<lparr>prev := Some t\<rparr>);
          Some (ls, q) }) }"

definition rq_push_head ::
  "'p links \<Rightarrow> 'p ready_queue \<Rightarrow> 'p \<Rightarrow> ('p links \<times> 'p ready_queue) option" where
  "rq_push_head ls q t = do {
     lvl \<leftarrow> rq_level ls t;
     (ls, q) \<leftarrow> rq_link_last ls q t lvl;
     heads \<leftarrow> set_index (rq_heads q) lvl (Some t);
     Some (ls, q\<lparr>rq_heads := heads\<rparr>) }"

definition rq_push_tail ::
  "'p links \<Rightarrow> 'p ready_queue \<Rightarrow> 'p \<Rightarrow> ('p links \<times> 'p ready_queue) option" where
  "rq_push_tail ls q t = do {
     lvl \<leftarrow> rq_level ls t;
     rq_link_last ls q t lvl }"

definition rq_remove ::
  "'p links \<Rightarrow> 'p ready_queue \<Rightarrow> 'p \<Rightarrow> ('p links \<times> 'p ready_queue) option" where
  "rq_remove ls q t = do {
     lvl \<leftarrow> rq_level ls t;
     ensure (link_is_queued (ls t));
     let ls = ls(t := (ls t)\<lparr>queued := queued (ls t) AND NOT QUEUED\<rparr>);
     p \<leftarrow> prev (ls t);
     let ls = ls(t := (ls t)\<lparr>prev := None\<rparr>);
     n \<leftarrow> nxt (ls t);
     let ls = ls(t := (ls t)\<lparr>nxt := None\<rparr>);
     if n = t then do {
       heads \<leftarrow> set_index (rq_heads q) lvl None;
       Some (ls, q\<lparr>rq_heads := heads, rq_mask := rq_mask q AND NOT (push_bit lvl 1)\<rparr>) }
     else do {
       let ls = ls(p := (ls p)\<lparr>nxt := Some n\<rparr>);
       let ls = ls(n := (ls n)\<lparr>prev := Some p\<rparr>);
       head \<leftarrow> at_index (rq_heads q) lvl;
       Some (ls, if head = Some t then q\<lparr>rq_heads := (rq_heads q)[lvl := Some n]\<rparr> else q) } }"

definition rq_move_to ::
  "'p links \<Rightarrow> 'p ready_queue \<Rightarrow> 'p \<Rightarrow> nat \<Rightarrow> ('p links \<times> 'p ready_queue) option" where
  "rq_move_to ls q t lvl =
     (let old = level (ls t) in
      if lvl = old then Some (ls, q)
      else do {
        (ls, q) \<leftarrow> rq_remove ls q t;
        l \<leftarrow> link_set_level (ls t) lvl;
        let ls = ls(t := l);
        if lvl > old then rq_push_tail ls q t else rq_push_head ls q t })"

section \<open>Parked threads\<close>

text \<open>\<open>ParkedList\<close> keeps only the head of its ring.\<close>

definition parked_push ::
  "'p links \<Rightarrow> 'p option \<Rightarrow> 'p \<Rightarrow> ('p links \<times> 'p option) option" where
  "parked_push ls head t = do {
     ensure (\<not> link_is_queued (ls t) \<and> nxt (ls t) = None);
     (case head of
        Some h \<Rightarrow> do {
          tail \<leftarrow> prev (ls h);
          let ls = ls(t := (ls t)\<lparr>prev := Some tail, nxt := Some h\<rparr>);
          let ls = ls(tail := (ls tail)\<lparr>nxt := Some t\<rparr>);
          let ls = ls(h := (ls h)\<lparr>prev := Some t\<rparr>);
          Some (ls, head) }
      | None \<Rightarrow> Some (ls(t := (ls t)\<lparr>prev := Some t, nxt := Some t\<rparr>), Some t)) }"

definition parked_remove ::
  "'p links \<Rightarrow> 'p option \<Rightarrow> 'p \<Rightarrow> ('p links \<times> 'p option) option" where
  "parked_remove ls head t = do {
     p \<leftarrow> prev (ls t);
     let ls = ls(t := (ls t)\<lparr>prev := None\<rparr>);
     n \<leftarrow> nxt (ls t);
     let ls = ls(t := (ls t)\<lparr>nxt := None\<rparr>);
     if n = t then Some (ls, None)
     else do {
       let ls = ls(p := (ls p)\<lparr>nxt := Some n\<rparr>);
       let ls = ls(n := (ls n)\<lparr>prev := Some p\<rparr>);
       Some (ls, if head = Some t then Some n else head) } }"

section \<open>Rings\<close>

text \<open>A chain of items, each linked to the next in both directions; a ring closes it.\<close>

fun chain :: "'p links \<Rightarrow> 'p list \<Rightarrow> bool" where
  "chain ls (a # b # xs) \<longleftrightarrow> nxt (ls a) = Some b \<and> prev (ls b) = Some a \<and> chain ls (b # xs)"
| "chain ls _ \<longleftrightarrow> True"

definition ring :: "'p links \<Rightarrow> 'p list \<Rightarrow> bool" where
  "ring ls xs \<longleftrightarrow> xs = [] \<or> chain ls (xs @ [hd xs])"

lemma chain_append:
  "chain ls (xs @ y # zs) \<longleftrightarrow> chain ls (xs @ [y]) \<and> chain ls (y # zs)"
  by (induction ls "xs @ [y]" arbitrary: xs rule: chain.induct)
     (auto simp: Cons_eq_append_conv append_eq_Cons_conv)

lemma chain_cong:
  assumes "\<And>a. a \<in> set (butlast xs) \<Longrightarrow> nxt (ls' a) = nxt (ls a)"
    and "\<And>a. a \<in> set (tl xs) \<Longrightarrow> prev (ls' a) = prev (ls a)"
  shows "chain ls' xs = chain ls xs"
  using assms by (induction ls xs rule: chain.induct) auto

lemma ring_rotate: "ring ls (xs @ ys) = ring ls (ys @ xs)"
proof (cases "xs = [] \<or> ys = []")
  case False
  then obtain x xs' y ys' where "xs = x # xs'" "ys = y # ys'"
    by (meson neq_Nil_conv)
  then show ?thesis
    using chain_append [of ls "x # xs'" y "ys' @ [x]"] chain_append [of ls "y # ys'" x "xs' @ [y]"]
    by (auto simp: ring_def)
qed auto

lemma ring_cong:
  assumes "\<And>a. a \<in> set xs \<Longrightarrow> nxt (ls' a) = nxt (ls a) \<and> prev (ls' a) = prev (ls a)"
  shows "ring ls' xs = ring ls xs"
proof (cases xs)
  case (Cons x xs')
  then show ?thesis
    unfolding ring_def using assms by (intro arg_cong2 [where f = "(\<or>)"] chain_cong) auto
qed (simp add: ring_def)


lemma ring_snoc: "ring ls (us @ [l]) \<longleftrightarrow> chain ls (us @ [l, hd (us @ [l])])"
  by (simp add: ring_def)

lemma ring_append_item:
  assumes "ring ls xs" and "xs \<noteq> []" and "distinct xs" and t: "t \<notin> set xs"
    and new: "nxt (ls' (last xs)) = Some t" "prev (ls' t) = Some (last xs)"
      "nxt (ls' t) = Some (hd xs)" "prev (ls' (hd xs)) = Some t"
    and nxt: "\<And>a. a \<in> set xs \<Longrightarrow> a \<noteq> last xs \<Longrightarrow> nxt (ls' a) = nxt (ls a)"
    and prev: "\<And>a. a \<in> set xs \<Longrightarrow> a \<noteq> hd xs \<Longrightarrow> prev (ls' a) = prev (ls a)"
  shows "ring ls' (xs @ [t])"
proof -
  obtain us l where xs: "xs = us @ [l]"
    using assms(2) by (cases xs rule: rev_cases) auto
  have "chain ls (us @ [l])"
    using assms(1) chain_append [of ls us l "[hd xs]"] by (simp add: ring_snoc xs)
  moreover have "chain ls' (us @ [l]) = chain ls (us @ [l])"
  proof (rule chain_cong)
    show "nxt (ls' a) = nxt (ls a)" if "a \<in> set (butlast (us @ [l]))" for a
      using that assms(3) by (intro nxt) (auto simp: xs)
    show "prev (ls' a) = prev (ls a)" if "a \<in> set (tl (us @ [l]))" for a
      using that assms(3) by (intro prev) (auto simp: xs hd_append tl_append split: list.splits)
  qed
  ultimately have "chain ls' (us @ l # [t, hd xs])"
    using chain_append [of ls' us l "[t, hd xs]"] new by (simp add: xs)
  then show ?thesis
    by (cases us) (simp_all add: ring_def xs)
qed

lemma ring_drop_head:
  assumes "ring ls (t # ys)" and "ys \<noteq> []" and "distinct (t # ys)"
    and new: "nxt (ls' (last ys)) = Some (hd ys)" "prev (ls' (hd ys)) = Some (last ys)"
    and nxt: "\<And>a. a \<in> set ys \<Longrightarrow> a \<noteq> last ys \<Longrightarrow> nxt (ls' a) = nxt (ls a)"
    and prev: "\<And>a. a \<in> set ys \<Longrightarrow> a \<noteq> hd ys \<Longrightarrow> prev (ls' a) = prev (ls a)"
  shows "ring ls' ys"
proof -
  obtain us l where ys: "ys = us @ [l]"
    using assms(2) by (cases ys rule: rev_cases) auto
  have "chain ls (ys @ [t])"
    using assms(1,2) by (cases ys) (auto simp: ring_def)
  then have "chain ls (us @ l # [t])"
    by (simp add: ys)
  then have "chain ls (us @ [l])"
    using chain_append [of ls us l "[t]"] by simp
  moreover have "chain ls' (us @ [l]) = chain ls (us @ [l])"
  proof (rule chain_cong)
    show "nxt (ls' a) = nxt (ls a)" if "a \<in> set (butlast (us @ [l]))" for a
      using that assms(3) by (intro nxt) (auto simp: ys)
    show "prev (ls' a) = prev (ls a)" if "a \<in> set (tl (us @ [l]))" for a
      using that assms(3) by (intro prev) (auto simp: ys hd_append tl_append split: list.splits)
  qed
  ultimately show ?thesis
    using chain_append [of ls' us l "[hd ys]"] new by (simp add: ys ring_snoc)
qed

lemma ring_neighbours:
  assumes "ring ls (t # ys)"
  shows "nxt (ls t) = Some (hd (ys @ [t]))" and "prev (ls t) = Some (last (t # ys))"
proof -
  show "nxt (ls t) = Some (hd (ys @ [t]))"
    using assms by (cases ys) (auto simp: ring_def)
  obtain us l where xs: "t # ys = us @ [l]"
    by (cases "t # ys" rule: rev_cases) auto
  have "chain ls ((t # ys) @ [t])"
    using assms by (simp add: ring_def)
  then have "chain ls (us @ l # [t])"
    unfolding xs by simp
  then have "prev (ls t) = Some l"
    using chain_append [of ls us l "[t]"] by simp
  then show "prev (ls t) = Some (last (t # ys))"
    unfolding xs by simp
qed


lemma ring_same:
  assumes "ring ls xs" and "\<And>a. a \<in> set xs \<Longrightarrow> ls' a = ls a"
  shows "ring ls' xs"
  using ring_cong [of xs ls' ls] assms by simp

section \<open>What a queue holds\<close>

definition rq_rep :: "'p links \<Rightarrow> 'p ready_queue \<Rightarrow> (nat \<Rightarrow> 'p list) \<Rightarrow> bool" where
  "rq_rep ls q f \<longleftrightarrow>
     length (rq_heads q) = PRIORITY_LEVELS
     \<and> (\<forall>l<PRIORITY_LEVELS.
          rq_heads q ! l = (if f l = [] then None else Some (hd (f l)))
          \<and> (bit (rq_mask q) l \<longleftrightarrow> f l \<noteq> []) \<and> ring ls (f l) \<and> distinct (f l))
     \<and> (\<forall>l. \<forall>t\<in>set (f l). level (ls t) = l \<and> link_is_queued (ls t) \<and> 1 \<le> l \<and> l < PRIORITY_LEVELS)"

text \<open>What an operation on \<open>t\<close> among the items \<open>S\<close> leaves alone.\<close>

definition links_frame :: "'p links \<Rightarrow> 'p links \<Rightarrow> 'p \<Rightarrow> 'p set \<Rightarrow> bool" where
  "links_frame ls ls' t S \<longleftrightarrow>
     (\<forall>p. level (ls' p) = level (ls p) \<and> link_owner_at (ls' p) = link_owner_at (ls p)
        \<and> (p \<noteq> t \<longrightarrow> queued (ls' p) = queued (ls p))
        \<and> (p \<noteq> t \<longrightarrow> p \<notin> S \<longrightarrow> ls' p = ls p))"

lemma link_is_queued_bit: "link_is_queued l \<longleftrightarrow> bit (queued l) 0"
  by (simp add: link_is_queued_def QUEUED_def and_one_eq odd_iff_mod_2_eq_one bit_0)

lemma drop_low_bit:
  "drop_bit 1 (w OR 1) = drop_bit 1 w" "drop_bit 1 (w AND NOT 1) = drop_bit 1 w" for w :: u8
proof -
  have "bit (w OR 1) (Suc n) = bit w (Suc n)" for n
    by (simp add: bit_or_iff bit_1_iff)
  then show "drop_bit 1 (w OR 1) = drop_bit 1 w"
    by (intro bit_eqI) (simp only: bit_drop_bit_eq comp_def plus_1_eq_Suc)
  have "bit (w AND NOT 1) (Suc n) = bit w (Suc n)" for n
    by (simp only: bit_and_iff bit_not_iff bit_1_iff possible_bit_word) (auto dest: bit_imp_le_length)
  then show "drop_bit 1 (w AND NOT 1) = drop_bit 1 w"
    by (intro bit_eqI) (simp only: bit_drop_bit_eq comp_def plus_1_eq_Suc)
qed

lemma queued_flag [simp]:
  "link_is_queued (l\<lparr>queued := queued l OR QUEUED\<rparr>)"
  "\<not> link_is_queued (l\<lparr>queued := queued l AND NOT QUEUED\<rparr>)"
  "link_owner_at (l\<lparr>queued := queued l OR QUEUED\<rparr>) = link_owner_at l"
  "link_owner_at (l\<lparr>queued := queued l AND NOT QUEUED\<rparr>) = link_owner_at l"
  using drop_low_bit [of "queued l"]
  by (simp_all add: link_is_queued_bit QUEUED_def link_owner_at_def even_or_iff even_and_iff bit_0)

lemma link_fields [simp]:
  "link_is_queued (l\<lparr>prev := p\<rparr>) = link_is_queued l"
  "link_is_queued (l\<lparr>nxt := p\<rparr>) = link_is_queued l"
  "link_is_queued (l\<lparr>level := n\<rparr>) = link_is_queued l"
  "link_owner_at (l\<lparr>prev := p\<rparr>) = link_owner_at l"
  "link_owner_at (l\<lparr>nxt := p\<rparr>) = link_owner_at l"
  "link_owner_at (l\<lparr>level := n\<rparr>) = link_owner_at l"
  by (simp_all add: link_is_queued_def link_owner_at_def)

lemma rq_repD:
  assumes "rq_rep ls q f"
  shows "length (rq_heads q) = 64"
    and "l < 64 \<Longrightarrow> rq_heads q ! l = (if f l = [] then None else Some (hd (f l)))"
    and "l < 64 \<Longrightarrow> bit (rq_mask q) l \<longleftrightarrow> f l \<noteq> []"
    and "l < 64 \<Longrightarrow> ring ls (f l)" and "distinct (f l)"
    and "t \<in> set (f l) \<Longrightarrow> level (ls t) = l" and "t \<in> set (f l) \<Longrightarrow> link_is_queued (ls t)"
    and "t \<in> set (f l) \<Longrightarrow> 1 \<le> l" and "t \<in> set (f l) \<Longrightarrow> l < 64"
  using assms by (auto simp: rq_rep_def PRIORITY_LEVELS_def) (metis distinct.simps(1) list.set_intros(1) neq_Nil_conv)

lemma rq_repI:
  assumes "length (rq_heads q) = 64"
    and "\<And>l. l < 64 \<Longrightarrow> rq_heads q ! l = (if f l = [] then None else Some (hd (f l)))"
    and "\<And>l. l < 64 \<Longrightarrow> bit (rq_mask q) l \<longleftrightarrow> f l \<noteq> []"
    and "\<And>l. l < 64 \<Longrightarrow> ring ls (f l)" and "\<And>l. distinct (f l)"
    and "\<And>l t. t \<in> set (f l) \<Longrightarrow> level (ls t) = l \<and> link_is_queued (ls t) \<and> 1 \<le> l \<and> l < 64"
  shows "rq_rep ls q f"
  using assms by (simp add: rq_rep_def PRIORITY_LEVELS_def)

lemma rq_rep_cong:
  assumes "rq_rep ls q f" and "\<And>l t. t \<in> set (f l) \<Longrightarrow> ls' t = ls t"
  shows "rq_rep ls' q f"
proof (rule rq_repI)
  show "ring ls' (f l)" if "l < 64" for l
    using assms(2) by (rule ring_same [OF rq_repD(4) [OF assms(1) that]])
qed (use rq_repD [OF assms(1)] assms(2) in auto)


lemma bound_in_queue:
  assumes "rq_rep ls q f" and "\<not> link_is_queued (ls t)"
  shows "t \<notin> set (f l)"
  using rq_repD(7) [OF assms(1)] assms(2) by blast

lemma rep_link_last:
  assumes rep: "rq_rep ls q f" and free: "\<not> link_is_queued (ls t)"
    and lvl: "level (ls t) = lvl" "1 \<le> lvl" "lvl < 64"
  obtains ls' q' where "rq_link_last ls q t lvl = Some (ls', q')"
    and "rq_rep ls' q' (f(lvl := f lvl @ [t]))" and "links_frame ls ls' t (set (f lvl))"
    and "link_is_queued (ls' t)"
proof (cases "f lvl = []")
  case True
  let ?l = "(ls t)\<lparr>queued := queued (ls t) OR QUEUED, prev := Some t, nxt := Some t\<rparr>"
  let ?ls = "ls(t := ?l)"
  let ?q = "q\<lparr>rq_heads := (rq_heads q)[lvl := Some t], rq_mask := rq_mask q OR push_bit lvl 1\<rparr>"
  have out: "t \<notin> set (f l)" for l
    using bound_in_queue [OF rep free] .
  have "rq_link_last ls q t lvl = Some (?ls, ?q)"
    using rq_repD(1,2) [OF rep] free lvl True by (simp add: rq_link_last_def)
  moreover have "rq_rep ?ls ?q (f(lvl := f lvl @ [t]))"
  proof (rule rq_repI)
    show "ring ?ls ((f(lvl := f lvl @ [t])) l)" if "l < 64" for l
    proof (cases "l = lvl")
      case False
      then show ?thesis
        using out [of l] by (auto intro: ring_same [OF rq_repD(4) [OF rep that]])
    qed (simp add: True ring_def)
    show "bit (rq_mask ?q) l = ((f(lvl := f lvl @ [t])) l \<noteq> [])" if "l < 64" for l
      using rq_repD(3) [OF rep that] lvl bit_or_push_one [of "rq_mask q" lvl l] by auto
  qed (use rq_repD [OF rep] lvl out True in \<open>auto simp: nth_list_update split: if_splits\<close>)
  moreover have "links_frame ls ?ls t (set (f lvl))"
    by (auto simp: links_frame_def)
  ultimately show ?thesis
    using that by auto
next
  case False
  let ?xs = "f lvl"
  obtain h ys where xs: "?xs = h # ys"
    using False by (cases ?xs) auto
  have out: "t \<notin> set (f l)" for l
    using bound_in_queue [OF rep free] .
  have ring: "ring ls ?xs" and dist: "distinct ?xs"
    using rq_repD(4,5) [OF rep] lvl by auto
  have prev_h: "prev (ls h) = Some (last ?xs)"
    using ring_neighbours(2) [of ls h ys] ring by (simp add: xs)
  let ?ls0 = "ls(t := (ls t)\<lparr>queued := queued (ls t) OR QUEUED, prev := Some (last ?xs), nxt := Some h\<rparr>)"
  let ?ls1 = "?ls0(last ?xs := (?ls0 (last ?xs))\<lparr>nxt := Some t\<rparr>)"
  let ?ls = "?ls1(h := (?ls1 h)\<lparr>prev := Some t\<rparr>)"
  define ls' where "ls' = ?ls"
  have th: "t \<noteq> h" "t \<noteq> last ?xs" "h \<in> set ?xs" "last ?xs \<in> set ?xs"
    using out [of lvl] xs False by auto
  have "rq_link_last ls q t lvl = Some (ls', q)"
    using rq_repD(1,2) [OF rep] free lvl False th(1) prev_h by (simp add: rq_link_last_def xs ls'_def)
  moreover have fields: "level (ls' p) = level (ls p)" "link_is_queued (ls' p) \<longleftrightarrow> p = t \<or> link_is_queued (ls p)"
      "link_owner_at (ls' p) = link_owner_at (ls p)" "p \<noteq> t \<Longrightarrow> queued (ls' p) = queued (ls p)"
      "p \<noteq> t \<Longrightarrow> p \<notin> set ?xs \<Longrightarrow> ls' p = ls p" for p
    using th by (auto simp: ls'_def)
  moreover have "rq_rep ls' q (f(lvl := f lvl @ [t]))"
  proof (rule rq_repI)
    show "ring ls' ((f(lvl := f lvl @ [t])) l)" if "l < 64" for l
    proof (cases "l = lvl")
      case True
      have "ring ls' (?xs @ [t])"
        by (rule ring_append_item [OF ring False dist out]) (use th out [of lvl] in \<open>auto simp: xs ls'_def\<close>)
      with True show ?thesis by simp
    next
      case False
      have "ring ls' (f l)"
      proof (rule ring_same [OF rq_repD(4) [OF rep that]])
        show "ls' a = ls a" if "a \<in> set (f l)" for a
          using that rq_repD(6) [OF rep] False out by (intro fields(5)) metis+
      qed
      with False show ?thesis by simp
    qed
    show "level (ls' p) = l \<and> link_is_queued (ls' p) \<and> 1 \<le> l \<and> l < 64"
      if "p \<in> set ((f(lvl := f lvl @ [t])) l)" for l p
      using that rq_repD(6-9) [OF rep] lvl fields(1,2) by (auto split: if_splits)
  qed (use rq_repD [OF rep] lvl out False in auto)
  moreover have "links_frame ls ls' t (set ?xs)"
    using fields by (auto simp: links_frame_def)
  ultimately show ?thesis
    using that by auto
qed


lemma rq_level_ok: "1 \<le> level (ls t) \<Longrightarrow> level (ls t) < 64 \<Longrightarrow> rq_level ls t = Some (level (ls t))"
  by (simp add: rq_level_def PRIORITY_LEVELS_def)

lemma rep_push_tail:
  assumes rep: "rq_rep ls q f" and free: "\<not> link_is_queued (ls t)"
    and lvl: "1 \<le> level (ls t)" "level (ls t) < 64"
  obtains ls' q' where "rq_push_tail ls q t = Some (ls', q')"
    and "rq_rep ls' q' (f(level (ls t) := f (level (ls t)) @ [t]))"
    and "links_frame ls ls' t (set (f (level (ls t))))" and "link_is_queued (ls' t)"
  using rep_link_last [OF rep free refl lvl] lvl by (auto simp: rq_push_tail_def rq_level_ok)

lemma rep_push_head:
  assumes rep: "rq_rep ls q f" and free: "\<not> link_is_queued (ls t)"
    and lvl: "1 \<le> level (ls t)" "level (ls t) < 64"
  obtains ls' q' where "rq_push_head ls q t = Some (ls', q')"
    and "rq_rep ls' q' (f(level (ls t) := t # f (level (ls t))))"
    and "links_frame ls ls' t (set (f (level (ls t))))" and "link_is_queued (ls' t)"
proof -
  let ?l = "level (ls t)"
  obtain ls' q' where push: "rq_link_last ls q t ?l = Some (ls', q')"
    and rep': "rq_rep ls' q' (f(?l := f ?l @ [t]))"
    and frame: "links_frame ls ls' t (set (f ?l))" "link_is_queued (ls' t)"
    using rep_link_last [OF rep free refl lvl] by blast
  let ?q = "q'\<lparr>rq_heads := (rq_heads q')[?l := Some t]\<rparr>"
  have "rq_push_head ls q t = Some (ls', ?q)"
    using push lvl rq_repD(1) [OF rep'] by (simp add: rq_push_head_def rq_level_ok)
  moreover have "rq_rep ls' ?q (f(?l := t # f ?l))"
  proof (rule rq_repI)
    show "ring ls' ((f(?l := t # f ?l)) l)" if "l < 64" for l
      using rq_repD(4) [OF rep' that] ring_rotate [of ls' "f ?l" "[t]"] by (auto split: if_splits)
    show "rq_heads ?q ! l = (if (f(?l := t # f ?l)) l = [] then None
        else Some (hd ((f(?l := t # f ?l)) l)))" if "l < 64" for l
      using rq_repD(1,2) [OF rep'] that by (auto simp: nth_list_update split: if_splits)
    show "bit (rq_mask ?q) l = ((f(?l := t # f ?l)) l \<noteq> [])" if "l < 64" for l
      using rq_repD(3) [OF rep' that] by (auto split: if_splits)
    show "distinct ((f(?l := t # f ?l)) l)" for l
      using rq_repD(5) [OF rep', of l] by (auto split: if_splits)
    show "level (ls' p) = l \<and> link_is_queued (ls' p) \<and> 1 \<le> l \<and> l < 64"
      if "p \<in> set ((f(?l := t # f ?l)) l)" for l p
      using that rq_repD(6-9) [OF rep', of p l] by (auto split: if_splits)
  qed (use rq_repD(1) [OF rep'] in simp)
  ultimately show ?thesis
    using that frame by blast
qed

lemma rep_remove:
  assumes rep: "rq_rep ls q f" and t: "t \<in> set (f lvl)"
  obtains ls' q' where "rq_remove ls q t = Some (ls', q')"
    and "rq_rep ls' q' (f(lvl := remove1 t (f lvl)))"
    and "links_frame ls ls' t (set (f lvl))" and "\<not> link_is_queued (ls' t)"
    and "prev (ls' t) = None" and "nxt (ls' t) = None"
proof -
  have lvl: "level (ls t) = lvl" "1 \<le> lvl" "lvl < 64" "link_is_queued (ls t)"
    using rq_repD(6-9) [OF rep t] by auto
  have ring: "ring ls (f lvl)" and dist: "distinct (f lvl)"
    using rq_repD(4,5) [OF rep] lvl by auto
  obtain as bs where xs: "f lvl = as @ t # bs" and rem: "remove1 t (f lvl) = as @ bs"
    and out: "t \<notin> set as" "t \<notin> set bs"
    using remove1_split [OF dist t] by blast
  let ?ys = "bs @ as"
  have ring': "ring ls (t # ?ys)"
    using ring ring_rotate [of ls as "t # bs"] by (simp add: xs)
  have dist': "distinct (t # ?ys)"
    using dist by (auto simp: xs)
  note nb = ring_neighbours [OF ring']
  let ?p = "last (t # ?ys)" and ?n = "hd (?ys @ [t])"
  let ?ls0 = "ls(t := (ls t)\<lparr>queued := queued (ls t) AND NOT QUEUED, prev := None, nxt := None\<rparr>)"
  have others: "a \<noteq> t \<and> a \<notin> set (f lvl)" if "a \<in> set (f l)" "l \<noteq> lvl" for a l
    using that rq_repD(6) [OF rep] t by metis
  show ?thesis
  proof (cases "?ys = []")
    case True
    let ?q = "q\<lparr>rq_heads := (rq_heads q)[lvl := None], rq_mask := rq_mask q AND NOT (push_bit lvl 1)\<rparr>"
    have "rq_remove ls q t = Some (?ls0, ?q)"
      using lvl nb True rq_repD(1) [OF rep] by (simp add: rq_remove_def rq_level_ok)
    moreover have "rq_rep ?ls0 ?q (f(lvl := remove1 t (f lvl)))"
    proof (rule rq_repI)
      show "ring ?ls0 ((f(lvl := remove1 t (f lvl))) l)" if "l < 64" for l
        using True rem others by (auto simp: ring_def [of _ "[]"] intro: ring_same [OF rq_repD(4) [OF rep that]])
      show "bit (rq_mask ?q) l = ((f(lvl := remove1 t (f lvl))) l \<noteq> [])" if "l < 64" for l
        using rq_repD(3) [OF rep that] True rem bit_and_not_push_one [of "rq_mask q" lvl l] by auto
    qed (use rq_repD [OF rep] lvl True rem others in \<open>auto simp: nth_list_update split: if_splits\<close>)
    moreover have "links_frame ls ?ls0 t (set (f lvl))"
      by (auto simp: links_frame_def)
    ultimately show ?thesis
      using that by auto
  next
    case False
    let ?ls1 = "?ls0(?p := (?ls0 ?p)\<lparr>nxt := Some ?n\<rparr>)"
    let ?ls = "?ls1(?n := (?ls1 ?n)\<lparr>prev := Some ?p\<rparr>)"
    define ls' where "ls' = ?ls"
    let ?q = "if rq_heads q ! lvl = Some t then q\<lparr>rq_heads := (rq_heads q)[lvl := Some ?n]\<rparr> else q"
    have nt: "?n \<noteq> t" "?p \<noteq> t" "?n = hd ?ys" "?p = last ?ys" "?n \<in> set (f lvl)" "?p \<in> set (f lvl)"
      using False dist' last_in_set [OF False] hd_in_set [OF False]
        hd_append2 [OF False, of "[t]"] by (auto simp: xs)
    have "rq_remove ls q t = Some (ls', ?q)"
      using lvl nb nt(1) rq_repD(1) [OF rep] by (simp add: rq_remove_def rq_level_ok Let_def ls'_def)
    moreover have fields: "level (ls' a) = level (ls a)"
        "link_owner_at (ls' a) = link_owner_at (ls a)" "a \<noteq> t \<Longrightarrow> queued (ls' a) = queued (ls a)"
        "a \<noteq> t \<Longrightarrow> link_is_queued (ls' a) = link_is_queued (ls a)"
        "a \<notin> set (f lvl) \<Longrightarrow> ls' a = ls a" for a
      using nt t by (auto simp: ls'_def)
    moreover have "rq_rep ls' ?q (f(lvl := remove1 t (f lvl)))"
    proof (rule rq_repI)
      show "ring ls' ((f(lvl := remove1 t (f lvl))) l)" if "l < 64" for l
      proof (cases "l = lvl")
        case True
        have "ring ls' ?ys"
          by (rule ring_drop_head [OF ring' False dist']) (use nt dist' in \<open>auto simp: ls'_def\<close>)
        then have "ring ls' (as @ bs)"
          by (rule ring_rotate [THEN iffD1])
        then show ?thesis
          unfolding True fun_upd_same rem .
      next
        case False
        have "ring ls' (f l)"
        proof (rule ring_same [OF rq_repD(4) [OF rep that]])
          show "ls' a = ls a" if "a \<in> set (f l)" for a
            using others [OF that False] by (intro fields(5)) simp
        qed
        with False show ?thesis by simp
      qed
      show "rq_heads ?q ! l = (if (f(lvl := remove1 t (f lvl))) l = [] then None
          else Some (hd ((f(lvl := remove1 t (f lvl))) l)))" if "l < 64" for l
        using rq_repD(1,2) [OF rep] that lvl rem False out nt
        by (cases as) (auto simp: nth_list_update xs)
      show "bit (rq_mask ?q) l = ((f(lvl := remove1 t (f lvl))) l \<noteq> [])" if "l < 64" for l
        using rq_repD(3) [OF rep that] rem False xs by auto
      show "level (ls' p) = l \<and> link_is_queued (ls' p) \<and> 1 \<le> l \<and> l < 64"
        if p: "p \<in> set ((f(lvl := remove1 t (f lvl))) l)" for l p
      proof -
        have "p \<in> set (f l) \<and> p \<noteq> t"
          using p rem out others [of p l] by (auto simp: xs split: if_splits)
        then show ?thesis
          using rq_repD(6-9) [OF rep, of p l] fields(1,4) [of p] by simp
      qed
    qed (use rq_repD(1,5) [OF rep] in auto)
    moreover have "links_frame ls ls' t (set (f lvl))"
      using fields by (auto simp: links_frame_def)
    moreover have "\<not> link_is_queued (ls' t)" "prev (ls' t) = None" "nxt (ls' t) = None"
      using nt(1,2) by (auto simp: ls'_def)
    ultimately show ?thesis
      using that by blast
  qed
qed


lemma rep_new: "rq_rep ls rq_new (\<lambda>_. [])"
  by (simp add: rq_rep_def rq_new_def PRIORITY_LEVELS_def ring_def)

text \<open>Moving an item to another level: behind the others when it rises, before them when it drops.\<close>

definition moved :: "'p \<Rightarrow> nat \<Rightarrow> nat \<Rightarrow> (nat \<Rightarrow> 'p list) \<Rightarrow> nat \<Rightarrow> 'p list" where
  "moved t old lvl f =
     (if lvl = old then f
      else f(old := remove1 t (f old), lvl := if lvl > old then f lvl @ [t] else t # f lvl))"

lemma rep_move_to:
  assumes rep: "rq_rep ls q f" and t: "t \<in> set (f old)" and lvl: "1 \<le> lvl" "lvl < 64"
  obtains ls' q' where "rq_move_to ls q t lvl = Some (ls', q')"
    and "rq_rep ls' q' (moved t old lvl f)" and "level (ls' t) = lvl" and "link_is_queued (ls' t)"
    and "\<And>p. link_owner_at (ls' p) = link_owner_at (ls p)"
    and "\<And>p. p \<noteq> t \<Longrightarrow> level (ls' p) = level (ls p) \<and> queued (ls' p) = queued (ls p)"
    and "\<And>p. p \<noteq> t \<Longrightarrow> p \<notin> set (f old) \<Longrightarrow> p \<notin> set (f lvl) \<Longrightarrow> ls' p = ls p"
proof (cases "lvl = old")
  case True
  then show ?thesis
    using that [of ls q] rep rq_repD(6,7) [OF rep t] by (simp add: rq_move_to_def moved_def)
next
  case False
  let ?f = "f(old := remove1 t (f old))"
  obtain ls1 q1 where rm: "rq_remove ls q t = Some (ls1, q1)" "rq_rep ls1 q1 ?f"
    "links_frame ls ls1 t (set (f old))" "\<not> link_is_queued (ls1 t)"
    using rep_remove [OF rep t] by blast
  define ls2 where "ls2 = ls1(t := (ls1 t)\<lparr>level := lvl\<rparr>)"
  have out: "t \<notin> set (?f l)" for l
    using bound_in_queue [OF rm(2,4)] .
  have "rq_rep ls2 q1 ?f"
    using out by (intro rq_rep_cong [OF rm(2)]) (metis fun_upd_other ls2_def)
  then have ls2: "rq_rep ls2 q1 ?f" "\<not> link_is_queued (ls2 t)" "level (ls2 t) = lvl"
    using rm(4) by (simp_all add: ls2_def)
  have start: "rq_move_to ls q t lvl =
      (if lvl > old then rq_push_tail ls2 q1 t else rq_push_head ls2 q1 t)"
    using False rq_repD(6) [OF rep t] rm(1,4) by (simp add: rq_move_to_def link_set_level_def ls2_def)
  have frame: "rq_move_to ls q t lvl = Some (ls', q') \<Longrightarrow> rq_rep ls' q' (moved t old lvl f) \<Longrightarrow>
      links_frame ls2 ls' t (set (?f lvl)) \<Longrightarrow> link_is_queued (ls' t) \<Longrightarrow> thesis" for ls' q'
    using that [of ls' q'] rm(3) False ls2(3) by (auto simp: links_frame_def ls2_def)
  show ?thesis
  proof (cases "lvl > old")
    case True
    then show ?thesis
      using rep_push_tail [OF ls2(1,2)] ls2(3) lvl start False frame by (auto simp: moved_def)
  next
    case less: False
    then show ?thesis
      using rep_push_head [OF ls2(1,2)] ls2(3) lvl start False frame by (auto simp: moved_def)
  qed
qed

section \<open>What a list of parked threads holds\<close>

definition parked_rep :: "'p links \<Rightarrow> 'p option \<Rightarrow> 'p list \<Rightarrow> bool" where
  "parked_rep ls head xs \<longleftrightarrow>
     head = (if xs = [] then None else Some (hd xs)) \<and> ring ls xs \<and> distinct xs
     \<and> (\<forall>t\<in>set xs. \<not> link_is_queued (ls t))"

lemma ring_linked:
  assumes "ring ls xs" and "t \<in> set xs"
  shows "nxt (ls t) \<noteq> None"
proof -
  obtain as bs where "xs = as @ t # bs"
    using assms(2) by (auto simp: in_set_conv_decomp)
  then have "ring ls (t # bs @ as)"
    using assms(1) ring_rotate [of ls as "t # bs"] by simp
  then show ?thesis
    using ring_neighbours(1) by fastforce
qed

lemma parked_push_rep:
  assumes rep: "parked_rep ls head xs" and free: "\<not> link_is_queued (ls t)" "nxt (ls t) = None"
  obtains ls' head' where "parked_push ls head t = Some (ls', head')"
    and "parked_rep ls' head' (xs @ [t])" and "links_frame ls ls' t (set xs)"
proof (cases xs)
  case Nil
  then show ?thesis
    using rep free by (intro that [of "ls(t := (ls t)\<lparr>prev := Some t, nxt := Some t\<rparr>)" "Some t"])
      (auto simp: parked_rep_def parked_push_def ring_def links_frame_def)
next
  case (Cons h ys)
  have ring: "ring ls xs" and dist: "distinct xs" and head: "head = Some h"
    using rep by (auto simp: parked_rep_def Cons)
  have out: "t \<notin> set xs"
    using ring_linked [OF ring] free(2) by blast
  have ne: "xs \<noteq> []"
    by (simp add: Cons)
  let ?ls0 = "ls(t := (ls t)\<lparr>prev := Some (last xs), nxt := Some h\<rparr>)"
  let ?ls1 = "?ls0(last xs := (?ls0 (last xs))\<lparr>nxt := Some t\<rparr>)"
  define ls' where "ls' = ?ls1(h := (?ls1 h)\<lparr>prev := Some t\<rparr>)"
  have th: "t \<noteq> h" "t \<noteq> last xs" "h \<in> set xs" "last xs \<in> set xs"
    using out last_in_set [OF ne] by (auto simp: Cons)
  have "prev (ls h) = Some (last xs)"
    using ring_neighbours(2) [of ls h ys] ring by (simp add: Cons)
  then have "parked_push ls head t = Some (ls', head)"
    using free th(1) by (simp add: parked_push_def head ls'_def)
  moreover have "ring ls' (xs @ [t])"
    by (rule ring_append_item [OF ring ne dist out]) (use th out in \<open>auto simp: ls'_def Cons\<close>)
  then have "parked_rep ls' head (xs @ [t])"
    using rep free th out by (auto simp: parked_rep_def ls'_def Cons)
  moreover have "links_frame ls ls' t (set xs)"
    using th by (auto simp: links_frame_def ls'_def)
  ultimately show ?thesis
    using that by blast
qed

lemma parked_remove_rep:
  assumes rep: "parked_rep ls head xs" and t: "t \<in> set xs"
  obtains ls' head' where "parked_remove ls head t = Some (ls', head')"
    and "parked_rep ls' head' (remove1 t xs)" and "links_frame ls ls' t (set xs)"
    and "\<not> link_is_queued (ls' t)" and "prev (ls' t) = None" and "nxt (ls' t) = None"
proof -
  have ring: "ring ls xs" and dist: "distinct xs"
    using rep by (auto simp: parked_rep_def)
  obtain as bs where xs: "xs = as @ t # bs" and rem: "remove1 t xs = as @ bs"
    and out: "t \<notin> set as" "t \<notin> set bs"
    using remove1_split [OF dist t] by blast
  let ?ys = "bs @ as"
  have ring': "ring ls (t # ?ys)"
    using ring ring_rotate [of ls as "t # bs"] by (simp add: xs)
  have dist': "distinct (t # ?ys)"
    using dist by (auto simp: xs)
  note nb = ring_neighbours [OF ring']
  let ?p = "last (t # ?ys)" and ?n = "hd (?ys @ [t])"
  let ?ls0 = "ls(t := (ls t)\<lparr>prev := None, nxt := None\<rparr>)"
  show ?thesis
  proof (cases "?ys = []")
    case True
    then show ?thesis
      using rep nb by (intro that [of ?ls0 None])
        (auto simp: parked_rep_def parked_remove_def ring_def links_frame_def xs)
  next
    case False
    let ?ls1 = "?ls0(?p := (?ls0 ?p)\<lparr>nxt := Some ?n\<rparr>)"
    define ls' where "ls' = ?ls1(?n := (?ls1 ?n)\<lparr>prev := Some ?p\<rparr>)"
    have nt: "?n \<noteq> t" "?p \<noteq> t" "?n = hd ?ys" "?p = last ?ys" "?n \<in> set xs" "?p \<in> set xs"
      using False dist' last_in_set [OF False] hd_in_set [OF False]
        hd_append2 [OF False, of "[t]"] by (auto simp: xs)
    let ?head = "if head = Some t then Some ?n else head"
    have "parked_remove ls head t = Some (ls', ?head)"
      using nb nt(1) by (simp add: parked_remove_def Let_def ls'_def)
    moreover have "ring ls' ?ys"
      by (rule ring_drop_head [OF ring' False dist']) (use nt dist' in \<open>auto simp: ls'_def\<close>)
    then have "ring ls' (remove1 t xs)"
      unfolding rem by (rule ring_rotate [THEN iffD1])
    moreover have "link_is_queued (ls' a) = link_is_queued (ls a)" for a
      using nt by (auto simp: ls'_def)
    moreover have "?head = (if remove1 t xs = [] then None else Some (hd (remove1 t xs)))"
      using rep False nt(3) out unfolding rem by (cases as) (auto simp: parked_rep_def xs)
    ultimately have "parked_rep ls' ?head (remove1 t xs)"
      using rep by (auto simp: parked_rep_def dest: notin_set_remove1)
    moreover have "links_frame ls ls' t (set xs)" "prev (ls' t) = None" "nxt (ls' t) = None"
        "\<not> link_is_queued (ls' t)"
      using nt t rep by (auto simp: links_frame_def ls'_def parked_rep_def)
    ultimately show ?thesis
      using that \<open>parked_remove ls head t = Some (ls', ?head)\<close> by blast
  qed
qed

section \<open>The interface of the queue\<close>

text \<open>
  What the clients of a queue by levels rely on: \<open>rep s f\<close> says that in state
  \<open>s\<close> the items \<open>f l\<close> stand at level \<open>l\<close>, in order. The state of the
  implementation is the store of the links and the queue.
\<close>

locale level_queue =
  fixes rep :: "'s \<Rightarrow> (nat \<Rightarrow> 'p list) \<Rightarrow> bool"
    and lvl :: "'s \<Rightarrow> 'p \<Rightarrow> nat"
    and free :: "'s \<Rightarrow> 'p \<Rightarrow> bool"
    and levels :: nat
    and top :: "'s \<Rightarrow> nat option"
    and first :: "'s \<Rightarrow> nat \<Rightarrow> 'p option option"
    and push_tail :: "'s \<Rightarrow> 'p \<Rightarrow> 's option"
    and push_head :: "'s \<Rightarrow> 'p \<Rightarrow> 's option"
    and remove :: "'s \<Rightarrow> 'p \<Rightarrow> 's option"
  assumes in_level: "rep s f \<Longrightarrow> t \<in> set (f l) \<Longrightarrow> lvl s t = l \<and> \<not> free s t \<and> 0 < l \<and> l < levels"
    and once: "rep s f \<Longrightarrow> distinct (f l)"
    and top_None: "rep s f \<Longrightarrow> top s = None \<longleftrightarrow> (\<forall>l. f l = [])"
    and top_Some: "rep s f \<Longrightarrow> top s = Some l \<Longrightarrow> f l \<noteq> [] \<and> (\<forall>k. f k \<noteq> [] \<longrightarrow> k \<le> l)"
    and first_head: "rep s f \<Longrightarrow> f l \<noteq> [] \<Longrightarrow> first s l = Some (Some (hd (f l)))"
    and push_tail_ok: "rep s f \<Longrightarrow> free s t \<Longrightarrow> 0 < lvl s t \<Longrightarrow> lvl s t < levels \<Longrightarrow>
      \<exists>s'. push_tail s t = Some s' \<and> rep s' (f(lvl s t := f (lvl s t) @ [t]))"
    and push_head_ok: "rep s f \<Longrightarrow> free s t \<Longrightarrow> 0 < lvl s t \<Longrightarrow> lvl s t < levels \<Longrightarrow>
      \<exists>s'. push_head s t = Some s' \<and> rep s' (f(lvl s t := t # f (lvl s t)))"
    and remove_ok: "rep s f \<Longrightarrow> t \<in> set (f l) \<Longrightarrow>
      \<exists>s'. remove s t = Some s' \<and> rep s' (f(l := remove1 t (f l)))"
begin

text \<open>Every queue that is not empty has a top level.\<close>

lemma top_exists:
  assumes "rep s f" and "f k \<noteq> []"
  obtains l where "top s = Some l" and "f l \<noteq> []" and "k \<le> l"
proof (cases "top s")
  case None
  then show ?thesis using top_None [OF assms(1)] assms(2) by auto
next
  case (Some l)
  then show ?thesis using top_Some [OF assms(1) Some] assms(2) that by auto
qed

text \<open>Taking the head of the top level: the item longest at the highest level.\<close>

lemma pop_top:
  assumes "rep s f" and "top s = Some l"
  obtains t ts s' where "f l = t # ts" and "first s l = Some (Some t)"
    and "remove s t = Some s'" and "rep s' (f(l := ts))"
    and "\<And>k u. u \<in> set (f k) \<Longrightarrow> k \<le> l"
proof -
  obtain t ts where f: "f l = t # ts"
    using top_Some [OF assms] by (cases "f l") auto
  obtain s' where "remove s t = Some s'" "rep s' (f(l := remove1 t (f l)))"
    using remove_ok [OF assms(1), of t l] f by auto
  moreover have "first s l = Some (Some t)"
    using first_head [OF assms(1), of l] f by simp
  moreover have "k \<le> l" if "u \<in> set (f k)" for k u
    using top_Some [OF assms] that by (metis empty_iff empty_set)
  ultimately show ?thesis
    using that [OF f] f by simp
qed

text \<open>An item stands at one level only.\<close>

lemma one_level: "rep s f \<Longrightarrow> t \<in> set (f l) \<Longrightarrow> t \<in> set (f k) \<Longrightarrow> k = l"
  using in_level by metis

end

abbreviation rq_state_rep :: "'p links \<times> 'p ready_queue \<Rightarrow> (nat \<Rightarrow> 'p list) \<Rightarrow> bool" where
  "rq_state_rep s \<equiv> rq_rep (fst s) (snd s)"

lemma rep_top:
  assumes "rq_rep ls q f"
  shows "rq_top q = None \<longleftrightarrow> (\<forall>l. f l = [])"
    and "rq_top q = Some l \<Longrightarrow> f l \<noteq> [] \<and> (\<forall>k. f k \<noteq> [] \<longrightarrow> k \<le> l)"
proof -
  have bits: "bit (rq_mask q) l \<longleftrightarrow> f l \<noteq> []" for l
  proof (cases "l < 64")
    case False
    then show ?thesis
      using rq_repD(9) [OF assms, of "hd (f l)" l] bit_imp_le_length [of "rq_mask q" l]
      by (cases "f l") auto
  qed (use rq_repD(3) [OF assms] in blast)
  show "rq_top q = None \<longleftrightarrow> (\<forall>l. f l = [])"
    using bits by (auto simp: rq_top_def) (metis bit_0_eq bot_apply bit_eqI bot2E)
  show "f l \<noteq> [] \<and> (\<forall>k. f k \<noteq> [] \<longrightarrow> k \<le> l)" if "rq_top q = Some l"
  proof -
    have "rq_mask q \<noteq> 0" "l = 63 - leading_zeros (rq_mask q)"
      using that by (auto simp: rq_top_def split: if_splits)
    then show ?thesis
      using highest_bit [of "rq_mask q"] bits by auto
  qed
qed

interpretation rq: level_queue rq_state_rep "\<lambda>s t. level (fst s t)"
    "\<lambda>s t. \<not> link_is_queued (fst s t)" 64 "\<lambda>s. rq_top (snd s)" "\<lambda>s. rq_first (snd s)"
    "\<lambda>s. rq_push_tail (fst s) (snd s)" "\<lambda>s. rq_push_head (fst s) (snd s)"
    "\<lambda>s. rq_remove (fst s) (snd s)"
proof (unfold_locales, goal_cases)
  case (1 s f t l)
  then show ?case using rq_repD(6-9) by fastforce
next
  case (2 s f l)
  then show ?case by (rule rq_repD(5))
next
  case (3 s f)
  then show ?case by (rule rep_top(1))
next
  case (4 s f l)
  then show ?case using rep_top(2) by blast
next
  case (5 s f l)
  then have "l < 64" using rq_repD(9) by (metis list.set_intros(1) neq_Nil_conv)
  then show ?case using 5 rq_repD(1,2) [OF 5(1)] by (simp add: rq_first_def)
next
  case (6 s f t)
  then show ?case using rep_push_tail [OF 6(1)] by (metis One_nat_def Suc_leI fst_conv snd_conv)
next
  case (7 s f t)
  then show ?case using rep_push_head [OF 7(1)] by (metis One_nat_def Suc_leI fst_conv snd_conv)
next
  case (8 s f t l)
  then show ?case using rep_remove [OF 8(1)] by (metis fst_conv snd_conv)
qed

section \<open>Refinement\<close>

text \<open>
  The calls a client makes on a queue, and the same calls on the abstract queue: the level of
  every item and the list of items at each level. The abstract queue refuses exactly the calls
  the source forbids its callers: linking an item twice, level 0, removing an item that is
  not there, changing the level of a linked item under the queue.
\<close>

datatype 'p rq_call = Push_Tail 'p | Push_Head 'p | Remove 'p | Move_To 'p nat | Set_Level 'p nat

fun rq_do :: "'p rq_call \<Rightarrow> 'p links \<times> 'p ready_queue \<Rightarrow> ('p links \<times> 'p ready_queue) option" where
  "rq_do (Push_Tail t) (ls, q) = rq_push_tail ls q t"
| "rq_do (Push_Head t) (ls, q) = rq_push_head ls q t"
| "rq_do (Remove t) (ls, q) = rq_remove ls q t"
| "rq_do (Move_To t lvl) (ls, q) = rq_move_to ls q t lvl"
| "rq_do (Set_Level t lvl) (ls, q) = do { l \<leftarrow> link_set_level (ls t) lvl; Some (ls(t := l), q) }"

type_synonym 'p lists = "('p \<Rightarrow> nat) \<times> (nat \<Rightarrow> 'p list)"

fun lists_do :: "'p rq_call \<Rightarrow> 'p lists \<Rightarrow> 'p lists option" where
  "lists_do (Push_Tail t) (lv, f) =
     (if t \<in> set (f (lv t)) \<or> lv t \<notin> {1..63} then None else Some (lv, f(lv t := f (lv t) @ [t])))"
| "lists_do (Push_Head t) (lv, f) =
     (if t \<in> set (f (lv t)) \<or> lv t \<notin> {1..63} then None else Some (lv, f(lv t := t # f (lv t))))"
| "lists_do (Remove t) (lv, f) =
     (if t \<in> set (f (lv t)) then Some (lv, f(lv t := remove1 t (f (lv t)))) else None)"
| "lists_do (Move_To t lvl) (lv, f) =
     (if lvl = lv t then Some (lv, f)
      else if t \<in> set (f (lv t)) \<and> lvl \<in> {1..63} then Some (lv(t := lvl), moved t (lv t) lvl f)
      else None)"
| "lists_do (Set_Level t lvl) (lv, f) =
     (if t \<in> set (f (lv t)) then None else Some (lv(t := lvl), f))"

fun run_calls :: "('c \<Rightarrow> 's \<Rightarrow> 's option) \<Rightarrow> 'c list \<Rightarrow> 's \<Rightarrow> 's option" where
  "run_calls do_call [] s = Some s"
| "run_calls do_call (c # cs) s = Option.bind (do_call c s) (run_calls do_call cs)"

definition rq_refines :: "'p links \<times> 'p ready_queue \<Rightarrow> 'p lists \<Rightarrow> bool" where
  "rq_refines s a \<longleftrightarrow>
     rq_rep (fst s) (snd s) (snd a)
     \<and> (\<forall>t. level (fst s t) = fst a t \<and> (link_is_queued (fst s t) \<longleftrightarrow> t \<in> set (snd a (fst a t))))"

lemma rq_refinesD:
  assumes "rq_refines (ls, q) (lv, f)"
  shows "rq_rep ls q f" and "level (ls t) = lv t" and "link_is_queued (ls t) \<longleftrightarrow> t \<in> set (f (lv t))"
  using assms by (simp_all add: rq_refines_def)

lemma rq_refinesI:
  assumes "rq_rep ls q f" and "\<And>t. level (ls t) = lv t"
    and "\<And>t. link_is_queued (ls t) \<longleftrightarrow> t \<in> set (f (lv t))"
  shows "rq_refines (ls, q) (lv, f)"
  using assms by (simp add: rq_refines_def)

lemma link_queued_cong: "queued l' = queued l \<Longrightarrow> link_is_queued l' = link_is_queued l"
  by (simp add: link_is_queued_def)

text \<open>Linking and unlinking keep the refinement, whichever end of the list is meant.\<close>

lemma refines_link:
  assumes ref: "rq_refines (ls, q) (lv, f)" and rep: "rq_rep ls' q' (f(lv t := xs))"
    and frame: "links_frame ls ls' t S" and flag: "link_is_queued (ls' t) \<longleftrightarrow> t \<in> set xs"
    and xs: "\<And>p. p \<noteq> t \<Longrightarrow> p \<in> set xs \<longleftrightarrow> p \<in> set (f (lv t))"
  shows "rq_refines (ls', q') (lv, f(lv t := xs))"
proof (rule rq_refinesI [OF rep])
  show "level (ls' p) = lv p" for p
    using frame rq_refinesD(2) [OF ref] by (simp add: links_frame_def)
  show "link_is_queued (ls' p) \<longleftrightarrow> p \<in> set ((f(lv t := xs)) (lv p))" for p
  proof (cases "p = t")
    case False
    then have "link_is_queued (ls' p) \<longleftrightarrow> p \<in> set (f (lv p))"
      using frame rq_refinesD(3) [OF ref] link_queued_cong by (metis links_frame_def)
    then show ?thesis
      using xs [OF False] by simp
  qed (use flag in simp)
qed

lemma move_refines:
  assumes ref: "rq_refines (ls, q) (lv, f)"
  shows "rel_option rq_refines (rq_move_to ls q t lvl) (lists_do (Move_To t lvl) (lv, f))"
proof -
  note ref' = rq_refinesD [OF ref]
  consider (same) "lvl = lv t" | (out) "lvl \<noteq> lv t" "t \<notin> set (f (lv t))"
    | (bad) "lvl \<noteq> lv t" "t \<in> set (f (lv t))" "lvl \<notin> {1..63}"
    | (good) "lvl \<noteq> lv t" "t \<in> set (f (lv t))" "lvl \<in> {1..63}"
    by blast
  then show ?thesis
  proof cases
    case same
    then show ?thesis
      using ref ref'(2) by (simp add: rq_move_to_def)
  next
    case out
    then have "rq_remove ls q t = None"
      using ref'(3) [of t] by (cases "rq_level ls t") (auto simp: rq_remove_def)
    then show ?thesis
      using out ref'(2) by (simp add: rq_move_to_def)
  next
    case bad
    obtain ls' q' where "rq_remove ls q t = Some (ls', q')" "\<not> link_is_queued (ls' t)"
      using rep_remove [OF ref'(1) bad(2)] by blast
    then have "rq_move_to ls q t lvl = None"
      using bad ref'(2) by (auto simp: rq_move_to_def link_set_level_def rq_push_tail_def
          rq_push_head_def rq_level_def PRIORITY_LEVELS_def Let_def)
    then show ?thesis
      using bad by simp
  next
    case good
    then have "1 \<le> lvl" "lvl < 64"
      by auto
    from rep_move_to [OF ref'(1) good(2) this]
    obtain ls' q' where move: "rq_move_to ls q t lvl = Some (ls', q')"
        "rq_rep ls' q' (moved t (lv t) lvl f)" "level (ls' t) = lvl" "link_is_queued (ls' t)"
      and frame: "\<And>p. p \<noteq> t \<Longrightarrow> level (ls' p) = level (ls p) \<and> queued (ls' p) = queued (ls p)"
      by metis
    have "rq_refines (ls', q') (lv(t := lvl), moved t (lv t) lvl f)"
    proof (rule rq_refinesI [OF move(2)])
      show "link_is_queued (ls' p) \<longleftrightarrow> p \<in> set (moved t (lv t) lvl f ((lv(t := lvl)) p))" for p
      proof (cases "p = t")
        case False
        then have "link_is_queued (ls' p) \<longleftrightarrow> p \<in> set (f (lv p))"
          using frame ref'(3) link_queued_cong by metis
        then show ?thesis
          using False by (simp add: moved_def)
      qed (use move(4) good(1) in \<open>simp add: moved_def\<close>)
    qed (use move(3) frame ref'(2) in simp)
    then show ?thesis
      using good move(1) by simp
  qed
qed

lemma rq_do_refines:
  assumes ref: "rq_refines s a"
  shows "rel_option rq_refines (rq_do c s) (lists_do c a)"
proof -
  obtain ls q lv f where s: "s = (ls, q)" "a = (lv, f)"
    by (metis surj_pair)
  note ref' = rq_refinesD [OF ref [unfolded s]]
  have range: "lv t \<in> {1..63}" if "t \<in> set (f (lv t))" for t
    using rq_repD(8,9) [OF ref'(1) that] by simp
  have no_level: "rq_level ls t = None \<longleftrightarrow> lv t \<notin> {1..63}" for t
    using ref'(2) by (auto simp: rq_level_def PRIORITY_LEVELS_def)
  show ?thesis
  proof (cases c)
    case (Push_Tail t)
    show ?thesis
    proof (cases "t \<in> set (f (lv t)) \<or> lv t \<notin> {1..63}")
      case True
      then show ?thesis
        using ref'(3) [of t] no_level [of t]
        by (cases "rq_level ls t") (auto simp: s Push_Tail rq_push_tail_def rq_link_last_def)
    next
      case False
      then obtain ls' q' where "rq_push_tail ls q t = Some (ls', q')"
        and "rq_rep ls' q' (f(lv t := f (lv t) @ [t]))" and "links_frame ls ls' t (set (f (lv t)))"
        and "link_is_queued (ls' t)"
        using rep_push_tail [OF ref'(1), of t] ref'(2,3) by auto
      then show ?thesis
        using False refines_link [OF ref [unfolded s], of ls' q' t] by (simp add: s Push_Tail)
    qed
  next
    case (Push_Head t)
    show ?thesis
    proof (cases "t \<in> set (f (lv t)) \<or> lv t \<notin> {1..63}")
      case True
      then show ?thesis
        using ref'(3) [of t] no_level [of t]
        by (cases "rq_level ls t") (auto simp: s Push_Head rq_push_head_def rq_link_last_def)
    next
      case False
      then obtain ls' q' where "rq_push_head ls q t = Some (ls', q')"
        and "rq_rep ls' q' (f(lv t := t # f (lv t)))" and "links_frame ls ls' t (set (f (lv t)))"
        and "link_is_queued (ls' t)"
        using rep_push_head [OF ref'(1), of t] ref'(2,3) by auto
      then show ?thesis
        using False refines_link [OF ref [unfolded s], of ls' q' t] by (simp add: s Push_Head)
    qed
  next
    case (Remove t)
    show ?thesis
    proof (cases "t \<in> set (f (lv t))")
      case True
      then obtain ls' q' where "rq_remove ls q t = Some (ls', q')"
        and "rq_rep ls' q' (f(lv t := remove1 t (f (lv t))))" and "links_frame ls ls' t (set (f (lv t)))"
        and "\<not> link_is_queued (ls' t)"
        using rep_remove [OF ref'(1) True] by blast
      then show ?thesis
        using True refines_link [OF ref [unfolded s], of ls' q' t] rq_repD(5) [OF ref'(1)]
        by (simp add: s Remove)
    next
      case False
      then show ?thesis
        using ref'(3) [of t] by (cases "rq_level ls t") (auto simp: s Remove rq_remove_def)
    qed
  next
    case (Move_To t lvl)
    then show ?thesis
      using move_refines [OF ref [unfolded s]] by (simp add: s)
  next
    case (Set_Level t lvl)
    have "rq_rep (ls(t := (ls t)\<lparr>level := lvl\<rparr>)) q f" if "t \<notin> set (f (lv t))"
      using that ref'(3) rq_repD(7) [OF ref'(1)] by (intro rq_rep_cong [OF ref'(1)]) auto
    moreover have "t \<notin> set (f lvl)" if "t \<notin> set (f (lv t))"
      using that ref'(3) rq_repD(7) [OF ref'(1)] by blast
    ultimately show ?thesis
      using ref' by (auto simp: s Set_Level link_set_level_def intro!: rq_refinesI)
  qed
qed

text \<open>A call that the lists accept goes through on the rings; the levels are those of the links.\<close>

lemma rq_call:
  assumes "rq_refines (ls, q) (\<lambda>t. level (ls t), f)"
    and "lists_do c (\<lambda>t. level (ls t), f) = Some (lv, f')"
  obtains ls' q' where "rq_do c (ls, q) = Some (ls', q')" and "\<And>t. level (ls' t) = lv t"
    and "rq_refines (ls', q') (\<lambda>t. level (ls' t), f')"
    and "\<And>t. link_is_queued (ls' t) \<longleftrightarrow> t \<in> set (f' (lv t))"
proof -
  obtain ls' q' where call: "rq_do c (ls, q) = Some (ls', q')" and ref: "rq_refines (ls', q') (lv, f')"
    using rq_do_refines [OF assms(1), of c] assms(2) by (cases "rq_do c (ls, q)") auto
  have "(\<lambda>t. level (ls' t)) = lv"
    using rq_refinesD(2) [OF ref] by blast
  then show ?thesis
    using that [OF call] ref rq_refinesD(2,3) [OF ref] by simp
qed

text \<open>
  C3. The ring queue is a queue of lists: after any sequence of calls from an empty queue it
  holds, level by level and in order, what the same calls leave in plain lists, its mask and
  heads say which levels are not empty and who is first, and it stops the kernel exactly on
  the calls that break the contract of the queue.
\<close>

theorem ready_queue_refines_lists:
  "rel_option rq_refines
     (run_calls rq_do calls (\<lambda>t. link_new (lv t), rq_new))
     (run_calls lists_do calls (lv, \<lambda>_. []))"
proof -
  have "rel_option rq_refines (run_calls rq_do calls s) (run_calls lists_do calls a)"
    if "rq_refines s a" for s a
    using that
  proof (induction calls arbitrary: s a)
    case (Cons c cs)
    then show ?case
      using rq_do_refines [OF Cons.prems, of c]
      by (cases "rq_do c s"; cases "lists_do c a") auto
  qed simp
  then show ?thesis
    by (simp add: rq_refines_def rep_new link_new_def link_is_queued_def)
qed

end
