(* ===== verification/Scheduler.thy ===== *)
theory Scheduler
  imports Ready_Queue
begin

text \<open>
  The scheduler of \<open>kcore/src/sched.rs\<close>: the ready queue, the running thread, the end of
  its quantum, and the operations the kernel's entries call. A thread is an address
  \<open>'p\<close>; its \<open>Node\<close> is kept in two stores, the \<open>Link\<close> of the ready queue
  and the other fields. Priorities and levels are natural numbers, as in \<open>Ready_Queue\<close>;
  times and ticks are 64-bit words with the saturating operations of the source.

  The invariant of the scheduler and the effect of each operation are in
  \<open>Scheduler_Invariant\<close>, sequences of operations in \<open>Scheduler_Calls\<close>.
\<close>

section \<open>Threads\<close>

datatype state = Stopped | Ready | Running | Waiting | Dead | Parked

record node =
  node_policy :: policy
  node_state :: state
  slice_left :: u64
  base :: nat
  node_boost :: nat
  ran :: u64
  since :: u64

definition node_new :: "nat \<Rightarrow> policy \<Rightarrow> node" where
  "node_new priority policy =
     \<lparr>node_policy = policy, node_state = Stopped, slice_left = 0, base = priority,
      node_boost = 0, ran = 0, since = 0\<rparr>"

definition effective :: "node \<Rightarrow> nat" where
  "effective n = max (base n) (node_boost n)"

definition ran_at :: "node \<Rightarrow> u64 \<Rightarrow> u64" where
  "ran_at n now =
     (if node_state n = Running then saturating_add (ran n) (saturating_sub now (since n))
      else ran n)"

definition is_parked_listed :: "'p link \<Rightarrow> bool" where
  "is_parked_listed l \<longleftrightarrow> \<not> link_is_queued l \<and> nxt l \<noteq> None"

section \<open>The scheduler\<close>

datatype 'p decision = Run 'p | Clean | Idle

record 'p sched =
  links :: "'p links"
  nodes :: "'p \<Rightarrow> node"
  ready :: "'p ready_queue"
  running :: "'p option"
  slice_end :: u64
  quantum :: u64

definition sched_new :: "'p links \<Rightarrow> ('p \<Rightarrow> node) \<Rightarrow> u64 \<Rightarrow> 'p sched" where
  "sched_new ls ns q =
     \<lparr>links = ls, nodes = ns, ready = rq_new, running = None, slice_end = 0, quantum = q\<rparr>"

definition set_quantum :: "'p sched \<Rightarrow> u64 \<Rightarrow> 'p sched option" where
  "set_quantum s q = do { ensure (q > 0); Some (s\<lparr>quantum := q\<rparr>) }"

definition upd_node :: "'p \<Rightarrow> (node \<Rightarrow> node) \<Rightarrow> 'p sched \<Rightarrow> 'p sched" where
  "upd_node t g s = s\<lparr>nodes := (nodes s)(t := g (nodes s t))\<rparr>"

definition priority :: "'p sched \<Rightarrow> 'p \<Rightarrow> nat" where
  "priority s t = level (links s t)"

text \<open>The operations of the ready queue on the scheduler's own queue and links.\<close>

definition ready_push_tail :: "'p sched \<Rightarrow> 'p \<Rightarrow> 'p sched option" where
  "ready_push_tail s t = do {
     (ls, q) \<leftarrow> rq_push_tail (links s) (ready s) t;
     Some (s\<lparr>links := ls, ready := q\<rparr>) }"

definition ready_push_head :: "'p sched \<Rightarrow> 'p \<Rightarrow> 'p sched option" where
  "ready_push_head s t = do {
     (ls, q) \<leftarrow> rq_push_head (links s) (ready s) t;
     Some (s\<lparr>links := ls, ready := q\<rparr>) }"

definition ready_remove :: "'p sched \<Rightarrow> 'p \<Rightarrow> 'p sched option" where
  "ready_remove s t = do {
     (ls, q) \<leftarrow> rq_remove (links s) (ready s) t;
     Some (s\<lparr>links := ls, ready := q\<rparr>) }"

definition ready_move_to :: "'p sched \<Rightarrow> 'p \<Rightarrow> nat \<Rightarrow> 'p sched option" where
  "ready_move_to s t lvl = do {
     (ls, q) \<leftarrow> rq_move_to (links s) (ready s) t lvl;
     Some (s\<lparr>links := ls, ready := q\<rparr>) }"

definition node_set_level :: "'p sched \<Rightarrow> 'p \<Rightarrow> nat \<Rightarrow> 'p sched option" where
  "node_set_level s t lvl = do {
     l \<leftarrow> link_set_level (links s t) lvl;
     Some (s\<lparr>links := (links s)(t := l)\<rparr>) }"

definition charge :: "'p \<Rightarrow> u64 \<Rightarrow> 'p sched \<Rightarrow> 'p sched" where
  "charge r now = upd_node r (\<lambda>n. n\<lparr>ran := saturating_add (ran n) (saturating_sub now (since n))\<rparr>)"

definition deadline :: "'p sched \<Rightarrow> u64 option \<Rightarrow> u64 option" where
  "deadline s next_timer =
     (let slice = (case running s of
          None \<Rightarrow> None
        | Some r \<Rightarrow> if node_policy (nodes s r) = RoundRobin then Some (slice_end s) else None)
      in case (slice, next_timer) of
        (Some e, Some t) \<Rightarrow> Some (min e t)
      | (Some e, None) \<Rightarrow> Some e
      | (None, t) \<Rightarrow> t)"

definition start :: "'p sched \<Rightarrow> 'p \<Rightarrow> (unit result \<times> 'p sched) option" where
  "start s t = do {
     ensure (quantum s > 0);
     if node_state (nodes s t) \<noteq> Stopped then Some (Inl BadState, s)
     else do {
       let s = upd_node t (\<lambda>n. n\<lparr>node_state := Ready, slice_left := quantum s\<rparr>) s;
       s \<leftarrow> ready_push_tail s t;
       Some (Inr (), s) } }"

definition preempt :: "'p sched \<Rightarrow> 'p \<Rightarrow> u64 \<Rightarrow> 'p sched option" where
  "preempt s r now = do {
     let rest = saturating_sub (slice_end s) now;
     let s = charge r now s;
     let ended = (node_policy (nodes s r) = RoundRobin \<and> rest = 0);
     let s = upd_node r (\<lambda>n. n\<lparr>node_state := Ready,
               slice_left := if ended then quantum s else rest\<rparr>) s;
     s \<leftarrow> (if ended then ready_push_tail s r else ready_push_head s r);
     Some (s\<lparr>running := None\<rparr>) }"

text \<open>
  The first half of \<open>pick\<close>: the running thread goes on (\<open>Inl\<close>), or the CPU is
  free (\<open>Inr\<close>); the second half chooses what comes next.
\<close>

definition pick_goes_on :: "'p sched \<Rightarrow> nat option \<Rightarrow> 'p \<Rightarrow> bool" where
  "pick_goes_on s cleanup r \<longleftrightarrow>
     \<not> (case rq_top (ready s) of None \<Rightarrow> False | Some h \<Rightarrow> h > priority s r)
     \<and> (case cleanup of None \<Rightarrow> True | Some c \<Rightarrow> c < priority s r)"

definition pick_next :: "'p sched \<Rightarrow> u64 \<Rightarrow> nat option \<Rightarrow> ('p decision \<times> 'p sched) option" where
  "pick_next s now cleanup =
     (let high = rq_top (ready s) in
      if (case cleanup of None \<Rightarrow> False
          | Some c \<Rightarrow> (case high of None \<Rightarrow> True | Some h \<Rightarrow> c \<ge> h))
      then Some (Clean, s)
      else (case high of
          None \<Rightarrow> Some (Idle, s)
        | Some h \<Rightarrow> do {
            head \<leftarrow> rq_first (ready s) h;
            nx \<leftarrow> head;
            s \<leftarrow> ready_remove s nx;
            let s = upd_node nx (\<lambda>n. n\<lparr>node_state := Running, since := now\<rparr>) s;
            let s = s\<lparr>slice_end := saturating_add now (slice_left (nodes s nx))\<rparr>;
            let s = upd_node nx (\<lambda>n. n\<lparr>slice_left := 0\<rparr>) s;
            Some (Run nx, s\<lparr>running := Some nx\<rparr>) }))"

definition pick :: "'p sched \<Rightarrow> u64 \<Rightarrow> nat option \<Rightarrow> ('p decision \<times> 'p sched) option" where
  "pick s now cleanup =
     (case running s of
        None \<Rightarrow> pick_next s now cleanup
      | Some r \<Rightarrow>
          if pick_goes_on s cleanup r then Some (Run r, s)
          else do { s \<leftarrow> preempt s r now; pick_next s now cleanup })"

definition can_hand_off :: "'p sched \<Rightarrow> nat \<Rightarrow> nat option \<Rightarrow> bool" where
  "can_hand_off s lvl cleanup \<longleftrightarrow>
     (case cleanup of None \<Rightarrow> True | Some h \<Rightarrow> h < lvl)
     \<and> (case rq_top (ready s) of None \<Rightarrow> True | Some h \<Rightarrow> h < lvl)"

definition tick :: "'p sched \<Rightarrow> u64 \<Rightarrow> 'p sched option" where
  "tick s now =
     (case running s of
        None \<Rightarrow> Some s
      | Some r \<Rightarrow>
          if node_policy (nodes s r) \<noteq> RoundRobin \<or> now < slice_end s then Some s
          else do {
            let s = charge r now s;
            let s = upd_node r (\<lambda>n. n\<lparr>node_state := Ready, slice_left := quantum s\<rparr>) s;
            s \<leftarrow> ready_push_tail s r;
            Some (s\<lparr>running := None\<rparr>) })"

definition yield_running :: "'p sched \<Rightarrow> u64 \<Rightarrow> 'p sched option" where
  "yield_running s now =
     (case running s of
        None \<Rightarrow> Some s
      | Some r \<Rightarrow> do {
          let s = s\<lparr>running := None\<rparr>;
          let s = charge r now s;
          let s = upd_node r (\<lambda>n. n\<lparr>node_state := Ready, slice_left := quantum s\<rparr>) s;
          ready_push_tail s r })"

definition relevel :: "'p sched \<Rightarrow> 'p \<Rightarrow> nat \<Rightarrow> 'p sched option" where
  "relevel s t lvl =
     (let st = node_state (nodes s t); old = level (links s t) in
      if lvl = old then Some s
      else if st \<noteq> Ready then node_set_level s t lvl
      else
        let s = (if lvl > old then upd_node t (\<lambda>n. n\<lparr>slice_left := quantum s\<rparr>) s else s)
        in ready_move_to s t lvl)"

text \<open>
  \<open>set_priority\<close> in its two parts: the new policy and base with what a change from FIFO
  to round robin brings, and the move of the thread.
\<close>

definition take_priority :: "'p sched \<Rightarrow> 'p \<Rightarrow> nat \<Rightarrow> policy \<Rightarrow> u64 \<Rightarrow> 'p sched" where
  "take_priority s t prio policy now =
     (let st = node_state (nodes s t);
          to_round_robin = (node_policy (nodes s t) = Fifo \<and> policy = RoundRobin);
          s = (if st = Ready \<and> to_round_robin
               then upd_node t (\<lambda>n. n\<lparr>slice_left := quantum s\<rparr>) s
               else if st = Running \<and> to_round_robin
               then s\<lparr>slice_end := saturating_add now (quantum s)\<rparr>
               else s)
      in upd_node t (\<lambda>n. n\<lparr>node_policy := policy, base := prio\<rparr>) s)"

definition requeue :: "'p sched \<Rightarrow> 'p \<Rightarrow> bool \<Rightarrow> u64 \<Rightarrow> 'p sched option" where
  "requeue s t tail now =
     (let st = node_state (nodes s t); lvl = effective (nodes s t);
          to_tail = (tail \<and> node_boost (nodes s t) \<le> base (nodes s t)) in
      if to_tail \<and> st = Ready then do {
        s \<leftarrow> ready_remove s t;
        s \<leftarrow> node_set_level s t lvl;
        let s = upd_node t (\<lambda>n. n\<lparr>slice_left := quantum s\<rparr>) s;
        ready_push_tail s t }
      else if to_tail \<and> st = Running then do {
        let s = charge t now s;
        s \<leftarrow> node_set_level s t lvl;
        let s = upd_node t (\<lambda>n. n\<lparr>node_state := Ready, slice_left := quantum s\<rparr>) s;
        let s = s\<lparr>running := None\<rparr>;
        ready_push_tail s t }
      else relevel s t lvl)"

definition set_priority ::
  "'p sched \<Rightarrow> 'p \<Rightarrow> nat \<Rightarrow> policy \<Rightarrow> bool \<Rightarrow> u64 \<Rightarrow> (unit result \<times> 'p sched) option" where
  "set_priority s t prio policy tail now = do {
     ensure (1 \<le> prio \<and> prio < PRIORITY_LEVELS);
     if node_state (nodes s t) = Dead then Some (Inl BadState, s)
     else do {
       s \<leftarrow> requeue (take_priority s t prio policy now) t tail now;
       Some (Inr (), s) } }"

definition boost :: "'p sched \<Rightarrow> 'p \<Rightarrow> nat \<Rightarrow> nat \<Rightarrow> 'p sched option" where
  "boost s t lvl ceiling =
     (let s = upd_node t (\<lambda>n. n\<lparr>node_boost := max (node_boost n) (min lvl ceiling)\<rparr>) s
      in relevel s t (effective (nodes s t)))"

definition unboost :: "'p sched \<Rightarrow> 'p \<Rightarrow> 'p sched option" where
  "unboost s t =
     (let s = upd_node t (\<lambda>n. n\<lparr>node_boost := 0\<rparr>) s
      in relevel s t (effective (nodes s t)))"

definition block :: "'p sched \<Rightarrow> u64 \<Rightarrow> ('p \<times> 'p sched) option" where
  "block s now = do {
     r \<leftarrow> running s;
     let s = charge r now (s\<lparr>running := None\<rparr>);
     Some (r, upd_node r (\<lambda>n. n\<lparr>node_state := Waiting\<rparr>) s) }"

definition wake :: "'p sched \<Rightarrow> 'p \<Rightarrow> 'p sched option" where
  "wake s t = do {
     ensure (node_state (nodes s t) = Waiting);
     let s = upd_node t (\<lambda>n. n\<lparr>node_state := Ready, slice_left := quantum s\<rparr>) s;
     ready_push_tail s t }"

definition park :: "'p sched \<Rightarrow> 'p \<Rightarrow> u64 \<Rightarrow> 'p sched option" where
  "park s t now = do {
     ensure (running s = Some t);
     let s = charge t now (s\<lparr>running := None\<rparr>);
     Some (upd_node t (\<lambda>n. n\<lparr>node_state := Parked\<rparr>) s) }"

definition unpark :: "'p sched \<Rightarrow> 'p \<Rightarrow> 'p sched option" where
  "unpark s t = do {
     ensure (node_state (nodes s t) = Parked);
     wake (upd_node t (\<lambda>n. n\<lparr>node_state := Waiting\<rparr>) s) t }"

definition hand_off :: "'p sched \<Rightarrow> 'p \<Rightarrow> u64 \<Rightarrow> 'p sched option" where
  "hand_off s t now = do {
     ensure (running s = None);
     ensure (node_state (nodes s t) = Waiting);
     ensure (can_hand_off s (priority s t) None);
     let s = upd_node t (\<lambda>n. n\<lparr>node_state := Running, since := now, slice_left := 0\<rparr>) s;
     Some (s\<lparr>slice_end := saturating_add now (quantum s), running := Some t\<rparr>) }"

definition exit :: "'p sched \<Rightarrow> 'p \<Rightarrow> u64 \<Rightarrow> 'p sched option" where
  "exit s t now = do {
     let q = link_is_queued (links s t);
     s \<leftarrow> (case node_state (nodes s t) of
         Running \<Rightarrow> do {
           ensure (running s = Some t);
           Some (charge t now (s\<lparr>running := None\<rparr>)) }
       | Ready \<Rightarrow> ready_remove s t
       | Waiting \<Rightarrow> do { ensure (\<not> q); Some s }
       | Parked \<Rightarrow> do { ensure (\<not> q); Some s }
       | Stopped \<Rightarrow> Some s
       | Dead \<Rightarrow> Some s);
     Some (upd_node t (\<lambda>n. n\<lparr>node_state := Dead\<rparr>) s) }"

section \<open>The timer's deadline\<close>

text \<open>
  \<open>Armed\<close> remembers the deadline the timer holds. The timer itself is hardware: its
  two operations are arguments.
\<close>

type_synonym armed = "u64 option"

definition armed_new :: armed where
  "armed_new = None"

definition armed_set ::
  "('tm \<Rightarrow> u64 \<Rightarrow> 'tm) \<Rightarrow> ('tm \<Rightarrow> 'tm) \<Rightarrow> armed \<Rightarrow> 'tm \<Rightarrow> u64 option \<Rightarrow> armed \<times> 'tm" where
  "armed_set arm disarm a tm d =
     (if d = a then (a, tm)
      else (d, case d of Some x \<Rightarrow> arm tm x | None \<Rightarrow> disarm tm))"

end
