(* ===== verification/Scheduler_Invariant.thy ===== *)
theory Scheduler_Invariant
  imports Scheduler
begin

text \<open>
  The invariant of the scheduler. \<open>sched_rep s f\<close> says that the ready threads stand in the
  lists \<open>f\<close>: a thread is in the list of its level exactly when its state is ready, the
  running thread is the one whose state is running, and every level is the higher of base and
  boost. Each operation has a lemma with its effect on the lists, the nodes and the CPU, on
  every branch.
\<close>

section \<open>The invariant\<close>

definition qrep :: "'p sched \<Rightarrow> (nat \<Rightarrow> 'p list) \<Rightarrow> bool" where
  "qrep s f \<longleftrightarrow> rq_refines (links s, ready s) (\<lambda>t. level (links s t), f)"

definition thread_ok :: "'p sched \<Rightarrow> 'p \<Rightarrow> bool" where
  "thread_ok s t \<longleftrightarrow>
     (link_is_queued (links s t) \<longleftrightarrow> node_state (nodes s t) = Ready)
     \<and> (running s = Some t \<longleftrightarrow> node_state (nodes s t) = Running)
     \<and> level (links s t) = effective (nodes s t)
     \<and> 1 \<le> base (nodes s t) \<and> base (nodes s t) < PRIORITY_LEVELS
     \<and> node_boost (nodes s t) < PRIORITY_LEVELS"

definition sched_rep :: "'p sched \<Rightarrow> (nat \<Rightarrow> 'p list) \<Rightarrow> bool" where
  "sched_rep s f \<longleftrightarrow> qrep s f \<and> (\<forall>t. thread_ok s t)"

text \<open>An operation on the queue leaves everything but the links and the queue.\<close>

definition queue_only :: "'p sched \<Rightarrow> 'p sched \<Rightarrow> bool" where
  "queue_only s s' \<longleftrightarrow>
     nodes s' = nodes s \<and> running s' = running s \<and> slice_end s' = slice_end s
     \<and> quantum s' = quantum s"

lemma qrepD:
  assumes "qrep s f"
  shows "rq_rep (links s) (ready s) f"
    and "link_is_queued (links s t) \<longleftrightarrow> t \<in> set (f (level (links s t)))"
    and "t \<in> set (f l) \<Longrightarrow> level (links s t) = l"
    and "t \<in> set (f l) \<Longrightarrow> link_is_queued (links s t)"
    and "distinct (f l)"
  using assms rq_repD(5-7) [of "links s" "ready s" f] by (auto simp: qrep_def rq_refines_def)

lemma qrep_cong: "links s' = links s \<Longrightarrow> ready s' = ready s \<Longrightarrow> qrep s' f = qrep s f"
  by (simp add: qrep_def)

lemma queue_call:
  assumes "qrep s f" and "lists_do c (\<lambda>t. level (links s t), f) = Some (lv, f')"
  obtains ls q where "rq_do c (links s, ready s) = Some (ls, q)" and "\<And>t. level (ls t) = lv t"
    and "rq_refines (ls, q) (\<lambda>t. level (ls t), f')"
    and "\<And>t. link_is_queued (ls t) \<longleftrightarrow> t \<in> set (f' (lv t))"
  using rq_call [OF assms(1) [unfolded qrep_def] assms(2)] by blast

lemma q_push_tail:
  assumes rep: "qrep s f" and t: "\<not> link_is_queued (links s t)" "level (links s t) \<in> {1..63}"
  obtains s' where "ready_push_tail s t = Some s'"
    and "qrep s' (f(level (links s t) := f (level (links s t)) @ [t]))" and "queue_only s s'"
    and "\<And>p. level (links s' p) = level (links s p)"
    and "\<And>p. link_is_queued (links s' p) \<longleftrightarrow> p = t \<or> link_is_queued (links s p)"
proof -
  obtain ls q where "rq_push_tail (links s) (ready s) t = Some (ls, q)"
    "\<And>p. level (ls p) = level (links s p)"
    "rq_refines (ls, q) (\<lambda>t. level (ls t), f(level (links s t) := f (level (links s t)) @ [t]))"
    "\<And>p. link_is_queued (ls p) \<longleftrightarrow>
        p \<in> set ((f(level (links s t) := f (level (links s t)) @ [t])) (level (links s p)))"
    using queue_call [OF rep, of "Push_Tail t"] t qrepD(2) [OF rep] by auto
  then show ?thesis
    using qrepD(2) [OF rep]
    by (intro that [of "s\<lparr>links := ls, ready := q\<rparr>"])
      (auto simp: ready_push_tail_def qrep_def queue_only_def)
qed

lemma q_push_head:
  assumes rep: "qrep s f" and t: "\<not> link_is_queued (links s t)" "level (links s t) \<in> {1..63}"
  obtains s' where "ready_push_head s t = Some s'"
    and "qrep s' (f(level (links s t) := t # f (level (links s t))))" and "queue_only s s'"
    and "\<And>p. level (links s' p) = level (links s p)"
    and "\<And>p. link_is_queued (links s' p) \<longleftrightarrow> p = t \<or> link_is_queued (links s p)"
proof -
  obtain ls q where "rq_push_head (links s) (ready s) t = Some (ls, q)"
    "\<And>p. level (ls p) = level (links s p)"
    "rq_refines (ls, q) (\<lambda>t. level (ls t), f(level (links s t) := t # f (level (links s t))))"
    "\<And>p. link_is_queued (ls p) \<longleftrightarrow>
        p \<in> set ((f(level (links s t) := t # f (level (links s t)))) (level (links s p)))"
    using queue_call [OF rep, of "Push_Head t"] t qrepD(2) [OF rep] by auto
  then show ?thesis
    using qrepD(2) [OF rep]
    by (intro that [of "s\<lparr>links := ls, ready := q\<rparr>"])
      (auto simp: ready_push_head_def qrep_def queue_only_def)
qed

lemma q_remove:
  assumes rep: "qrep s f" and t: "link_is_queued (links s t)"
  obtains s' where "ready_remove s t = Some s'"
    and "qrep s' (f(level (links s t) := remove1 t (f (level (links s t)))))" and "queue_only s s'"
    and "\<And>p. level (links s' p) = level (links s p)"
    and "\<And>p. link_is_queued (links s' p) \<longleftrightarrow> p \<noteq> t \<and> link_is_queued (links s p)"
proof -
  obtain ls q where "rq_remove (links s) (ready s) t = Some (ls, q)"
    "\<And>p. level (ls p) = level (links s p)"
    "rq_refines (ls, q) (\<lambda>t. level (ls t), f(level (links s t) := remove1 t (f (level (links s t)))))"
    "\<And>p. link_is_queued (ls p) \<longleftrightarrow>
        p \<in> set ((f(level (links s t) := remove1 t (f (level (links s t))))) (level (links s p)))"
    using queue_call [OF rep, of "Remove t"] t qrepD(2) [OF rep] by auto
  then show ?thesis
    using qrepD(2,5) [OF rep]
    by (intro that [of "s\<lparr>links := ls, ready := q\<rparr>"])
      (auto simp: ready_remove_def qrep_def queue_only_def)
qed

lemma q_set_level:
  assumes rep: "qrep s f" and t: "\<not> link_is_queued (links s t)"
  obtains s' where "node_set_level s t lvl = Some s'" and "qrep s' f" and "queue_only s s'"
    and "\<And>p. level (links s' p) = (if p = t then lvl else level (links s p))"
    and "\<And>p. link_is_queued (links s' p) = link_is_queued (links s p)"
proof -
  let ?s = "s\<lparr>links := (links s)(t := (links s t)\<lparr>level := lvl\<rparr>)\<rparr>"
  have out: "t \<notin> set (f l)" for l
    using qrepD(4) [OF rep] t by blast
  then have "rq_rep ((links s)(t := (links s t)\<lparr>level := lvl\<rparr>)) (ready s) f"
    by (intro rq_rep_cong [OF qrepD(1) [OF rep]]) (metis fun_upd_other)
  then show ?thesis
    using qrepD(2) [OF rep] out t
    by (intro that [of ?s])
      (auto simp: node_set_level_def link_set_level_def qrep_def queue_only_def rq_refines_def)
qed

lemma q_move_to:
  assumes rep: "qrep s f" and t: "link_is_queued (links s t)" and lvl: "lvl \<in> {1..63}"
  obtains s' where "ready_move_to s t lvl = Some s'"
    and "qrep s' (moved t (level (links s t)) lvl f)" and "queue_only s s'"
    and "\<And>p. level (links s' p) = (if p = t then lvl else level (links s p))"
    and "\<And>p. link_is_queued (links s' p) = link_is_queued (links s p)"
proof -
  let ?f = "moved t (level (links s t)) lvl f"
  let ?lv = "\<lambda>p. if p = t then lvl else level (links s p)"
  have "lists_do (Move_To t lvl) (\<lambda>p. level (links s p), f) = Some (?lv, ?f)"
    using t lvl qrepD(2) [OF rep] by (auto simp: moved_def fun_eq_iff)
  then obtain ls q where ls: "rq_move_to (links s) (ready s) t lvl = Some (ls, q)"
    "\<And>p. level (ls p) = ?lv p" "rq_refines (ls, q) (\<lambda>t. level (ls t), ?f)"
    "\<And>p. link_is_queued (ls p) \<longleftrightarrow> p \<in> set (?f (?lv p))"
    using queue_call [OF rep, of "Move_To t lvl"] by auto
  moreover have "p \<in> set (?f (?lv p)) \<longleftrightarrow> link_is_queued (links s p)" for p
    using t qrepD(2) [OF rep] by (auto simp: moved_def)
  ultimately show ?thesis
    by (intro that [of "s\<lparr>links := ls, ready := q\<rparr>"])
      (auto simp: ready_move_to_def qrep_def queue_only_def)
qed

lemma upd_node_simps [simp]:
  "links (upd_node t g s) = links s" "ready (upd_node t g s) = ready s"
  "running (upd_node t g s) = running s" "slice_end (upd_node t g s) = slice_end s"
  "quantum (upd_node t g s) = quantum s"
  "nodes (upd_node t g s) = (nodes s)(t := g (nodes s t))"
  "qrep (upd_node t g s) f = qrep s f"
  by (simp_all add: upd_node_def qrep_def)

lemma charge_simps [simp]:
  "links (charge t now s) = links s" "ready (charge t now s) = ready s"
  "running (charge t now s) = running s" "slice_end (charge t now s) = slice_end s"
  "quantum (charge t now s) = quantum s"
  "nodes (charge t now s) = (nodes s)
     (t := (nodes s t)\<lparr>ran := saturating_add (ran (nodes s t)) (saturating_sub now (since (nodes s t)))\<rparr>)"
  "qrep (charge t now s) f = qrep s f"
  by (simp_all add: charge_def)

lemma qrep_fields [simp]:
  "qrep (s\<lparr>running := r\<rparr>) f = qrep s f" "qrep (s\<lparr>slice_end := e\<rparr>) f = qrep s f"
  "qrep (s\<lparr>quantum := q\<rparr>) f = qrep s f" "qrep (s\<lparr>nodes := ns\<rparr>) f = qrep s f"
  by (simp_all add: qrep_def)

lemma effective_simps [simp]:
  "effective (n\<lparr>node_state := st\<rparr>) = effective n" "effective (n\<lparr>slice_left := x\<rparr>) = effective n"
  "effective (n\<lparr>ran := x\<rparr>) = effective n" "effective (n\<lparr>since := x\<rparr>) = effective n"
  "effective (n\<lparr>node_policy := p\<rparr>) = effective n"
  by (simp_all add: effective_def)

lemma sched_repD:
  assumes "sched_rep s f"
  shows "qrep s f" and "link_is_queued (links s t) \<longleftrightarrow> node_state (nodes s t) = Ready"
    and "running s = Some t \<longleftrightarrow> node_state (nodes s t) = Running"
    and "level (links s t) = effective (nodes s t)" and "level (links s t) \<in> {1..63}"
    and "base (nodes s t) \<in> {1..63}" and "node_boost (nodes s t) \<le> 63"
proof -
  have "qrep s f" "thread_ok s t"
    using assms by (simp_all add: sched_rep_def)
  then show "qrep s f" "link_is_queued (links s t) \<longleftrightarrow> node_state (nodes s t) = Ready"
    "running s = Some t \<longleftrightarrow> node_state (nodes s t) = Running"
    "level (links s t) = effective (nodes s t)" "level (links s t) \<in> {1..63}"
    "base (nodes s t) \<in> {1..63}" "node_boost (nodes s t) \<le> 63"
    by (auto simp: thread_ok_def effective_def PRIORITY_LEVELS_def)
qed

lemma sched_repI: "qrep s f \<Longrightarrow> (\<And>t. thread_ok s t) \<Longrightarrow> sched_rep s f"
  by (simp add: sched_rep_def)

lemma thread_ok_rep: "sched_rep s f \<Longrightarrow> thread_ok s t"
  by (simp add: sched_rep_def)

lemma thread_ok_same:
  assumes "thread_ok s p" and "nodes s' p = nodes s p" and "level (links s' p) = level (links s p)"
    and "link_is_queued (links s' p) = link_is_queued (links s p)"
    and "running s' = Some p \<longleftrightarrow> running s = Some p"
  shows "thread_ok s' p"
  using assms by (simp add: thread_ok_def)

text \<open>A thread on its way into the ready queue: ready already, in no list, off the CPU.\<close>

definition in_transit :: "'p sched \<Rightarrow> 'p \<Rightarrow> (nat \<Rightarrow> 'p list) \<Rightarrow> bool" where
  "in_transit s t f \<longleftrightarrow>
     qrep s f \<and> (\<forall>p. p \<noteq> t \<longrightarrow> thread_ok s p)
     \<and> node_state (nodes s t) = Ready \<and> \<not> link_is_queued (links s t) \<and> running s \<noteq> Some t
     \<and> level (links s t) = effective (nodes s t)
     \<and> base (nodes s t) \<in> {1..63} \<and> node_boost (nodes s t) \<le> 63"

lemma transit_level: "in_transit s t f \<Longrightarrow> level (links s t) \<in> {1..63}"
  by (auto simp: in_transit_def effective_def)

lemma transit_arrives:
  assumes tr: "in_transit s t f" and "qrep s' f'" and qo: "queue_only s s'"
    and lv: "\<And>p. level (links s' p) = level (links s p)"
    and qd: "\<And>p. link_is_queued (links s' p) \<longleftrightarrow> p = t \<or> link_is_queued (links s p)"
  shows "sched_rep s' f'"
proof (rule sched_repI [OF assms(2)])
  show "thread_ok s' p" for p
  proof (cases "p = t")
    case True
    then show ?thesis
      using tr qo lv qd by (auto simp: in_transit_def queue_only_def thread_ok_def PRIORITY_LEVELS_def)
  next
    case False
    then show ?thesis
      using tr qo lv qd by (intro thread_ok_same [of s p s']) (auto simp: in_transit_def queue_only_def)
  qed
qed

lemma transit_push_tail:
  assumes "in_transit s t f"
  obtains s' where "ready_push_tail s t = Some s'"
    and "sched_rep s' (f(level (links s t) := f (level (links s t)) @ [t]))" and "queue_only s s'"
    and "\<And>p. level (links s' p) = level (links s p)"
  using q_push_tail [of s f t] transit_level [OF assms] transit_arrives [OF assms] assms
  unfolding in_transit_def by metis

lemma transit_push_head:
  assumes "in_transit s t f"
  obtains s' where "ready_push_head s t = Some s'"
    and "sched_rep s' (f(level (links s t) := t # f (level (links s t))))" and "queue_only s s'"
    and "\<And>p. level (links s' p) = level (links s p)"
  using q_push_head [of s f t] transit_level [OF assms] transit_arrives [OF assms] assms
  unfolding in_transit_def by metis

text \<open>Taking the thread off the CPU before or after it joins the queue makes no difference.\<close>

lemma push_running:
  "ready_push_tail (s\<lparr>running := r\<rparr>) t =
     Option.bind (ready_push_tail s t) (\<lambda>s. Some (s\<lparr>running := r\<rparr>))"
  "ready_push_head (s\<lparr>running := r\<rparr>) t =
     Option.bind (ready_push_head s t) (\<lambda>s. Some (s\<lparr>running := r\<rparr>))"
  by (simp_all add: ready_push_tail_def ready_push_head_def split: Option.bind_split)

lemma upd_node_running: "upd_node t g (s\<lparr>running := r\<rparr>) = (upd_node t g s)\<lparr>running := r\<rparr>"
  by (simp add: upd_node_def)

text \<open>A thread that is not ready sets out for the queue.\<close>

lemma sets_out:
  assumes rep: "sched_rep s f" and "node_state (nodes s t) \<noteq> Ready"
    and "node_state n = Ready" and "base n = base (nodes s t)" and "node_boost n = node_boost (nodes s t)"
    and "r \<noteq> Some t" and "\<And>p. p \<noteq> t \<Longrightarrow> r = Some p \<longleftrightarrow> running s = Some p"
  shows "in_transit (s\<lparr>nodes := (nodes s)(t := n), running := r\<rparr>) t f"
proof -
  let ?s = "s\<lparr>nodes := (nodes s)(t := n), running := r\<rparr>"
  have "thread_ok ?s p" if "p \<noteq> t" for p
    using that assms(7) by (intro thread_ok_same [OF thread_ok_rep [OF rep]]) auto
  moreover have "effective n = effective (nodes s t)"
    using assms(4,5) by (simp add: effective_def)
  ultimately show ?thesis
    using sched_repD(1) [OF rep] sched_repD(2-7) [OF rep, of t] assms by (simp add: in_transit_def)
qed

lemma queue_onlyD:
  assumes "queue_only s s'"
  shows "nodes s' = nodes s" "running s' = running s" "slice_end s' = slice_end s"
    "quantum s' = quantum s"
  using assms by (simp_all add: queue_only_def)

text \<open>The CPU is one: when \<open>t\<close> leaves it, nobody is on it.\<close>

lemma off_cpu:
  assumes "sched_rep s f" and "running s = Some t" and "p \<noteq> t"
  shows "None = Some p \<longleftrightarrow> running s = Some p"
  using assms(2,3) by simp

lemma not_running:
  assumes "sched_rep s f" and "node_state (nodes s t) \<noteq> Running"
  shows "running s \<noteq> Some t"
  using sched_repD(3) [OF assms(1)] assms(2) by blast

lemma wake_rep:
  assumes rep: "sched_rep s f" and t: "node_state (nodes s t) = Waiting"
  obtains s' where "wake s t = Some s'"
    and "sched_rep s' (f(priority s t := f (priority s t) @ [t]))"
    and "nodes s' = (nodes s)(t := (nodes s t)\<lparr>node_state := Ready, slice_left := quantum s\<rparr>)"
    and "running s' = running s" and "slice_end s' = slice_end s" and "quantum s' = quantum s"
    and "\<And>p. level (links s' p) = level (links s p)"
proof -
  let ?s = "s\<lparr>nodes := (nodes s)(t := (nodes s t)\<lparr>node_state := Ready, slice_left := quantum s\<rparr>),
      running := running s\<rparr>"
  have "in_transit ?s t f"
    using t not_running [OF rep] by (intro sets_out [OF rep]) auto
  from transit_push_tail [OF this] obtain s' where s': "ready_push_tail ?s t = Some s'"
    "sched_rep s' (f(level (links ?s t) := f (level (links ?s t)) @ [t]))" "queue_only ?s s'"
    "\<And>p. level (links s' p) = level (links ?s p)"
    by blast
  moreover have "?s = upd_node t (\<lambda>n. n\<lparr>node_state := Ready, slice_left := quantum s\<rparr>) s"
    by (simp add: upd_node_def)
  ultimately show ?thesis
    using t queue_onlyD [OF s'(3)] by (intro that [of s']) (simp_all add: wake_def priority_def)
qed

lemma start_rep:
  assumes rep: "sched_rep s f" and t: "node_state (nodes s t) = Stopped" and "quantum s > 0"
  obtains s' where "start s t = Some (Inr (), s')"
    and "sched_rep s' (f(priority s t := f (priority s t) @ [t]))"
    and "nodes s' = (nodes s)(t := (nodes s t)\<lparr>node_state := Ready, slice_left := quantum s\<rparr>)"
    and "running s' = running s" and "slice_end s' = slice_end s" and "quantum s' = quantum s"
proof -
  let ?s = "s\<lparr>nodes := (nodes s)(t := (nodes s t)\<lparr>node_state := Ready, slice_left := quantum s\<rparr>),
      running := running s\<rparr>"
  have "in_transit ?s t f"
    using t not_running [OF rep] by (intro sets_out [OF rep]) auto
  from transit_push_tail [OF this] obtain s' where s': "ready_push_tail ?s t = Some s'"
    "sched_rep s' (f(level (links ?s t) := f (level (links ?s t)) @ [t]))" "queue_only ?s s'"
    by blast
  moreover have "?s = upd_node t (\<lambda>n. n\<lparr>node_state := Ready, slice_left := quantum s\<rparr>) s"
    by (simp add: upd_node_def)
  ultimately show ?thesis
    using t queue_onlyD [OF s'(3)] assms(3) by (intro that [of s']) (simp_all add: start_def priority_def)
qed

text \<open>The running thread with the time of its stint added, for the ready queue.\<close>

abbreviation charged :: "node \<Rightarrow> u64 \<Rightarrow> node" where
  "charged n now \<equiv> n\<lparr>ran := saturating_add (ran n) (saturating_sub now (since n))\<rparr>"

definition went_ready :: "'p sched \<Rightarrow> 'p \<Rightarrow> u64 \<Rightarrow> u64 \<Rightarrow> 'p sched \<Rightarrow> bool" where
  "went_ready s r q now s' \<longleftrightarrow>
     nodes s' = (nodes s)(r := (charged (nodes s r) now)\<lparr>node_state := Ready, slice_left := q\<rparr>)
     \<and> running s' = None \<and> slice_end s' = slice_end s \<and> quantum s' = quantum s
     \<and> (\<forall>p. level (links s' p) = level (links s p))"

lemma leaves_tail:
  assumes rep: "sched_rep s f" and r: "running s = Some r"
  obtains s' where
    "Option.bind (ready_push_tail (upd_node r (\<lambda>n. n\<lparr>node_state := Ready, slice_left := q\<rparr>)
        (charge r now s)) r) (\<lambda>s. Some (s\<lparr>running := None\<rparr>)) = Some s'"
    and "sched_rep s' (f(priority s r := f (priority s r) @ [r]))"
    and "went_ready s r q now s'"
proof -
  let ?n = "(charged (nodes s r) now)\<lparr>node_state := Ready, slice_left := q\<rparr>"
  let ?s = "s\<lparr>nodes := (nodes s)(r := ?n), running := None\<rparr>"
  have "node_state (nodes s r) = Running"
    using sched_repD(3) [OF rep] r by blast
  then have "in_transit ?s r f"
    using off_cpu [OF rep r] by (intro sets_out [OF rep]) auto
  from transit_push_tail [OF this] obtain s' where s': "ready_push_tail ?s r = Some s'"
    "sched_rep s' (f(level (links ?s r) := f (level (links ?s r)) @ [r]))" "queue_only ?s s'"
    "\<And>p. level (links s' p) = level (links ?s p)"
    by blast
  moreover have "?s = (upd_node r (\<lambda>n. n\<lparr>node_state := Ready, slice_left := q\<rparr>)
      (charge r now s))\<lparr>running := None\<rparr>"
    by (simp add: upd_node_def charge_def)
  ultimately show ?thesis
    using queue_onlyD [OF s'(3)]
    by (intro that [of s']) (simp_all add: push_running priority_def went_ready_def)
qed

lemma leaves_head:
  assumes rep: "sched_rep s f" and r: "running s = Some r"
  obtains s' where
    "Option.bind (ready_push_head (upd_node r (\<lambda>n. n\<lparr>node_state := Ready, slice_left := q\<rparr>)
        (charge r now s)) r) (\<lambda>s. Some (s\<lparr>running := None\<rparr>)) = Some s'"
    and "sched_rep s' (f(priority s r := r # f (priority s r)))"
    and "went_ready s r q now s'"
proof -
  let ?n = "(charged (nodes s r) now)\<lparr>node_state := Ready, slice_left := q\<rparr>"
  let ?s = "s\<lparr>nodes := (nodes s)(r := ?n), running := None\<rparr>"
  have "node_state (nodes s r) = Running"
    using sched_repD(3) [OF rep] r by blast
  then have "in_transit ?s r f"
    using off_cpu [OF rep r] by (intro sets_out [OF rep]) auto
  from transit_push_head [OF this] obtain s' where s': "ready_push_head ?s r = Some s'"
    "sched_rep s' (f(level (links ?s r) := r # f (level (links ?s r))))" "queue_only ?s s'"
    "\<And>p. level (links s' p) = level (links ?s p)"
    by blast
  moreover have "?s = (upd_node r (\<lambda>n. n\<lparr>node_state := Ready, slice_left := q\<rparr>)
      (charge r now s))\<lparr>running := None\<rparr>"
    by (simp add: upd_node_def charge_def)
  ultimately show ?thesis
    using queue_onlyD [OF s'(3)]
    by (intro that [of s']) (simp_all add: push_running priority_def went_ready_def)
qed

section \<open>The operations on the CPU\<close>

lemma preempt_rep:
  fixes now :: u64
  assumes rep: "sched_rep s f" and r: "running s = Some r"
  defines "rest \<equiv> saturating_sub (slice_end s) now"
  defines "ended \<equiv> node_policy (nodes s r) = RoundRobin \<and> rest = 0"
  obtains s' where "preempt s r now = Some s'"
    and "sched_rep s' (f(priority s r :=
          if ended then f (priority s r) @ [r] else r # f (priority s r)))"
    and "went_ready s r (if ended then quantum s else rest) now s'"
proof (cases ended)
  case True
  obtain s' where s': "Option.bind (ready_push_tail (upd_node r
        (\<lambda>n. n\<lparr>node_state := Ready, slice_left := quantum s\<rparr>) (charge r now s)) r)
        (\<lambda>s. Some (s\<lparr>running := None\<rparr>)) = Some s'"
    "sched_rep s' (f(priority s r := f (priority s r) @ [r]))" "went_ready s r (quantum s) now s'"
    by (rule leaves_tail [OF rep r, of "quantum s" now])
  have "preempt s r now = Some s'"
    using True s'(1) by (simp add: preempt_def ended_def rest_def)
  then show ?thesis
    using that [of s'] True s'(2,3) by simp
next
  case False
  obtain s' where s': "Option.bind (ready_push_head (upd_node r
        (\<lambda>n. n\<lparr>node_state := Ready, slice_left := rest\<rparr>) (charge r now s)) r)
        (\<lambda>s. Some (s\<lparr>running := None\<rparr>)) = Some s'"
    "sched_rep s' (f(priority s r := r # f (priority s r)))" "went_ready s r rest now s'"
    by (rule leaves_head [OF rep r, of rest now])
  have "preempt s r now = Some s'"
    using False s'(1) by (auto simp: preempt_def ended_def rest_def Let_def)
  then show ?thesis
    using that [of s'] False s'(2,3) by simp
qed

lemma tick_keeps:
  "running s = None \<or> (\<exists>r. running s = Some r \<and>
     (node_policy (nodes s r) \<noteq> RoundRobin \<or> now < slice_end s)) \<Longrightarrow> tick s now = Some s"
  by (auto simp: tick_def)

lemma tick_ends:
  assumes rep: "sched_rep s f" and r: "running s = Some r"
    and "node_policy (nodes s r) = RoundRobin" and "slice_end s \<le> now"
  obtains s' where "tick s now = Some s'"
    and "sched_rep s' (f(priority s r := f (priority s r) @ [r]))"
    and "went_ready s r (quantum s) now s'"
proof -
  obtain s' where s': "Option.bind (ready_push_tail (upd_node r
        (\<lambda>n. n\<lparr>node_state := Ready, slice_left := quantum s\<rparr>) (charge r now s)) r)
        (\<lambda>s. Some (s\<lparr>running := None\<rparr>)) = Some s'"
    "sched_rep s' (f(priority s r := f (priority s r) @ [r]))" "went_ready s r (quantum s) now s'"
    by (rule leaves_tail [OF rep r, of "quantum s" now])
  have "tick s now = Some s'"
    using assms(2-4) s'(1) by (simp add: tick_def not_less Let_def)
  then show ?thesis
    using that [of s'] s'(2,3) by simp
qed

lemma yield_rep:
  assumes rep: "sched_rep s f" and r: "running s = Some r"
  obtains s' where "yield_running s now = Some s'"
    and "sched_rep s' (f(priority s r := f (priority s r) @ [r]))"
    and "went_ready s r (quantum s) now s'"
proof -
  obtain s' where s': "Option.bind (ready_push_tail (upd_node r
        (\<lambda>n. n\<lparr>node_state := Ready, slice_left := quantum s\<rparr>) (charge r now s)) r)
        (\<lambda>s. Some (s\<lparr>running := None\<rparr>)) = Some s'"
    "sched_rep s' (f(priority s r := f (priority s r) @ [r]))" "went_ready s r (quantum s) now s'"
    by (rule leaves_tail [OF rep r, of "quantum s" now])
  have "yield_running s now = Some s'"
    using r s'(1) by (simp add: yield_running_def Let_def charge_def upd_node_running push_running)
  then show ?thesis
    using that [of s'] s'(2,3) by simp
qed

text \<open>What the free CPU takes next.\<close>

lemma pick_next_rep:
  assumes rep: "sched_rep s f" and free: "running s = None"
  obtains (clean) c where "pick_next s now cleanup = Some (Clean, s)" and "cleanup = Some c"
      and "\<And>l. f l \<noteq> [] \<Longrightarrow> l \<le> c"
  | (idle) "pick_next s now cleanup = Some (Idle, s)" and "cleanup = None" and "\<And>l. f l = []"
  | (run) l t ts s' where "pick_next s now cleanup = Some (Run t, s')" and "f l = t # ts"
      and "\<And>k. f k \<noteq> [] \<Longrightarrow> k \<le> l" and "\<And>c. cleanup = Some c \<Longrightarrow> c < l"
      and "sched_rep s' (f(l := ts))"
      and "nodes s' = (nodes s)(t := (nodes s t)\<lparr>node_state := Running, since := now, slice_left := 0\<rparr>)"
      and "running s' = Some t" and "slice_end s' = saturating_add now (slice_left (nodes s t))"
      and "quantum s' = quantum s" and "\<And>p. level (links s' p) = level (links s p)"
proof -
  have q: "rq_state_rep (links s, ready s) f"
    using qrepD(1) [OF sched_repD(1) [OF rep]] by simp
  consider (clean) c where "cleanup = Some c" "\<forall>h. rq_top (ready s) = Some h \<longrightarrow> h \<le> c"
    | (idle) "cleanup = None" "rq_top (ready s) = None"
    | (run) l where "rq_top (ready s) = Some l" "\<And>c. cleanup = Some c \<Longrightarrow> c < l"
    by (cases cleanup; cases "rq_top (ready s)") (simp_all, metis linorder_not_le)
  then show ?thesis
  proof cases
    case clean
    then have "l \<le> c" if "f l \<noteq> []" for l
      using rq.top_exists [OF q that] by force
    moreover have "pick_next s now cleanup = Some (Clean, s)"
      using clean by (auto simp: pick_next_def Let_def split: option.split)
    ultimately show ?thesis
      using that(1) clean(1) by blast
  next
    case idle
    then show ?thesis
      using rq.top_None [OF q] that(2) by (simp add: pick_next_def)
  next
    case (run l)
    obtain t ts where f: "f l = t # ts" "rq_first (ready s) l = Some (Some t)"
      "\<And>k u. u \<in> set (f k) \<Longrightarrow> k \<le> l"
      using rq.pop_top [OF q, of l] run(1) by (metis snd_conv)
    have high: "k \<le> l" if "f k \<noteq> []" for k
      using f(3) [of "hd (f k)" k] that by simp
    have t: "link_is_queued (links s t)" "level (links s t) = l" "node_state (nodes s t) = Ready"
      using qrepD(3,4) [OF sched_repD(1) [OF rep], of t l] sched_repD(2) [OF rep, of t] f(1) by auto
    obtain s1 where s1: "ready_remove s t = Some s1" "qrep s1 (f(l := ts))" "queue_only s s1"
      "\<And>p. level (links s1 p) = level (links s p)"
      "\<And>p. link_is_queued (links s1 p) \<longleftrightarrow> p \<noteq> t \<and> link_is_queued (links s p)"
      using q_remove [OF sched_repD(1) [OF rep] t(1)] t(2) f(1) by auto
    note s1' = queue_onlyD [OF s1(3)]
    let ?n = "(nodes s t)\<lparr>node_state := Running, since := now, slice_left := 0\<rparr>"
    let ?s = "s1\<lparr>nodes := (nodes s)(t := ?n), slice_end := saturating_add now (slice_left (nodes s t)),
        running := Some t\<rparr>"
    have "thread_ok ?s p" for p
    proof (cases "p = t")
      case True
      then show ?thesis
        using thread_ok_rep [OF rep, of t] s1(4,5) by (simp add: thread_ok_def)
    next
      case False
      then show ?thesis
        using s1(4,5) free by (intro thread_ok_same [OF thread_ok_rep [OF rep]]) auto
    qed
    then have "sched_rep ?s (f(l := ts))"
      using s1(2) by (intro sched_repI) simp_all
    moreover have "pick_next s now cleanup = Some (Run t, ?s)"
      using run f(2) s1(1) s1' by (cases cleanup) (auto simp: pick_next_def upd_node_def)
    ultimately show ?thesis
      using that(3) [of t ?s l ts] f(1) high run(2) s1(4) s1' by simp
  qed
qed

section \<open>Priorities\<close>

text \<open>A thread whose base and boost changed before its level did.\<close>

definition unlevelled :: "'p sched \<Rightarrow> 'p \<Rightarrow> (nat \<Rightarrow> 'p list) \<Rightarrow> bool" where
  "unlevelled s t f \<longleftrightarrow>
     qrep s f \<and> (\<forall>p. p \<noteq> t \<longrightarrow> thread_ok s p)
     \<and> (link_is_queued (links s t) \<longleftrightarrow> node_state (nodes s t) = Ready)
     \<and> (running s = Some t \<longleftrightarrow> node_state (nodes s t) = Running)
     \<and> base (nodes s t) \<in> {1..63} \<and> node_boost (nodes s t) \<le> 63"

lemma unlevelledI:
  assumes rep: "sched_rep s f" and "node_state n = node_state (nodes s t)"
    and "base n \<in> {1..63}" and "node_boost n \<le> 63"
  shows "unlevelled (s\<lparr>nodes := (nodes s)(t := n), slice_end := e\<rparr>) t f"
proof -
  have "thread_ok (s\<lparr>nodes := (nodes s)(t := n), slice_end := e\<rparr>) p" if "p \<noteq> t" for p
    using that by (intro thread_ok_same [OF thread_ok_rep [OF rep]]) auto
  then show ?thesis
    using sched_repD(1) [OF rep] sched_repD(2,3) [OF rep, of t] assms by (simp add: unlevelled_def)
qed

lemma levelled:
  assumes un: "unlevelled s t f" and "qrep s' f'" and qo: "queue_only s s'"
    and lv: "\<And>p. level (links s' p) = (if p = t then effective (nodes s t) else level (links s p))"
    and qd: "\<And>p. link_is_queued (links s' p) = link_is_queued (links s p)"
  shows "sched_rep s' f'"
proof (rule sched_repI [OF assms(2)])
  show "thread_ok s' p" for p
  proof (cases "p = t")
    case True
    then show ?thesis
      using un queue_onlyD [OF qo] lv qd
      by (auto simp: unlevelled_def thread_ok_def PRIORITY_LEVELS_def)
  next
    case False
    then show ?thesis
      using un queue_onlyD [OF qo] lv qd
      by (intro thread_ok_same [of s p s']) (auto simp: unlevelled_def)
  qed
qed

text \<open>The effect of \<open>relevel\<close> beside the lists: a ready thread that rises has a new quantum.\<close>

definition relevelled :: "'p sched \<Rightarrow> 'p \<Rightarrow> 'p sched \<Rightarrow> bool" where
  "relevelled s t s' \<longleftrightarrow>
     nodes s' = (if node_state (nodes s t) = Ready \<and> effective (nodes s t) > level (links s t)
       then (nodes s)(t := (nodes s t)\<lparr>slice_left := quantum s\<rparr>) else nodes s)
     \<and> running s' = running s \<and> slice_end s' = slice_end s \<and> quantum s' = quantum s
     \<and> (\<forall>p. p \<noteq> t \<longrightarrow> level (links s' p) = level (links s p))"

lemma relevel_rep:
  assumes un: "unlevelled s t f"
  defines "lvl \<equiv> effective (nodes s t)" and "old \<equiv> level (links s t)"
  defines "n \<equiv> nodes s t"
  obtains s' where "relevel s t lvl = Some s'"
    and "sched_rep s' (if node_state n = Ready then moved t old lvl f else f)"
    and "relevelled s t s'"
proof -
  have range: "lvl \<in> {1..63}" and q: "qrep s f"
    using un by (auto simp: unlevelled_def lvl_def effective_def)
  consider (same) "lvl = old" | (other) "lvl \<noteq> old" "node_state n \<noteq> Ready"
    | (ready) "lvl \<noteq> old" "node_state n = Ready"
    by blast
  then show ?thesis
  proof cases
    case same
    have "sched_rep s f"
      using same by (intro levelled [OF un q]) (auto simp: queue_only_def lvl_def old_def)
    then show ?thesis
      using same by (intro that [of s]) (simp_all add: relevel_def old_def lvl_def moved_def relevelled_def)
  next
    case other
    then have "\<not> link_is_queued (links s t)"
      using un by (simp add: unlevelled_def n_def)
    then obtain s' where s': "node_set_level s t lvl = Some s'" "qrep s' f" "queue_only s s'"
        "\<And>p. level (links s' p) = (if p = t then lvl else level (links s p))"
        "\<And>p. link_is_queued (links s' p) = link_is_queued (links s p)"
      using q_set_level [OF q] by blast
    then have "sched_rep s' f"
      by (intro levelled [OF un]) (simp_all add: lvl_def)
    then show ?thesis
      using s' other queue_onlyD [OF s'(3)]
      by (intro that [of s']) (auto simp: relevel_def old_def n_def relevelled_def)
  next
    case ready
    let ?s = "if lvl > old then upd_node t (\<lambda>n. n\<lparr>slice_left := quantum s\<rparr>) s else s"
    have un': "unlevelled ?s t f"
      using un by (auto simp: unlevelled_def thread_ok_def)
    have "link_is_queued (links ?s t)"
      using un' ready by (simp add: unlevelled_def n_def)
    then obtain s' where s': "ready_move_to ?s t lvl = Some s'" "qrep s' (moved t old lvl f)"
        "queue_only ?s s'" "\<And>p. level (links s' p) = (if p = t then lvl else level (links ?s p))"
        "\<And>p. link_is_queued (links s' p) = link_is_queued (links ?s p)"
      using q_move_to [of ?s f t lvl] un' range by (auto simp: unlevelled_def old_def split: if_splits)
    then have "sched_rep s' (moved t old lvl f)"
      by (intro levelled [OF un']) (simp_all add: lvl_def)
    moreover have "relevel s t lvl = Some s'"
      using s'(1) ready by (simp add: relevel_def old_def n_def)
    ultimately show ?thesis
      using s' ready queue_onlyD [OF s'(3)]
      by (intro that [of s']) (simp_all add: n_def lvl_def old_def relevelled_def)
  qed
qed

lemma boost_rep:
  fixes t :: 'p
  assumes rep: "sched_rep s f" and "lvl \<le> 63 \<or> ceiling \<le> 63"
  defines "n \<equiv> (nodes s t)\<lparr>node_boost := max (node_boost (nodes s t)) (min lvl ceiling)\<rparr>"
  obtains s' where "boost s t lvl ceiling = Some s'"
    and "sched_rep s' (if node_state (nodes s t) = Ready then moved t (priority s t) (effective n) f else f)"
    and "relevelled (s\<lparr>nodes := (nodes s)(t := n)\<rparr>) t s'"
proof -
  let ?s = "s\<lparr>nodes := (nodes s)(t := n), slice_end := slice_end s\<rparr>"
  have un: "unlevelled ?s t f"
    using sched_repD(6,7) [OF rep, of t] assms(2) by (intro unlevelledI [OF rep]) (auto simp: n_def)
  have call: "boost s t lvl ceiling = relevel ?s t (effective (nodes ?s t))"
    by (simp add: boost_def upd_node_def n_def Let_def)
  obtain s' where "relevel ?s t (effective (nodes ?s t)) = Some s'"
    "sched_rep s' (if node_state (nodes ?s t) = Ready
       then moved t (level (links ?s t)) (effective (nodes ?s t)) f else f)" "relevelled ?s t s'"
    by (rule relevel_rep [OF un])
  then show ?thesis
    using call by (intro that [of s']) (simp_all add: priority_def n_def split: if_splits)
qed

lemma unboost_rep:
  fixes t :: 'p
  assumes rep: "sched_rep s f"
  defines "n \<equiv> (nodes s t)\<lparr>node_boost := 0\<rparr>"
  obtains s' where "unboost s t = Some s'"
    and "sched_rep s' (if node_state (nodes s t) = Ready then moved t (priority s t) (base n) f else f)"
    and "relevelled (s\<lparr>nodes := (nodes s)(t := n)\<rparr>) t s'"
proof -
  let ?s = "s\<lparr>nodes := (nodes s)(t := n), slice_end := slice_end s\<rparr>"
  have un: "unlevelled ?s t f"
    using sched_repD(6,7) [OF rep, of t] by (intro unlevelledI [OF rep]) (auto simp: n_def)
  have call: "unboost s t = relevel ?s t (effective (nodes ?s t))"
    by (simp add: unboost_def upd_node_def n_def Let_def)
  obtain s' where "relevel ?s t (effective (nodes ?s t)) = Some s'"
    "sched_rep s' (if node_state (nodes ?s t) = Ready
       then moved t (level (links ?s t)) (effective (nodes ?s t)) f else f)" "relevelled ?s t s'"
    by (rule relevel_rep [OF un])
  then show ?thesis
    using call by (intro that [of s']) (simp_all add: priority_def n_def effective_def split: if_splits)
qed

text \<open>A thread between two levels: out of the queue, its new level in its link.\<close>

lemma unlevelled_transit:
  assumes un: "unlevelled s t f" and q: "qrep s' f'" and "nodes s' = (nodes s)(t := n)"
    and "node_state n = Ready" and "base n = base (nodes s t)" and "node_boost n = node_boost (nodes s t)"
    and "running s' \<noteq> Some t" and "\<And>p. p \<noteq> t \<Longrightarrow> running s' = Some p \<longleftrightarrow> running s = Some p"
    and "\<And>p. level (links s' p) = (if p = t then effective (nodes s t) else level (links s p))"
    and "\<And>p. link_is_queued (links s' p) \<longleftrightarrow> p \<noteq> t \<and> link_is_queued (links s p)"
  shows "in_transit s' t f'"
proof -
  have "thread_ok s' p" if "p \<noteq> t" for p
    using that un assms(3,8-10) by (intro thread_ok_same [of s p s']) (auto simp: unlevelled_def)
  moreover have "effective n = effective (nodes s t)"
    using assms(5,6) by (simp add: effective_def)
  ultimately show ?thesis
    using un q assms(3-7,9,10) by (auto simp: in_transit_def unlevelled_def)
qed

lemma requeue_ready:
  assumes un: "unlevelled s t f" and n: "n = nodes s t" "node_state n = Ready"
    and tail: "tail" "node_boost n \<le> base n"
  obtains s' f' where "requeue s t tail now = Some s'" and "sched_rep s' f'"
    and "nodes s' = (nodes s)(t := n\<lparr>slice_left := quantum s\<rparr>)" and "quantum s' = quantum s"
proof -
  have q: "qrep s f" "link_is_queued (links s t)" "running s \<noteq> Some t"
    using un n by (auto simp: unlevelled_def)
  obtain s2 f2 where s2: "ready_remove s t = Some s2" "qrep s2 f2" "queue_only s s2"
      "\<And>p. level (links s2 p) = level (links s p)"
      "\<And>p. link_is_queued (links s2 p) \<longleftrightarrow> p \<noteq> t \<and> link_is_queued (links s p)"
    using q_remove [OF q(1,2)] by metis
  then obtain s3 where s3: "node_set_level s2 t (effective n) = Some s3" "qrep s3 f2" "queue_only s2 s3"
      "\<And>p. level (links s3 p) = (if p = t then effective n else level (links s2 p))"
      "\<And>p. link_is_queued (links s3 p) = link_is_queued (links s2 p)"
    using q_set_level [OF s2(2), of t "effective n"] by metis
  let ?s4 = "upd_node t (\<lambda>n. n\<lparr>slice_left := quantum s3\<rparr>) s3"
  note eqs = queue_onlyD [OF s2(3)] queue_onlyD [OF s3(3)]
  have "in_transit ?s4 t f2"
    using s2 s3 eqs q n
    by (intro unlevelled_transit [OF un, where n = "n\<lparr>slice_left := quantum s3\<rparr>"]) auto
  then obtain s5 f5 where s5: "ready_push_tail ?s4 t = Some s5" "sched_rep s5 f5" "queue_only ?s4 s5"
    by (rule transit_push_tail)
  have "requeue s t tail now = Some s5"
    using n tail s2(1) s3(1) s5(1) by (simp add: requeue_def)
  then show ?thesis
    using that s5(2) queue_onlyD [OF s5(3)] eqs n by simp
qed

lemma requeue_running:
  assumes un: "unlevelled s t f" and n: "n = nodes s t" "node_state n = Running"
    and tail: "tail" "node_boost n \<le> base n"
  obtains s' f' where "requeue s t tail now = Some s'" and "sched_rep s' f'"
    and "nodes s' = (nodes s)(t := (charged n now)\<lparr>node_state := Ready, slice_left := quantum s\<rparr>)"
    and "quantum s' = quantum s"
proof -
  have q: "qrep (charge t now s) f" "\<not> link_is_queued (links (charge t now s) t)" "running s = Some t"
    using un n by (auto simp: unlevelled_def)
  obtain s3 where s3: "node_set_level (charge t now s) t (effective n) = Some s3" "qrep s3 f"
      "queue_only (charge t now s) s3"
      "\<And>p. level (links s3 p) = (if p = t then effective n else level (links (charge t now s) p))"
      "\<And>p. link_is_queued (links s3 p) = link_is_queued (links (charge t now s) p)"
    using q_set_level [OF q(1,2), of "effective n"] by metis
  let ?s4 = "(upd_node t (\<lambda>n. n\<lparr>node_state := Ready, slice_left := quantum s3\<rparr>) s3)\<lparr>running := None\<rparr>"
  note eqs = queue_onlyD [OF s3(3)]
  have "in_transit ?s4 t f"
    using s3 eqs q n
    by (intro unlevelled_transit [OF un,
          where n = "(charged n now)\<lparr>node_state := Ready, slice_left := quantum s3\<rparr>"]) auto
  then obtain s5 f5 where s5: "ready_push_tail ?s4 t = Some s5" "sched_rep s5 f5" "queue_only ?s4 s5"
    by (rule transit_push_tail)
  have "requeue s t tail now = Some s5"
    using n tail s3(1) s5(1) by (simp add: requeue_def)
  then show ?thesis
    using that s5(2) queue_onlyD [OF s5(3)] eqs n by simp
qed

lemma requeue_stays:
  assumes un: "unlevelled s t f" and n: "n = nodes s t"
    and "\<not> (tail \<and> node_boost n \<le> base n \<and> node_state n \<in> {Ready, Running})"
  obtains s' f' where "requeue s t tail now = Some s'" and "sched_rep s' f'" and "relevelled s t s'"
proof -
  have "requeue s t tail now = relevel s t (effective (nodes s t))"
    using assms(2,3) by (auto simp: requeue_def)
  then show ?thesis
    using relevel_rep [OF un] that by metis
qed

text \<open>What \<open>set_priority\<close> leaves in the thread, whichever way it goes.\<close>

definition prioritised :: "'p sched \<Rightarrow> 'p \<Rightarrow> nat \<Rightarrow> policy \<Rightarrow> u64 \<Rightarrow> 'p sched \<Rightarrow> bool" where
  "prioritised s t prio pol now s' \<longleftrightarrow>
     (\<forall>p. p \<noteq> t \<longrightarrow> nodes s' p = nodes s p) \<and> quantum s' = quantum s
     \<and> base (nodes s' t) = prio \<and> node_policy (nodes s' t) = pol
     \<and> node_boost (nodes s' t) = node_boost (nodes s t)
     \<and> ran_at (nodes s' t) now = ran_at (nodes s t) now
     \<and> (node_state (nodes s' t) = node_state (nodes s t)
        \<or> node_state (nodes s t) = Running \<and> node_state (nodes s' t) = Ready)"

lemma take_priority_unlevelled:
  assumes rep: "sched_rep s f" and prio: "1 \<le> prio" "prio \<le> 63"
  obtains e q where "unlevelled (take_priority s t prio pol now) t f"
    and "take_priority s t prio pol now = s\<lparr>nodes := (nodes s)(t :=
      (nodes s t)\<lparr>slice_left := q, node_policy := pol, base := prio\<rparr>), slice_end := e\<rparr>"
proof -
  let ?st = "node_state (nodes s t)"
  let ?rr = "node_policy (nodes s t) = Fifo \<and> pol = RoundRobin"
  let ?q = "if ?st = Ready \<and> ?rr then quantum s else slice_left (nodes s t)"
  let ?e = "if ?st = Running \<and> ?rr then saturating_add now (quantum s) else slice_end s"
  let ?n = "(nodes s t)\<lparr>slice_left := ?q, node_policy := pol, base := prio\<rparr>"
  have eq: "take_priority s t prio pol now = s\<lparr>nodes := (nodes s)(t := ?n), slice_end := ?e\<rparr>"
    by (simp add: take_priority_def upd_node_def Let_def)
  moreover have "unlevelled (take_priority s t prio pol now) t f"
    unfolding eq using prio sched_repD(7) [OF rep, of t] by (intro unlevelledI [OF rep]) auto
  ultimately show ?thesis
    using that by blast
qed

lemma set_priority_rep:
  assumes rep: "sched_rep s f" and prio: "1 \<le> prio" "prio \<le> 63" and alive: "node_state (nodes s t) \<noteq> Dead"
  obtains s' f' where "set_priority s t prio pol tail now = Some (Inr (), s')" and "sched_rep s' f'"
    and "prioritised s t prio pol now s'"
proof -
  obtain e q where un: "unlevelled (take_priority s t prio pol now) t f"
    and eq: "take_priority s t prio pol now = s\<lparr>nodes := (nodes s)(t :=
      (nodes s t)\<lparr>slice_left := q, node_policy := pol, base := prio\<rparr>), slice_end := e\<rparr>"
    using take_priority_unlevelled [OF rep prio] by metis
  define s1 n where s1: "s1 = take_priority s t prio pol now" and n: "n = nodes s1 t"
  have n': "n = (nodes s t)\<lparr>slice_left := q, node_policy := pol, base := prio\<rparr>"
    by (simp add: n s1 eq)
  have call: "set_priority s t prio pol tail now =
      Option.bind (requeue s1 t tail now) (\<lambda>s'. Some (Inr (), s'))"
    using alive prio by (simp add: set_priority_def PRIORITY_LEVELS_def s1)
  consider (ready) "tail" "node_boost n \<le> base n" "node_state n = Ready"
    | (running) "tail" "node_boost n \<le> base n" "node_state n = Running"
    | (stays) "\<not> (tail \<and> node_boost n \<le> base n \<and> node_state n \<in> {Ready, Running})"
    by auto
  then obtain s' f' where s': "requeue s1 t tail now = Some s'" "sched_rep s' f'"
    "prioritised s t prio pol now s'"
  proof cases
    case ready
    then obtain s' f' where "requeue s1 t tail now = Some s'" "sched_rep s' f'"
        "nodes s' = (nodes s1)(t := n\<lparr>slice_left := quantum s1\<rparr>)" "quantum s' = quantum s1"
      using requeue_ready [OF un [folded s1] n] by metis
    then show ?thesis
      using ready by (intro that [of s' f']) (auto simp: prioritised_def s1 eq n' ran_at_def)
  next
    case running
    then obtain s' f' where "requeue s1 t tail now = Some s'" "sched_rep s' f'"
        "nodes s' = (nodes s1)(t := (charged n now)\<lparr>node_state := Ready, slice_left := quantum s1\<rparr>)"
        "quantum s' = quantum s1"
      using requeue_running [OF un [folded s1] n] by metis
    then show ?thesis
      using running by (intro that [of s' f']) (auto simp: prioritised_def s1 eq n' ran_at_def)
  next
    case stays
    then obtain s' f' where "requeue s1 t tail now = Some s'" "sched_rep s' f'" "relevelled s1 t s'"
      using requeue_stays [OF un [folded s1] n] by metis
    then show ?thesis
      by (intro that [of s' f']) (auto simp: prioritised_def relevelled_def s1 eq ran_at_def)
  qed
  then show ?thesis
    using call that by simp
qed

section \<open>The other ways on and off the CPU\<close>

lemma off_queue_change:
  assumes rep: "sched_rep s f" and "node_state (nodes s t) \<noteq> Ready" and "node_state n \<noteq> Ready"
    and "base n = base (nodes s t)" and "node_boost n = node_boost (nodes s t)"
    and "r = Some t \<longleftrightarrow> node_state n = Running" and "\<And>p. p \<noteq> t \<Longrightarrow> r = Some p \<longleftrightarrow> running s = Some p"
  shows "sched_rep (s\<lparr>nodes := (nodes s)(t := n), slice_end := e, running := r\<rparr>) f"
proof (rule sched_repI)
  let ?s = "s\<lparr>nodes := (nodes s)(t := n), slice_end := e, running := r\<rparr>"
  show "thread_ok ?s p" for p
  proof (cases "p = t")
    case True
    have "effective n = effective (nodes s t)"
      using assms(4,5) by (simp add: effective_def)
    then show ?thesis
      using True thread_ok_rep [OF rep, of t] assms(2-6) by (simp add: thread_ok_def)
  next
    case False
    then show ?thesis
      using assms(7) by (intro thread_ok_same [OF thread_ok_rep [OF rep]]) auto
  qed
qed (use sched_repD(1) [OF rep] in simp)

lemma leaves_cpu:
  assumes rep: "sched_rep s f" and r: "running s = Some r" and "st \<notin> {Ready, Running}"
  shows "sched_rep (upd_node r (\<lambda>n. n\<lparr>node_state := st\<rparr>) (charge r now (s\<lparr>running := None\<rparr>))) f"
proof -
  have "node_state (nodes s r) = Running"
    using sched_repD(3) [OF rep] r by blast
  then have "sched_rep (s\<lparr>nodes := (nodes s)(r := (charged (nodes s r) now)\<lparr>node_state := st\<rparr>),
      slice_end := slice_end s, running := None\<rparr>) f"
    using assms(3) off_cpu [OF rep r] by (intro off_queue_change [OF rep]) auto
  then show ?thesis
    by (simp add: charge_def upd_node_running) (simp add: upd_node_def)
qed

lemma block_rep:
  assumes "sched_rep s f" and r: "running s = Some r"
  obtains s' where "block s now = Some (r, s')" and "sched_rep s' f"
    and "nodes s' = (nodes s)(r := (charged (nodes s r) now)\<lparr>node_state := Waiting\<rparr>)"
    and "running s' = None" and "links s' = links s" and "quantum s' = quantum s"
  using leaves_cpu [OF assms, of Waiting now] r that by (simp add: block_def)

lemma park_rep:
  assumes "sched_rep s f" and r: "running s = Some r"
  obtains s' where "park s r now = Some s'" and "sched_rep s' f"
    and "nodes s' = (nodes s)(r := (charged (nodes s r) now)\<lparr>node_state := Parked\<rparr>)"
  using leaves_cpu [OF assms, of Parked now] r that by (simp add: park_def)

lemma unpark_rep:
  assumes rep: "sched_rep s f" and t: "node_state (nodes s t) = Parked"
  obtains s' where "unpark s t = Some s'"
    and "sched_rep s' (f(priority s t := f (priority s t) @ [t]))"
    and "nodes s' = (nodes s)(t := (nodes s t)\<lparr>node_state := Ready, slice_left := quantum s\<rparr>)"
proof -
  let ?s = "upd_node t (\<lambda>n. n\<lparr>node_state := Waiting\<rparr>) s"
  have "sched_rep (s\<lparr>nodes := (nodes s)(t := (nodes s t)\<lparr>node_state := Waiting\<rparr>),
      slice_end := slice_end s, running := running s\<rparr>) f"
    using t not_running [OF rep, of t] by (intro off_queue_change [OF rep]) auto
  then have "sched_rep ?s f"
    by (simp add: upd_node_def)
  from wake_rep [OF this, of t] show ?thesis
    using that t by (auto simp: unpark_def priority_def)
qed

lemma hand_off_rep:
  assumes rep: "sched_rep s f" and t: "node_state (nodes s t) = Waiting" and free: "running s = None"
    and top: "can_hand_off s (priority s t) None"
  obtains s' where "hand_off s t now = Some s'" and "sched_rep s' f"
    and "s' = s\<lparr>nodes := (nodes s)(t := (nodes s t)\<lparr>node_state := Running, since := now, slice_left := 0\<rparr>),
          slice_end := saturating_add now (quantum s), running := Some t\<rparr>"
proof -
  have "hand_off s t now = Some (s\<lparr>nodes := (nodes s)(t := (nodes s t)
      \<lparr>node_state := Running, since := now, slice_left := 0\<rparr>),
      slice_end := saturating_add now (quantum s), running := Some t\<rparr>)"
    using t free top by (simp add: hand_off_def upd_node_def)
  moreover have "sched_rep (s\<lparr>nodes := (nodes s)(t := (nodes s t)
      \<lparr>node_state := Running, since := now, slice_left := 0\<rparr>),
      slice_end := saturating_add now (quantum s), running := Some t\<rparr>) f"
    using t free by (intro off_queue_change [OF rep]) auto
  ultimately show ?thesis
    using that by blast
qed

lemma exit_rep:
  assumes rep: "sched_rep s f"
  obtains s' f' where "exit s t now = Some s'" and "sched_rep s' f'"
    and "node_state (nodes s' t) = Dead" and "\<And>p. p \<noteq> t \<Longrightarrow> nodes s' p = nodes s p"
    and "ran_at (nodes s' t) now = ran_at (nodes s t) now" and "\<And>l. t \<notin> set (f' l)"
    and "running s' \<noteq> Some t"
proof -
  let ?st = "node_state (nodes s t)"
  have dead: "t \<notin> set (f' l)" "running s' \<noteq> Some t"
    if "sched_rep s' f'" "node_state (nodes s' t) = Dead" for s' f' l
    using qrepD(4) [OF sched_repD(1) [OF that(1)], of t l] sched_repD(2,3) [OF that(1), of t] that(2)
    by auto
  consider (run) "?st = Running" | (ready) "?st = Ready" | (other) "?st \<notin> {Running, Ready}"
    by auto
  then show ?thesis
  proof cases
    case run
    then have r: "running s = Some t"
      using sched_repD(3) [OF rep] by blast
    let ?s = "upd_node t (\<lambda>n. n\<lparr>node_state := Dead\<rparr>) (charge t now (s\<lparr>running := None\<rparr>))"
    have "sched_rep ?s f"
      using leaves_cpu [OF rep r] by simp
    then show ?thesis
      using run r dead [of ?s f] by (intro that [of ?s f]) (simp_all add: exit_def ran_at_def)
  next
    case ready
    then have "link_is_queued (links s t)"
      using sched_repD(2) [OF rep] by blast
    then obtain s1 f1 where s1: "ready_remove s t = Some s1" "qrep s1 f1" "queue_only s s1"
        "\<And>p. level (links s1 p) = level (links s p)"
        "\<And>p. link_is_queued (links s1 p) \<longleftrightarrow> p \<noteq> t \<and> link_is_queued (links s p)"
      using q_remove [OF sched_repD(1) [OF rep]] by metis
    let ?s = "upd_node t (\<lambda>n. n\<lparr>node_state := Dead\<rparr>) s1"
    have "thread_ok ?s p" for p
      using thread_ok_rep [OF rep, of p] s1(4,5) queue_onlyD [OF s1(3)] ready
      by (auto simp: thread_ok_def)
    then have "sched_rep ?s f1"
      using s1(2) by (intro sched_repI) simp_all
    then show ?thesis
      using ready s1(1) queue_onlyD [OF s1(3)] dead [of ?s f1]
      by (intro that [of ?s f1]) (simp_all add: exit_def ran_at_def)
  next
    case other
    let ?s = "upd_node t (\<lambda>n. n\<lparr>node_state := Dead\<rparr>) s"
    have "sched_rep (s\<lparr>nodes := (nodes s)(t := (nodes s t)\<lparr>node_state := Dead\<rparr>),
        slice_end := slice_end s, running := running s\<rparr>) f"
      using other not_running [OF rep, of t] by (intro off_queue_change [OF rep]) auto
    then have "sched_rep ?s f"
      by (simp add: upd_node_def)
    moreover have "\<not> link_is_queued (links s t)"
      using sched_repD(2) [OF rep] other by blast
    then have "exit s t now = Some ?s"
      using other by (cases ?st) (simp_all add: exit_def)
    ultimately show ?thesis
      using other dead [of ?s f] by (intro that [of ?s f]) (simp_all add: ran_at_def)
  qed
qed

end
