(* ===== verification/Scheduler_Calls.thy ===== *)
theory Scheduler_Calls
  imports Scheduler_Invariant
begin

text \<open>
  Sequences of calls to the scheduler: the calls and their contracts as a datatype, the states
  they reach from boot, and what the kernel relies on: no call within its contract stops the
  kernel, the decision runs the highest thread, the fast path of a send is the slow path, round
  robin takes turns, CPU time is conserved, a boost stays below the ceiling.
\<close>

section \<open>Every sequence of calls\<close>

text \<open>
  The calls the kernel makes, with what each promises of its arguments (the \<open>Safety\<close>
  comments and the assertions of the source). \<open>Do_Create\<close> is a new \<open>Node\<close> in the
  place of a thread that never started or has ended.
\<close>

datatype 'p sched_call =
    Do_Create 'p nat policy
  | Do_Set_Quantum u64
  | Do_Start 'p
  | Do_Pick u64 "nat option"
  | Do_Tick u64
  | Do_Yield u64
  | Do_Set_Priority 'p nat policy bool u64
  | Do_Boost 'p nat nat
  | Do_Unboost 'p
  | Do_Block u64
  | Do_Wake 'p
  | Do_Park 'p u64
  | Do_Unpark 'p
  | Do_Hand_Off 'p u64
  | Do_Exit 'p u64

fun sched_do :: "'p sched_call \<Rightarrow> 'p sched \<Rightarrow> 'p sched option" where
  "sched_do (Do_Create t prio pol) s =
     Some (s\<lparr>nodes := (nodes s)(t := node_new prio pol), links := (links s)(t := link_new prio)\<rparr>)"
| "sched_do (Do_Set_Quantum q) s = set_quantum s q"
| "sched_do (Do_Start t) s = map_option snd (start s t)"
| "sched_do (Do_Pick now cleanup) s = map_option snd (pick s now cleanup)"
| "sched_do (Do_Tick now) s = tick s now"
| "sched_do (Do_Yield now) s = yield_running s now"
| "sched_do (Do_Set_Priority t prio pol tail now) s = map_option snd (set_priority s t prio pol tail now)"
| "sched_do (Do_Boost t lvl ceiling) s = boost s t lvl ceiling"
| "sched_do (Do_Unboost t) s = unboost s t"
| "sched_do (Do_Block now) s = map_option snd (block s now)"
| "sched_do (Do_Wake t) s = wake s t"
| "sched_do (Do_Park t now) s = park s t now"
| "sched_do (Do_Unpark t) s = unpark s t"
| "sched_do (Do_Hand_Off t now) s = hand_off s t now"
| "sched_do (Do_Exit t now) s = exit s t now"

fun allowed :: "'p sched_call \<Rightarrow> 'p sched \<Rightarrow> bool" where
  "allowed (Do_Create t prio pol) s \<longleftrightarrow>
     1 \<le> prio \<and> prio < PRIORITY_LEVELS \<and> node_state (nodes s t) \<in> {Stopped, Dead}"
| "allowed (Do_Set_Quantum q) s \<longleftrightarrow> q > 0"
| "allowed (Do_Start t) s \<longleftrightarrow> quantum s > 0"
| "allowed (Do_Set_Priority t prio pol tail now) s \<longleftrightarrow> 1 \<le> prio \<and> prio < PRIORITY_LEVELS"
| "allowed (Do_Boost t lvl ceiling) s \<longleftrightarrow> lvl < PRIORITY_LEVELS \<or> ceiling < PRIORITY_LEVELS"
| "allowed (Do_Block now) s \<longleftrightarrow> running s \<noteq> None"
| "allowed (Do_Wake t) s \<longleftrightarrow> node_state (nodes s t) = Waiting"
| "allowed (Do_Park t now) s \<longleftrightarrow> running s = Some t"
| "allowed (Do_Unpark t) s \<longleftrightarrow> node_state (nodes s t) = Parked"
| "allowed (Do_Hand_Off t now) s \<longleftrightarrow>
     running s = None \<and> node_state (nodes s t) = Waiting \<and> can_hand_off s (priority s t) None"
| "allowed _ s \<longleftrightarrow> True"

inductive sched_reachable :: "'p sched \<Rightarrow> bool" where
  boot: "(\<And>t. 1 \<le> prio t \<and> prio t < PRIORITY_LEVELS) \<Longrightarrow>
    sched_reachable (sched_new (\<lambda>t. link_new (prio t)) (\<lambda>t. node_new (prio t) (pol t)) q)"
| call: "sched_reachable s \<Longrightarrow> allowed c s \<Longrightarrow> sched_do c s = Some s' \<Longrightarrow> sched_reachable s'"

lemma create_rep:
  assumes rep: "sched_rep s f" and "1 \<le> prio" "prio < PRIORITY_LEVELS"
    and st: "node_state (nodes s t) \<in> {Stopped, Dead}"
  shows "sched_rep (s\<lparr>nodes := (nodes s)(t := node_new prio pol), links := (links s)(t := link_new prio)\<rparr>) f"
    (is "sched_rep ?s f")
proof (rule sched_repI)
  have out: "\<not> link_is_queued (links s t)" "running s \<noteq> Some t"
    using sched_repD(2,3) [OF rep, of t] st by auto
  then have t: "t \<notin> set (f l)" for l
    using qrepD(4) [OF sched_repD(1) [OF rep]] by blast
  then have "rq_rep ((links s)(t := link_new prio)) (ready s) f"
    by (intro rq_rep_cong [OF qrepD(1) [OF sched_repD(1) [OF rep]]]) (metis fun_upd_other)
  then show "qrep ?s f"
    using qrepD(2) [OF sched_repD(1) [OF rep]] t
    by (auto simp: qrep_def rq_refines_def link_new_def link_is_queued_def)
  show "thread_ok ?s p" for p
  proof (cases "p = t")
    case True
    then show ?thesis
      using assms(2,3) out by (simp add: thread_ok_def node_new_def link_new_def link_is_queued_def
          effective_def)
  qed (auto intro: thread_ok_same [OF thread_ok_rep [OF rep]])
qed

text \<open>A thread's time as seen at \<open>now\<close> is not changed by a call at \<open>now\<close>.\<close>

abbreviation same_time :: "u64 \<Rightarrow> 'p sched \<Rightarrow> 'p sched \<Rightarrow> bool" where
  "same_time now s s' \<equiv> \<forall>p. ran_at (nodes s' p) now = ran_at (nodes s p) now"

lemma saturating_sub_self [simp]: "saturating_sub a (a :: u64) = 0"
  by (simp add: saturating_sub_def)

lemma saturating_add_zero [simp]: "saturating_add a (0 :: u64) = a"
  using unat_below [of a] by (simp add: saturating_add_def)

lemma top_bounds:
  assumes "rq_rep ls q f" and "f k \<noteq> []"
  obtains h where "rq_top q = Some h" and "k \<le> h"
  using rep_top [OF assms(1)] assms(2) by (cases "rq_top q") auto

text \<open>A decision that is right for the lists \<open>f\<close> it leaves.\<close>

fun decided :: "nat option \<Rightarrow> (nat \<Rightarrow> 'p list) \<Rightarrow> 'p sched \<Rightarrow> 'p decision \<Rightarrow> bool" where
  "decided cleanup f s (Run t) \<longleftrightarrow>
     running s = Some t \<and> (\<forall>k p. p \<in> set (f k) \<longrightarrow> k \<le> priority s t)
     \<and> (\<forall>c. cleanup = Some c \<longrightarrow> c < priority s t)"
| "decided cleanup f s Clean \<longleftrightarrow>
     running s = None \<and> (\<exists>c. cleanup = Some c \<and> (\<forall>k. f k \<noteq> [] \<longrightarrow> k \<le> c))"
| "decided cleanup f s Idle \<longleftrightarrow> running s = None \<and> cleanup = None \<and> (\<forall>k. f k = [])"

lemma pick_rep:
  assumes rep: "sched_rep s f"
  obtains d s' f' where "pick s now cleanup = Some (d, s')" and "sched_rep s' f'"
    and "\<And>p. (node_state (nodes s' p) \<in> {Ready, Running}) = (node_state (nodes s p) \<in> {Ready, Running})"
    and "same_time now s s'"
    and "decided cleanup f' s' d"
proof -
  note stays = that
  show ?thesis
  proof (cases "\<exists>r. running s = Some r \<and> pick_goes_on s cleanup r")
    case True
    then obtain r where r: "running s = Some r" "pick_goes_on s cleanup r"
      by blast
    have "k \<le> priority s r" if "p \<in> set (f k)" for k p
    proof -
      have "f k \<noteq> []"
        using that by auto
      then obtain h where "rq_top (ready s) = Some h" "k \<le> h"
        by (rule top_bounds [OF qrepD(1) [OF sched_repD(1) [OF rep]]])
      then show ?thesis
        using r(2) by (simp add: pick_goes_on_def)
    qed
    then show ?thesis
      using r rep by (intro stays [of "Run r" s f]) (auto simp: pick_def pick_goes_on_def)
  next
    case False
    obtain s1 f1 where s1: "pick s now cleanup = pick_next s1 now cleanup" "sched_rep s1 f1"
        "running s1 = None" "same_time now s s1"
        "\<And>p. (node_state (nodes s1 p) \<in> {Ready, Running}) = (node_state (nodes s p) \<in> {Ready, Running})"
    proof (cases "running s")
      case None
      then show ?thesis
        using that [of s f] rep by (simp add: pick_def)
    next
      case (Some r)
      then obtain s1 f1 q where s1: "preempt s r now = Some s1" "sched_rep s1 f1" "went_ready s r q now s1"
        using preempt_rep [OF rep Some] by metis
      have "node_state (nodes s r) = Running"
        using sched_repD(3) [OF rep] Some by blast
      then show ?thesis
        using s1 False Some
        by (intro that [of s1 f1]) (auto simp: pick_def went_ready_def ran_at_def)
    qed
    show ?thesis
    proof (rule pick_next_rep [OF s1(2,3), of now cleanup], goal_cases)
      case (1 c)
      then show ?thesis
        using stays [of Clean s1 f1] s1 by auto
    next
      case 2
      then show ?thesis
        using stays [of Idle s1 f1] s1 by auto
    next
      case (3 l t ts s')
      have t: "node_state (nodes s1 t) = Ready" "level (links s1 t) = l"
        using qrepD(3,4) [OF sched_repD(1) [OF s1(2)], of t l] sched_repD(2) [OF s1(2), of t] 3(2) by auto
      have "k \<le> l" if "p \<in> set ((f1(l := ts)) k)" for k p
        using that 3(2) 3(3) [of k] by (cases "k = l"; cases "f1 k") auto
      moreover have "same_time now s s'"
      proof
        have "ran_at (nodes s' p) now = ran_at (nodes s1 p) now" for p
          using 3(6) t(1) by (simp add: ran_at_def)
        then show "ran_at (nodes s' p) now = ran_at (nodes s p) now" for p
          using s1(4) by simp
      qed
      moreover have "(node_state (nodes s' p) \<in> {Ready, Running}) =
          (node_state (nodes s p) \<in> {Ready, Running})" for p
        using s1(5) [of p] 3(6) t(1) by (cases "p = t") auto
      ultimately show ?thesis
        using 3 s1(1) t(2) by (intro stays [of "Run t" s' "f1(l := ts)"]) (simp_all add: priority_def)
    qed
  qed
qed

fun call_time :: "'p sched_call \<Rightarrow> u64 option" where
  "call_time (Do_Pick now _) = Some now"
| "call_time (Do_Tick now) = Some now"
| "call_time (Do_Yield now) = Some now"
| "call_time (Do_Set_Priority _ _ _ _ now) = Some now"
| "call_time (Do_Block now) = Some now"
| "call_time (Do_Park _ now) = Some now"
| "call_time (Do_Hand_Off _ now) = Some now"
| "call_time (Do_Exit _ now) = Some now"
| "call_time _ = None"

fun creates :: "'p sched_call \<Rightarrow> 'p \<Rightarrow> bool" where
  "creates (Do_Create t _ _) p \<longleftrightarrow> p = t"
| "creates _ p \<longleftrightarrow> False"

text \<open>What every call does: it goes through, keeps the invariant and everybody's time.\<close>

definition goes_well :: "'p sched_call \<Rightarrow> 'p sched \<Rightarrow> bool" where
  "goes_well c s \<longleftrightarrow>
     (\<exists>s' f'. sched_do c s = Some s' \<and> sched_rep s' f'
        \<and> (\<forall>now p. call_time c \<in> {None, Some now} \<longrightarrow> \<not> creates c p \<longrightarrow>
             ran_at (nodes s' p) now = ran_at (nodes s p) now))"

lemma goes_wellI:
  assumes "sched_do c s = Some s'" and "sched_rep s' f'"
    and "\<And>now p. call_time c \<in> {None, Some now} \<Longrightarrow> \<not> creates c p \<Longrightarrow>
      ran_at (nodes s' p) now = ran_at (nodes s p) now"
  shows "goes_well c s"
  using assms by (auto simp: goes_well_def)

lemma went_ready_time:
  assumes "sched_rep s f" and "running s = Some r" and "went_ready s r q now s'"
  shows "ran_at (nodes s' p) now = ran_at (nodes s p) now"
  using assms sched_repD(3) [OF assms(1), of r] by (auto simp: went_ready_def ran_at_def)

lemma relevelled_time:
  assumes "relevelled (s\<lparr>nodes := (nodes s)(t := n)\<rparr>) t s'" and "node_state n = node_state (nodes s t)"
    and "ran n = ran (nodes s t)" and "since n = since (nodes s t)"
  shows "ran_at (nodes s' p) now = ran_at (nodes s p) now"
  using assms by (auto simp: relevelled_def ran_at_def)

lemma cpu_calls_go_well:
  assumes rep: "sched_rep s f"
  shows "goes_well (Do_Pick now cleanup) s" and "goes_well (Do_Tick now) s"
    and "goes_well (Do_Yield now) s" and "running s \<noteq> None \<Longrightarrow> goes_well (Do_Block now) s"
    and "running s = Some t \<Longrightarrow> goes_well (Do_Park t now) s" and "goes_well (Do_Exit t now) s"
proof -
  obtain d s1 f1 where "pick s now cleanup = Some (d, s1)" "sched_rep s1 f1" "same_time now s s1"
    using pick_rep [OF rep, of now cleanup] by metis
  then show "goes_well (Do_Pick now cleanup) s"
    by (intro goes_wellI [of _ s s1 f1]) auto
  show "goes_well (Do_Tick now) s"
  proof (cases "\<exists>r. running s = Some r \<and> node_policy (nodes s r) = RoundRobin \<and> slice_end s \<le> now")
    case True
    then obtain r where r: "running s = Some r" "node_policy (nodes s r) = RoundRobin" "slice_end s \<le> now"
      by blast
    then obtain s1 f1 where "tick s now = Some s1" "sched_rep s1 f1" "went_ready s r (quantum s) now s1"
      using tick_ends [OF rep] by metis
    then show ?thesis
      using went_ready_time [OF rep r(1)] by (intro goes_wellI [of _ s s1 f1]) auto
  next
    case False
    then have "tick s now = Some s"
      by (intro tick_keeps) (auto simp: not_le, cases "running s", auto)
    then show ?thesis
      using rep by (intro goes_wellI [of _ s s f]) auto
  qed
  show "goes_well (Do_Yield now) s"
  proof (cases "running s")
    case None
    then show ?thesis
      using rep by (intro goes_wellI [of _ s s f]) (auto simp: yield_running_def)
  next
    case (Some r)
    then obtain s1 f1 where "yield_running s now = Some s1" "sched_rep s1 f1"
        "went_ready s r (quantum s) now s1"
      using yield_rep [OF rep] by metis
    then show ?thesis
      using went_ready_time [OF rep Some] by (intro goes_wellI [of _ s s1 f1]) auto
  qed
  show "goes_well (Do_Block now) s" if on: "running s \<noteq> None"
  proof -
    obtain r where r: "running s = Some r"
      using on by auto
    obtain s1 where "block s now = Some (r, s1)" "sched_rep s1 f"
        "nodes s1 = (nodes s)(r := (charged (nodes s r) now)\<lparr>node_state := Waiting\<rparr>)"
      using block_rep [OF rep r] by metis
    then show ?thesis
      using sched_repD(3) [OF rep, of r] r by (intro goes_wellI [of _ s s1 f]) (auto simp: ran_at_def)
  qed
  show "goes_well (Do_Park t now) s" if on: "running s = Some t"
  proof -
    obtain s1 where "park s t now = Some s1" "sched_rep s1 f"
        "nodes s1 = (nodes s)(t := (charged (nodes s t) now)\<lparr>node_state := Parked\<rparr>)"
      using park_rep [OF rep on] by metis
    then show ?thesis
      using sched_repD(3) [OF rep, of t] on by (intro goes_wellI [of _ s s1 f]) (auto simp: ran_at_def)
  qed
  obtain s2 f2 where ex: "exit s t now = Some s2" "sched_rep s2 f2"
      "\<And>p. p \<noteq> t \<Longrightarrow> nodes s2 p = nodes s p" "ran_at (nodes s2 t) now = ran_at (nodes s t) now"
    using exit_rep [OF rep, of t now] by metis
  have "ran_at (nodes s2 p) now = ran_at (nodes s p) now" for p
    using ex(3,4) by (cases "p = t") auto
  then show "goes_well (Do_Exit t now) s"
    using ex(1,2) by (intro goes_wellI [of _ s s2 f2]) auto
qed

lemma priority_calls_go_well:
  assumes rep: "sched_rep s f"
  shows "1 \<le> prio \<Longrightarrow> prio < PRIORITY_LEVELS \<Longrightarrow> goes_well (Do_Set_Priority t prio pol tail now) s"
    and "lvl < PRIORITY_LEVELS \<or> ceiling < PRIORITY_LEVELS \<Longrightarrow> goes_well (Do_Boost t lvl ceiling) s"
    and "goes_well (Do_Unboost t) s"
proof -
  show "goes_well (Do_Set_Priority t prio pol tail now) s" if range: "1 \<le> prio" "prio < PRIORITY_LEVELS"
  proof (cases "node_state (nodes s t) = Dead")
    case True
    then show ?thesis
      using rep range by (intro goes_wellI [of _ s s f]) (auto simp: set_priority_def)
  next
    case False
    have "prio \<le> 63"
      using range by (simp add: PRIORITY_LEVELS_def)
    then obtain s1 f1 where s1: "set_priority s t prio pol tail now = Some (Inr (), s1)"
        "sched_rep s1 f1" "prioritised s t prio pol now s1"
      using set_priority_rep [OF rep range(1) _ False] by metis
    have "ran_at (nodes s1 p) now = ran_at (nodes s p) now" for p
      using s1(3) by (cases "p = t") (auto simp: prioritised_def)
    then show ?thesis
      using s1(1,2) by (intro goes_wellI [of _ s s1 f1]) auto
  qed
  show "goes_well (Do_Boost t lvl ceiling) s" if "lvl < PRIORITY_LEVELS \<or> ceiling < PRIORITY_LEVELS"
  proof -
    have "lvl \<le> 63 \<or> ceiling \<le> 63"
      using that by (auto simp: PRIORITY_LEVELS_def)
    then obtain s1 f1 where "boost s t lvl ceiling = Some s1" "sched_rep s1 f1" "relevelled
        (s\<lparr>nodes := (nodes s)(t := (nodes s t)\<lparr>node_boost := max (node_boost (nodes s t)) (min lvl ceiling)\<rparr>)\<rparr>) t s1"
      using boost_rep [OF rep, of lvl ceiling t] by metis
    then show ?thesis
      using relevelled_time by (intro goes_wellI [of _ s s1 f1]) fastforce+
  qed
  obtain s2 f2 where "unboost s t = Some s2" "sched_rep s2 f2"
      "relevelled (s\<lparr>nodes := (nodes s)(t := (nodes s t)\<lparr>node_boost := 0\<rparr>)\<rparr>) t s2"
    using unboost_rep [OF rep, of t] by metis
  then show "goes_well (Do_Unboost t) s"
    using relevelled_time by (intro goes_wellI [of _ s s2 f2]) fastforce+
qed

lemma entry_calls_go_well:
  assumes rep: "sched_rep s f"
  shows "quantum s > 0 \<Longrightarrow> goes_well (Do_Start t) s"
    and "node_state (nodes s t) = Waiting \<Longrightarrow> goes_well (Do_Wake t) s"
    and "node_state (nodes s t) = Parked \<Longrightarrow> goes_well (Do_Unpark t) s"
    and "running s = None \<Longrightarrow> node_state (nodes s t) = Waiting \<Longrightarrow>
      can_hand_off s (priority s t) None \<Longrightarrow> goes_well (Do_Hand_Off t now) s"
proof -
  show "goes_well (Do_Start t) s" if q: "quantum s > 0"
  proof (cases "node_state (nodes s t) = Stopped")
    case True
    then obtain s1 f1 where "start s t = Some (Inr (), s1)" "sched_rep s1 f1"
        "nodes s1 = (nodes s)(t := (nodes s t)\<lparr>node_state := Ready, slice_left := quantum s\<rparr>)"
      using start_rep [OF rep True q] by metis
    then show ?thesis
      using True by (intro goes_wellI [of _ s s1 f1]) (auto simp: ran_at_def)
  next
    case False
    then show ?thesis
      using rep q by (intro goes_wellI [of _ s s f]) (auto simp: start_def)
  qed
  show "goes_well (Do_Wake t) s" if t: "node_state (nodes s t) = Waiting"
  proof -
    obtain s1 f1 where "wake s t = Some s1" "sched_rep s1 f1"
        "nodes s1 = (nodes s)(t := (nodes s t)\<lparr>node_state := Ready, slice_left := quantum s\<rparr>)"
      using wake_rep [OF rep t] by metis
    then show ?thesis
      using t by (intro goes_wellI [of _ s s1 f1]) (auto simp: ran_at_def)
  qed
  show "goes_well (Do_Unpark t) s" if t: "node_state (nodes s t) = Parked"
  proof -
    obtain s1 f1 where "unpark s t = Some s1" "sched_rep s1 f1"
        "nodes s1 = (nodes s)(t := (nodes s t)\<lparr>node_state := Ready, slice_left := quantum s\<rparr>)"
      using unpark_rep [OF rep t] by metis
    then show ?thesis
      using t by (intro goes_wellI [of _ s s1 f1]) (auto simp: ran_at_def)
  qed
  show "goes_well (Do_Hand_Off t now) s"
    if t: "running s = None" "node_state (nodes s t) = Waiting" "can_hand_off s (priority s t) None"
  proof -
    obtain s1 where "hand_off s t now = Some s1" "sched_rep s1 f" and s1: "s1 = s\<lparr>nodes :=
        (nodes s)(t := (nodes s t)\<lparr>node_state := Running, since := now, slice_left := 0\<rparr>),
        slice_end := saturating_add now (quantum s), running := Some t\<rparr>"
      using hand_off_rep [OF rep t(2,1,3)] by metis
    then show ?thesis
      using t(2) by (intro goes_wellI [of _ s s1 f]) (simp_all add: ran_at_def)
  qed
qed

lemma sched_do_goes_well:
  assumes "sched_rep s f" and "allowed c s"
  shows "goes_well c s"
proof (cases c)
  case (Do_Create t prio pol)
  then show ?thesis
    using create_rep [OF assms(1), of prio t pol] assms(2) by (auto intro!: goes_wellI)
next
  case (Do_Set_Quantum q)
  have "sched_rep (s\<lparr>quantum := q\<rparr>) f"
    using assms(1) by (auto simp: sched_rep_def thread_ok_def)
  then show ?thesis
    using Do_Set_Quantum assms(2) by (auto simp: set_quantum_def intro!: goes_wellI)
qed (use assms(2) cpu_calls_go_well [OF assms(1)] priority_calls_go_well [OF assms(1)]
    entry_calls_go_well [OF assms(1)] in simp_all)

lemma reachable_rep: "sched_reachable s \<Longrightarrow> \<exists>f. sched_rep s f"
proof (induction rule: sched_reachable.induct)
  case (boot prio pol q)
  then show ?case
    by (intro exI [of _ "\<lambda>_. []"]) (auto simp: sched_rep_def qrep_def rq_refines_def rep_new sched_new_def
        thread_ok_def link_new_def node_new_def link_is_queued_def effective_def PRIORITY_LEVELS_def)
next
  case (call s c s')
  then show ?case
    using sched_do_goes_well [of s _ c] by (auto simp: goes_well_def)
qed

section \<open>The fast path of a send\<close>

text \<open>Into an empty level and out again: nothing of the queue or the link is left changed.\<close>

lemma set_clear_bit:
  assumes "\<not> bit w l" and "l < LENGTH('a)"
  shows "(w OR push_bit l 1) AND NOT (push_bit l 1) = (w :: 'a::len word)"
proof (rule bit_word_eqI)
  fix n assume "n < LENGTH('a)"
  then show "bit ((w OR push_bit l 1) AND NOT (push_bit l 1)) n = bit w n"
    using assms by (auto simp: bit_simps)
qed

lemma push_remove_empty:
  assumes rep: "rq_rep ls q f" and empty: "f (level (ls t)) = []" and free: "\<not> link_is_queued (ls t)"
    and unlinked: "prev (ls t) = None" "nxt (ls t) = None" and lvl: "level (ls t) \<in> {1..63}"
  obtains ls1 q1 where "rq_push_tail ls q t = Some (ls1, q1)" and "rq_remove ls1 q1 t = Some (ls, q)"
proof -
  let ?l = "level (ls t)"
  let ?k = "(ls t)\<lparr>queued := queued (ls t) OR QUEUED, prev := Some t, nxt := Some t\<rparr>"
  let ?q = "q\<lparr>rq_heads := (rq_heads q)[?l := Some t], rq_mask := rq_mask q OR push_bit ?l 1\<rparr>"
  have l: "?l < 64" "1 \<le> ?l"
    using lvl by auto
  have heads: "length (rq_heads q) = 64" "rq_heads q ! ?l = None" "\<not> bit (rq_mask q) ?l"
    using rq_repD(1-3) [OF rep] l empty by simp_all
  have byte: "(queued (ls t) OR QUEUED) AND NOT QUEUED = queued (ls t)"
    using set_clear_bit [of "queued (ls t)" 0] free by (simp add: link_is_queued_bit QUEUED_def)
  have "rq_push_tail ls q t = Some (ls(t := ?k), ?q)"
    using heads free l by (simp add: rq_push_tail_def rq_level_ok rq_link_last_def)
  moreover have "rq_remove (ls(t := ?k)) ?q t = Some (ls, q)"
  proof -
    have "(ls t)\<lparr>queued := queued (ls t), prev := None, nxt := None\<rparr> = ls t"
      using unlinked by simp
    moreover have "(rq_heads q)[?l := None] = rq_heads q"
      using heads by (metis list_update_id)
    moreover have "link_is_queued ?k"
      by simp
    ultimately show ?thesis
      using heads l byte set_clear_bit [OF heads(3)]
      by (simp add: rq_remove_def rq_level_ok Let_def)
  qed
  ultimately show ?thesis
    using that by blast
qed

text \<open>
  C6. The fast path is the slow path: when a waiting thread may take the CPU directly, a
  \<open>hand_off\<close> leaves exactly the state that \<open>wake\<close> and then \<open>pick\<close> leave, and the
  thread that \<open>pick\<close> chooses is that one.
\<close>

theorem hand_off_is_wake_pick:
  assumes rep: "sched_rep s f" and free: "running s = None" and t: "node_state (nodes s t) = Waiting"
    and may: "can_hand_off s (priority s t) cleanup"
    and unlinked: "prev (links s t) = None" "nxt (links s t) = None"
  shows "\<exists>s'. hand_off s t now = Some s'
    \<and> Option.bind (wake s t) (\<lambda>s. pick s now cleanup) = Some (Run t, s')"
proof -
  let ?l = "level (links s t)"
  have q: "rq_rep (links s) (ready s) f"
    using qrepD(1) [OF sched_repD(1) [OF rep]] .
  have lvl: "?l \<in> {1..63}" and out: "\<not> link_is_queued (links s t)"
    using sched_repD(2,5) [OF rep, of t] t by auto
  have below: "k < ?l" if k: "f k \<noteq> []" for k
  proof -
    obtain h where "rq_top (ready s) = Some h" "k \<le> h"
      by (rule top_bounds [OF q k])
    then show ?thesis
      using may by (simp add: can_hand_off_def priority_def)
  qed
  have empty: "f ?l = []"
    using below [of ?l] by blast
  obtain ls1 q1 where push: "rq_push_tail (links s) (ready s) t = Some (ls1, q1)"
    and pop: "rq_remove ls1 q1 t = Some (links s, ready s)"
    using push_remove_empty [OF q empty out unlinked lvl] by blast
  have rep1: "rq_rep ls1 q1 (f(?l := [t]))"
    using rep_push_tail [OF q out] lvl push empty by auto
  have top: "rq_top q1 = Some ?l"
  proof -
    obtain h where h: "rq_top q1 = Some h" "?l \<le> h"
      using top_bounds [OF rep1, of ?l] by auto
    then show ?thesis
      using rep_top(2) [OF rep1 h(1)] h below [of h] by (metis fun_upd_other leD)
  qed
  have first: "rq_first q1 ?l = Some (Some t)"
    using rq_repD(1,2) [OF rep1] lvl by (simp add: rq_first_def)
  have clean: "\<not> (case cleanup of None \<Rightarrow> False | Some c \<Rightarrow> c \<ge> ?l)"
    using may by (auto simp: can_hand_off_def priority_def split: option.splits)
  let ?n = "(nodes s t)\<lparr>node_state := Running, since := now, slice_left := 0\<rparr>"
  let ?s = "s\<lparr>nodes := (nodes s)(t := ?n), slice_end := saturating_add now (quantum s), running := Some t\<rparr>"
  have "hand_off s t now = Some ?s"
    using free t may by (simp add: hand_off_def upd_node_def can_hand_off_def)
  moreover have "Option.bind (wake s t) (\<lambda>s. pick s now cleanup) = Some (Run t, ?s)"
    using free t push pop top first clean
    by (simp add: wake_def ready_push_tail_def pick_def pick_next_def ready_remove_def upd_node_def
        split: option.splits)
  ultimately show ?thesis
    by blast
qed

text \<open>A scheduler whose only threads wait.\<close>

definition all_waiting :: "nat \<Rightarrow> nat sched" where
  "all_waiting prio = sched_new (\<lambda>t. link_new prio) (\<lambda>t. (node_new prio Fifo)\<lparr>node_state := Waiting\<rparr>) 10"

lemma all_waiting_rep: "prio \<in> {1..63} \<Longrightarrow> sched_rep (all_waiting prio) (\<lambda>_. [])"
  by (auto simp: all_waiting_def sched_rep_def qrep_def rq_refines_def rep_new sched_new_def
      thread_ok_def link_new_def node_new_def link_is_queued_def effective_def PRIORITY_LEVELS_def)

theorem hand_off_is_wake_pick_witness:
  "\<exists>s'. hand_off (all_waiting 5) 7 100 = Some s'
    \<and> Option.bind (wake (all_waiting 5) 7) (\<lambda>s. pick s 100 (Some 3)) = Some (Run 7, s')"
  by (rule hand_off_is_wake_pick [OF all_waiting_rep])
     (simp_all add: all_waiting_def sched_new_def link_new_def node_new_def can_hand_off_def
       priority_def rq_top_def rq_new_def)

section \<open>Round robin\<close>

text \<open>The timer fires at the end of the running thread's quantum: \<open>tick\<close>, then \<open>pick\<close>.\<close>

definition rr_round :: "'p sched \<Rightarrow> 'p sched option" where
  "rr_round s = do {
     s1 \<leftarrow> tick s (slice_end s);
     (d, s2) \<leftarrow> pick s1 (slice_end s) None;
     Some s2 }"

fun rr_rounds :: "nat \<Rightarrow> 'p sched \<Rightarrow> 'p sched option" where
  "rr_rounds 0 s = Some s"
| "rr_rounds (Suc k) s = Option.bind (rr_round s) (rr_rounds k)"

lemma rr_round_rep:
  assumes rep: "sched_rep s f" and r: "running s = Some r" and rr: "node_policy (nodes s r) = RoundRobin"
    and top: "\<And>k. f k \<noteq> [] \<Longrightarrow> k \<le> priority s r"
  obtains s' where "rr_round s = Some s'"
    and "sched_rep s' (f(priority s r := tl (f (priority s r) @ [r])))"
    and "running s' = Some (hd (f (priority s r) @ [r]))"
    and "\<And>p. node_policy (nodes s' p) = node_policy (nodes s p)"
    and "\<And>p. level (links s' p) = level (links s p)"
proof -
  let ?l = "priority s r" and ?f = "f(priority s r := f (priority s r) @ [r])"
  obtain s1 where s1: "tick s (slice_end s) = Some s1" "sched_rep s1 ?f"
      "went_ready s r (quantum s) (slice_end s) s1"
    using tick_ends [OF rep r rr order_refl] by metis
  have free: "running s1 = None"
    using s1(3) by (simp add: went_ready_def)
  show ?thesis
  proof (rule pick_next_rep [OF s1(2) free, of "slice_end s" None], goal_cases)
    case 2
    from 2(3) [of ?l] show ?case
      by simp
  next
    case (3 l t ts s')
    have l: "l = ?l"
      using 3(2) 3(3) [of ?l] top [of l] by (cases "l = ?l") auto
    have "rr_round s = Some s'"
      using s1(1) free 3(1) by (simp add: rr_round_def pick_def)
    moreover have "t = hd (f ?l @ [r])" "ts = tl (f ?l @ [r])"
      using 3(2) l by auto
    ultimately show ?case
      using 3(5-7,10) l s1(3) by (intro that [of s']) (auto simp: went_ready_def)
  qed simp
qed

text \<open>
  C8. Round robin takes turns: while the timer fires at the end of each quantum and nothing
  else happens, the running thread and the ready threads of the highest level, all round
  robin, rotate: after \<open>k\<close> quanta the CPU and the list hold the same threads in the same
  order, rotated \<open>k\<close> places. So every one of them runs again after as many quanta as there
  are threads, and the thread in place \<open>i\<close> of the list runs after \<open>i + 1\<close> quanta.
\<close>

theorem round_robin_rotates:
  assumes "sched_rep s f" and "running s = Some r" and "priority s r = l"
    and "\<forall>t\<in>set (r # f l). node_policy (nodes s t) = RoundRobin"
    and "\<forall>k. f k \<noteq> [] \<longrightarrow> k \<le> l"
  shows "\<exists>s' f'. rr_rounds k s = Some s' \<and> sched_rep s' f' \<and> (\<forall>j. j \<noteq> l \<longrightarrow> f' j = f j)
    \<and> running s' = Some ((r # f l) ! (k mod length (r # f l))) \<and> f' l = tl (rotate k (r # f l))"
proof -
  have "\<exists>s' f'. rr_rounds k s = Some s' \<and> sched_rep s' f' \<and> (\<forall>j. j \<noteq> l \<longrightarrow> f' j = f j)
    \<and> running s' = Some (hd (rotate k (r # f l))) \<and> f' l = tl (rotate k (r # f l))"
    using assms
  proof (induction k arbitrary: s f r)
    case (Suc k)
    let ?xs = "f l @ [r]"
    obtain s1 where s1: "rr_round s = Some s1" "sched_rep s1 (f(l := tl ?xs))"
        "running s1 = Some (hd ?xs)" "\<And>p. node_policy (nodes s1 p) = node_policy (nodes s p)"
        "\<And>p. level (links s1 p) = level (links s p)"
      using rr_round_rep [OF Suc.prems(1,2)] Suc.prems(3-5) by (metis list.set_intros(1))
    have xs: "hd ?xs # tl ?xs = ?xs"
      by (cases "f l") auto
    have "hd ?xs \<in> set (r # f l)" "set (tl ?xs) \<subseteq> set (r # f l)"
      by (cases "f l"; auto)+
    have lvl: "priority s1 (hd ?xs) = l"
    proof (cases "f l")
      case Nil
      then show ?thesis
        using Suc.prems(3) s1(5) by (simp add: priority_def)
    next
      case (Cons t ts)
      then show ?thesis
        using qrepD(3) [OF sched_repD(1) [OF Suc.prems(1)], of t l] s1(5) by (simp add: priority_def)
    qed
    have rr: "\<forall>t\<in>set (hd ?xs # (f(l := tl ?xs)) l). node_policy (nodes s1 t) = RoundRobin"
      using Suc.prems(4) s1(4) \<open>hd ?xs \<in> _\<close> \<open>set (tl ?xs) \<subseteq> _\<close> by auto
    have top: "\<forall>k. (f(l := tl ?xs)) k \<noteq> [] \<longrightarrow> k \<le> l"
      using Suc.prems(5) by auto
    have "rotate k (hd ?xs # (f(l := tl ?xs)) l) = rotate (Suc k) (r # f l)"
      using xs by (simp add: rotate1_rotate_swap)
    then show ?case
      using Suc.IH [OF s1(2,3) lvl rr top] s1(1) by auto
  qed auto
  moreover have "hd (rotate k (r # f l)) = (r # f l) ! (k mod length (r # f l))"
    by (rule hd_rotate_conv_nth) simp
  ultimately show ?thesis
    by simp
qed

text \<open>Two round-robin threads of one level, one on the CPU.\<close>

definition idle_rr :: "nat sched" where
  "idle_rr = sched_new (\<lambda>t. link_new 5) (\<lambda>t. node_new 5 RoundRobin) 10"

lemma idle_rr_rep: "sched_rep idle_rr (\<lambda>_. [])"
  by (auto simp: idle_rr_def sched_rep_def qrep_def rq_refines_def rep_new sched_new_def
      thread_ok_def link_new_def node_new_def link_is_queued_def effective_def PRIORITY_LEVELS_def)

lemma two_take_turns:
  obtains s f where "sched_rep s f" and "running s = Some (8 :: nat)" and "priority s 8 = 5"
    and "f 5 = [9]" and "\<And>k. k \<noteq> 5 \<Longrightarrow> f k = []" and "\<And>t. node_policy (nodes s t) = RoundRobin"
proof -
  let ?g = "\<lambda>n. n\<lparr>node_state := Ready, slice_left := 10\<rparr>"
  have s0: "node_state (nodes idle_rr t) = Stopped" "quantum idle_rr = 10" "priority idle_rr t = 5"
      "nodes idle_rr t = node_new 5 RoundRobin" for t
    by (simp_all add: idle_rr_def sched_new_def node_new_def link_new_def priority_def)
  obtain s1 where s1: "sched_rep s1 ((\<lambda>_. [])(5 := [8]))" "nodes s1 = (nodes idle_rr)(8 := ?g (nodes idle_rr 8))"
      "running s1 = None" "quantum s1 = 10"
  proof (rule start_rep [OF idle_rr_rep, of 8], goal_cases)
    case (3 s')
    have "running idle_rr = None"
      by (simp add: idle_rr_def sched_new_def)
    then show ?case
      using 3 s0 by (intro that [of s']) simp_all
  qed (use s0 in simp_all)
  have lv: "priority s t = 5" if "sched_rep s f" "base (nodes s t) = 5" "node_boost (nodes s t) = 0" for s f t
    using sched_repD(4) [OF that(1), of t] that(2,3) by (simp add: priority_def effective_def)
  obtain s2 where s2: "sched_rep s2 ((\<lambda>_. [])(5 := [8, 9]))" "nodes s2 = (nodes s1)(9 := ?g (nodes s1 9))"
      "running s2 = None"
  proof (rule start_rep [OF s1(1), of 9], goal_cases)
    case (3 s')
    have "priority s1 9 = 5"
      using s0(4) s1(2) by (intro lv [OF s1(1)]) (simp_all add: node_new_def)
    then show ?case
      using 3 s1(3,4) by (intro that [of s']) simp_all
  qed (use s0 s1 in simp_all)
  show ?thesis
  proof (rule pick_next_rep [OF s2(1,3), of 0 None], goal_cases)
    case 2
    from 2(3) [of 5] show ?case by simp
  next
    case (3 l t ts s')
    then have "l = 5" "t = 8" "ts = [9]"
      by (auto split: if_splits)
    then show ?case
      using 3(5-7) s2(2) s1(2) s0(4) lv [OF 3(5), of 8]
      by (intro that [of s' "(\<lambda>_. [])(5 := [9])"]) (simp_all add: node_new_def)
  qed simp
qed

theorem round_robin_rotates_witness:
  "\<exists>s s' (f :: nat \<Rightarrow> nat list). sched_rep s f \<and> running s = Some 8 \<and> f 5 = [9]
     \<and> rr_rounds 3 s = Some s' \<and> running s' = Some 9"
proof -
  obtain s f where s: "sched_rep s f" "running s = Some (8 :: nat)" "priority s 8 = 5" "f 5 = [9]"
      "\<And>k. k \<noteq> 5 \<Longrightarrow> f k = []" "\<And>t. node_policy (nodes s t) = RoundRobin"
    using two_take_turns by blast
  have "\<forall>k. f k \<noteq> [] \<longrightarrow> k \<le> 5"
    using s(5) by (metis order_refl)
  then obtain s' where "rr_rounds 3 s = Some s'" "running s' = Some ([8, 9] ! (3 mod 2))"
    using round_robin_rotates [OF s(1-3), of 3] s by (auto simp: numeral_2_eq_2 [symmetric])
  then show ?thesis
    using s(1,2,4) by (intro exI [of _ s] exI [of _ s'] exI [of _ f]) simp
qed

section \<open>What the kernel relies on\<close>

text \<open>
  C4. The scheduler never stops the kernel. In every state that calls within their contracts
  reach from boot, the ready threads are exactly those in the queue, each in the list of its
  effective priority, at most the running thread is in state running, and every further call
  within its contract goes through and keeps this.
\<close>

theorem scheduler_never_stops:
  assumes "sched_reachable s" and "allowed c s"
  shows "(\<exists>f. sched_rep s f) \<and> (\<exists>s' f'. sched_do c s = Some s' \<and> sched_rep s' f')"
proof -
  obtain f where f: "sched_rep s f"
    using reachable_rep [OF assms(1)] by blast
  then show ?thesis
    using sched_do_goes_well [OF f assms(2)] by (auto simp: goes_well_def)
qed

theorem scheduler_never_stops_witness:
  "allowed (Do_Start (3 :: nat)) idle_rr \<and>
   (\<exists>s' f'. sched_do (Do_Start 3) idle_rr = Some s' \<and> sched_rep s' f')"
proof -
  have "sched_reachable idle_rr"
    unfolding idle_rr_def by (rule sched_reachable.boot) (simp add: PRIORITY_LEVELS_def)
  moreover have "allowed (Do_Start (3 :: nat)) idle_rr"
    by (simp add: idle_rr_def sched_new_def)
  ultimately show ?thesis
    using scheduler_never_stops [of idle_rr "Do_Start 3"] by blast
qed

text \<open>
  C5. The decision: \<open>pick\<close> always decides. It runs a thread that no ready thread is above and
  that is above the cleanup work; it chooses cleanup only when no ready thread is above the
  cleanup; it idles only when there is neither. No thread is lost or gained among those that
  are ready or running.
\<close>

theorem pick_decides:
  assumes rep: "sched_rep s f"
  shows "\<exists>d s'. pick s now cleanup = Some (d, s')
    \<and> (\<forall>p. node_state (nodes s' p) \<in> {Ready, Running} \<longleftrightarrow> node_state (nodes s p) \<in> {Ready, Running})
    \<and> (case d of
        Run t \<Rightarrow> running s' = Some t \<and> node_state (nodes s' t) = Running
          \<and> (\<forall>p. node_state (nodes s' p) = Ready \<longrightarrow> priority s' p \<le> priority s' t)
          \<and> (\<forall>c. cleanup = Some c \<longrightarrow> c < priority s' t)
      | Clean \<Rightarrow> running s' = None
          \<and> (\<exists>c. cleanup = Some c \<and> (\<forall>p. node_state (nodes s' p) = Ready \<longrightarrow> priority s' p \<le> c))
      | Idle \<Rightarrow> running s' = None \<and> cleanup = None \<and> (\<forall>p. node_state (nodes s' p) \<noteq> Ready))"
proof -
  obtain d s' f' where pick: "pick s now cleanup = Some (d, s')" "sched_rep s' f'"
    "\<And>p. (node_state (nodes s' p) \<in> {Ready, Running}) = (node_state (nodes s p) \<in> {Ready, Running})"
    "decided cleanup f' s' d"
    using pick_rep [OF rep, of now cleanup] by metis
  have queued: "p \<in> set (f' (priority s' p))" if "node_state (nodes s' p) = Ready" for p
    using that qrepD(2) [OF sched_repD(1) [OF pick(2)], of p] sched_repD(2) [OF pick(2), of p]
    by (simp add: priority_def)
  then have nonempty: "f' (priority s' p) \<noteq> []" if "node_state (nodes s' p) = Ready" for p
    using that by (metis empty_iff empty_set)
  have on: "node_state (nodes s' t) = Running" if "running s' = Some t" for t
    using that sched_repD(3) [OF pick(2)] by blast
  show ?thesis
  proof (intro exI [of _ d] exI [of _ s'] conjI allI)
    show "case d of
        Run t \<Rightarrow> running s' = Some t \<and> node_state (nodes s' t) = Running
          \<and> (\<forall>p. node_state (nodes s' p) = Ready \<longrightarrow> priority s' p \<le> priority s' t)
          \<and> (\<forall>c. cleanup = Some c \<longrightarrow> c < priority s' t)
      | Clean \<Rightarrow> running s' = None
          \<and> (\<exists>c. cleanup = Some c \<and> (\<forall>p. node_state (nodes s' p) = Ready \<longrightarrow> priority s' p \<le> c))
      | Idle \<Rightarrow> running s' = None \<and> cleanup = None \<and> (\<forall>p. node_state (nodes s' p) \<noteq> Ready)"
      using pick(4) on queued nonempty by (cases d) (simp_all, blast+)
  qed (use pick(1,3) in simp_all)
qed

theorem pick_decides_witness:
  "\<exists>d s'. pick (all_waiting 5) 100 (Some 2) = Some (d, s') \<and> d = Clean"
proof -
  from pick_decides [OF all_waiting_rep, of 5 100 "Some 2"]
  obtain d s' where d: "pick (all_waiting 5) 100 (Some 2) = Some (d, s')"
    "\<And>p. node_state (nodes s' p) \<in> {Ready, Running} \<longleftrightarrow> node_state (nodes (all_waiting 5) p) \<in> {Ready, Running}"
    "d = Idle \<Longrightarrow> False" "\<And>t. d = Run t \<Longrightarrow> node_state (nodes s' t) = Running"
    by fastforce
  have "node_state (nodes (all_waiting 5) p) = Waiting" for p
    by (simp add: all_waiting_def sched_new_def)
  then have "d = Clean"
    using d(2-4) by (cases d) force+
  then show ?thesis
    using d(1) by blast
qed

text \<open>
  C7. CPU time is neither lost nor made: the time a thread has run as of \<open>now\<close>, its
  finished stints and the current one, is not changed by any call at \<open>now\<close>, on any path on
  or off the CPU, for any thread.
\<close>

theorem cpu_time_conserved:
  assumes "sched_reachable s" and "allowed c s" and "sched_do c s = Some s'"
    and "call_time c = None \<or> call_time c = Some now" and "\<not> creates c t"
  shows "ran_at (nodes s' t) now = ran_at (nodes s t) now"
proof -
  obtain f where "sched_rep s f"
    using reachable_rep [OF assms(1)] by blast
  then show ?thesis
    using sched_do_goes_well [of s f c] assms(2-5) by (auto simp: goes_well_def)
qed

theorem cpu_time_conserved_witness:
  "\<exists>s'. sched_do (Do_Tick 9) idle_rr = Some s' \<and> ran_at (nodes s' 4) 9 = ran_at (nodes idle_rr 4) 9"
proof -
  have "sched_reachable idle_rr"
    unfolding idle_rr_def by (rule sched_reachable.boot) (simp add: PRIORITY_LEVELS_def)
  moreover have "sched_do (Do_Tick 9) idle_rr = Some idle_rr"
    by (simp add: idle_rr_def sched_new_def tick_def)
  ultimately show ?thesis
    using cpu_time_conserved [of idle_rr "Do_Tick 9" idle_rr 9 4] by simp
qed

text \<open>
  C9. A boost raises a thread to the boost's level and no higher than the ceiling of its
  process, and only raises; the end of the boost brings the thread back to its base priority.
\<close>

theorem boost_within_ceiling:
  assumes rep: "sched_rep s f" and lvl: "lvl < PRIORITY_LEVELS \<or> ceiling < PRIORITY_LEVELS"
  shows "\<exists>s1 s2. boost s t lvl ceiling = Some s1 \<and> unboost s1 t = Some s2
    \<and> priority s1 t = max (priority s t) (min lvl ceiling)
    \<and> (priority s t \<le> ceiling \<longrightarrow> priority s1 t \<le> ceiling)
    \<and> priority s2 t = base (nodes s t)
    \<and> (\<forall>p. p \<noteq> t \<longrightarrow> priority s2 p = priority s p)"
proof -
  have "lvl \<le> 63 \<or> ceiling \<le> 63"
    using lvl by (auto simp: PRIORITY_LEVELS_def)
  then obtain s1 f1 where s1: "boost s t lvl ceiling = Some s1" "sched_rep s1 f1" "relevelled
      (s\<lparr>nodes := (nodes s)(t := (nodes s t)\<lparr>node_boost := max (node_boost (nodes s t)) (min lvl ceiling)\<rparr>)\<rparr>) t s1"
    using boost_rep [OF rep, of lvl ceiling t] by metis
  obtain s2 f2 where s2: "unboost s1 t = Some s2" "sched_rep s2 f2"
      "relevelled (s1\<lparr>nodes := (nodes s1)(t := (nodes s1 t)\<lparr>node_boost := 0\<rparr>)\<rparr>) t s2"
    using unboost_rep [OF s1(2), of t] by metis
  have "base (nodes s1 t) = base (nodes s t)"
      "node_boost (nodes s1 t) = max (node_boost (nodes s t)) (min lvl ceiling)"
    using s1(3) by (auto simp: relevelled_def)
  moreover have "base (nodes s2 t) = base (nodes s1 t)" "node_boost (nodes s2 t) = 0"
    using s2(3) by (auto simp: relevelled_def)
  moreover have "\<forall>p. p \<noteq> t \<longrightarrow> priority s2 p = priority s p"
    using s1(3) s2(3) by (simp add: relevelled_def priority_def)
  ultimately show ?thesis
    using s1(1) s2(1) sched_repD(4) [OF rep, of t] sched_repD(4) [OF s1(2), of t] sched_repD(4) [OF s2(2), of t]
    by (auto simp: priority_def effective_def max.assoc)
qed

theorem boost_within_ceiling_witness:
  "\<exists>s1 s2. boost (all_waiting 5) 7 20 10 = Some s1 \<and> unboost s1 7 = Some s2
    \<and> priority s1 7 = 10 \<and> priority s2 7 = 5"
proof -
  have "priority (all_waiting 5) 7 = 5" "base (nodes (all_waiting 5) 7) = 5"
    by (simp_all add: all_waiting_def sched_new_def priority_def link_new_def node_new_def)
  then show ?thesis
    using boost_within_ceiling [OF all_waiting_rep, of 5 20 10 7] by (auto simp: PRIORITY_LEVELS_def)
qed

end
