(* ===== verification/Notify.thy ===== *)
theory Notify
  imports Ready_Queue
begin

text \<open>
  Notification slots and the queue of a channel, \<open>kcore/src/notify.rs\<close>. A slot is an
  address with a link and its data; the state of a channel is the store of the slots, the
  queue by levels, the flag that says whether the items are receivers, and their number.

  The lemmas show that every operation is the list operation its comment promises and never
  stops the kernel within its contract; over sequences of calls the queue holds slots and
  requests or receivers, never both, and posts to a slot merge into one place in the queue
  with every bit kept.
\<close>

section \<open>Slots\<close>

datatype posted = First | Merged

record 'o slot =
  bits :: u64
  count :: u32
  owner :: 'o

record ('p, 'o) chan =
  slot_links :: "'p links"
  slots :: "'p \<Rightarrow> 'o slot"
  items :: "'p ready_queue"
  receivers :: bool
  qlen :: u32

definition slot_new :: "nat \<Rightarrow> 'o \<Rightarrow> 'p link \<times> 'o slot" where
  "slot_new priority own = (link_new priority, \<lparr>bits = 0, count = 0, owner = own\<rparr>)"

definition slot_priority :: "('p, 'o) chan \<Rightarrow> 'p \<Rightarrow> nat" where
  "slot_priority c p = level (slot_links c p)"

definition slot_set_priority :: "('p, 'o) chan \<Rightarrow> 'p \<Rightarrow> nat \<Rightarrow> ('p, 'o) chan option" where
  "slot_set_priority c p priority = do {
     l \<leftarrow> link_set_level (slot_links c p) priority;
     Some (c\<lparr>slot_links := (slot_links c)(p := l)\<rparr>) }"

definition slot_is_queued :: "('p, 'o) chan \<Rightarrow> 'p \<Rightarrow> bool" where
  "slot_is_queued c p \<longleftrightarrow> link_is_queued (slot_links c p)"

definition slot_post :: "('p, 'o) chan \<Rightarrow> 'p \<Rightarrow> u64 \<Rightarrow> posted \<times> ('p, 'o) chan" where
  "slot_post c p b =
     (let s = slots c p;
          s = s\<lparr>bits := bits s OR b, count := saturating_add (count s) 1\<rparr>
      in (if slot_is_queued c p then Merged else First, c\<lparr>slots := (slots c)(p := s)\<rparr>))"

definition slot_take :: "('p, 'o) chan \<Rightarrow> 'p \<Rightarrow> (u64 \<times> u32) \<times> ('p, 'o) chan" where
  "slot_take c p =
     (let s = slots c p
      in ((bits s, count s), c\<lparr>slots := (slots c)(p := s\<lparr>bits := 0, count := 0\<rparr>)\<rparr>))"

section \<open>The queue of a channel\<close>

datatype 'p post = Post_Merged | Post_Queued | Post_Deliver 'p

definition queue_new :: "'p links \<Rightarrow> ('p \<Rightarrow> 'o slot) \<Rightarrow> ('p, 'o) chan" where
  "queue_new ls ss =
     \<lparr>slot_links = ls, slots = ss, items = rq_new, receivers = False, qlen = 0\<rparr>"

definition counts :: "('p, 'o) chan \<Rightarrow> u32 \<times> u32" where
  "counts c = (if receivers c then (0, qlen c) else (qlen c, 0))"

definition queue_is_empty :: "('p, 'o) chan \<Rightarrow> bool" where
  "queue_is_empty c \<longleftrightarrow> rq_is_empty (items c)"

definition has_receivers :: "('p, 'o) chan \<Rightarrow> bool" where
  "has_receivers c \<longleftrightarrow> receivers c \<and> \<not> rq_is_empty (items c)"

definition queue_top :: "('p, 'o) chan \<Rightarrow> nat option" where
  "queue_top c = rq_top (items c)"

definition queue_head :: "('p, 'o) chan \<Rightarrow> 'p option option" where
  "queue_head c =
     (case rq_top (items c) of None \<Rightarrow> Some None | Some l \<Rightarrow> rq_first (items c) l)"

definition enqueue :: "('p, 'o) chan \<Rightarrow> 'p \<Rightarrow> ('p, 'o) chan option" where
  "enqueue c p = do {
     (ls, q) \<leftarrow> rq_push_tail (slot_links c) (items c) p;
     Some (c\<lparr>receivers := False, qlen := qlen c + 1, slot_links := ls, items := q\<rparr>) }"

definition take_head :: "('p, 'o) chan \<Rightarrow> ('p option \<times> ('p, 'o) chan) option" where
  "take_head c =
     (case rq_top (items c) of
        None \<Rightarrow> Some (None, c)
      | Some l \<Rightarrow> do {
          head \<leftarrow> rq_first (items c) l;
          item \<leftarrow> head;
          (ls, q) \<leftarrow> rq_remove (slot_links c) (items c) item;
          Some (Some item, c\<lparr>qlen := qlen c - 1, slot_links := ls, items := q\<rparr>) })"

definition take_slot :: "('p, 'o) chan \<Rightarrow> ('p option \<times> ('p, 'o) chan) option" where
  "take_slot c = (if receivers c then Some (None, c) else take_head c)"

definition take_waiter :: "('p, 'o) chan \<Rightarrow> ('p option \<times> ('p, 'o) chan) option" where
  "take_waiter c = (if \<not> receivers c then Some (None, c) else take_head c)"

definition queue_post :: "('p, 'o) chan \<Rightarrow> 'p \<Rightarrow> u64 \<Rightarrow> ('p post \<times> ('p, 'o) chan) option" where
  "queue_post c p b =
     (case slot_post c p b of
        (Merged, c) \<Rightarrow> Some (Post_Merged, c)
      | (First, c) \<Rightarrow> do {
          (w, c) \<leftarrow> take_waiter c;
          (case w of
             Some r \<Rightarrow> Some (Post_Deliver r, c)
           | None \<Rightarrow> do { c \<leftarrow> enqueue c p; Some (Post_Queued, c) }) })"

definition queue_send :: "('p, 'o) chan \<Rightarrow> 'p \<Rightarrow> ('p option \<times> ('p, 'o) chan) option" where
  "queue_send c request = do {
     (receiver, c) \<leftarrow> take_waiter c;
     (if receiver = None then do { c \<leftarrow> enqueue c request; Some (None, c) }
      else Some (receiver, c)) }"

definition queue_wait :: "('p, 'o) chan \<Rightarrow> 'p \<Rightarrow> ('p, 'o) chan option" where
  "queue_wait c receiver = do {
     ensure (receivers c \<or> rq_is_empty (items c));
     (ls, q) \<leftarrow> rq_push_tail (slot_links c) (items c) receiver;
     Some (c\<lparr>receivers := True, qlen := qlen c + 1, slot_links := ls, items := q\<rparr>) }"

definition queue_cancel :: "('p, 'o) chan \<Rightarrow> 'p \<Rightarrow> ('p, 'o) chan option" where
  "queue_cancel c item = do {
     (ls, q) \<leftarrow> rq_remove (slot_links c) (items c) item;
     Some (c\<lparr>qlen := qlen c - 1, slot_links := ls, items := q\<rparr>) }"

definition queue_move_to :: "('p, 'o) chan \<Rightarrow> 'p \<Rightarrow> nat \<Rightarrow> ('p, 'o) chan option" where
  "queue_move_to c item lvl = do {
     (ls, q) \<leftarrow> rq_move_to (slot_links c) (items c) item lvl;
     Some (c\<lparr>slot_links := ls, items := q\<rparr>) }"

section \<open>What a channel's queue holds\<close>

definition total :: "(nat \<Rightarrow> 'p list) \<Rightarrow> nat" where
  "total f = (\<Sum>l<PRIORITY_LEVELS. length (f l))"

definition chan_rep :: "('p, 'o) chan \<Rightarrow> (nat \<Rightarrow> 'p list) \<Rightarrow> bool" where
  "chan_rep c f \<longleftrightarrow>
     rq_refines (slot_links c, items c) (\<lambda>p. level (slot_links c p), f) \<and> qlen c = of_nat (total f)"

lemma total_upd:
  assumes "l < PRIORITY_LEVELS"
  shows "total (f(l := xs)) + length (f l) = total f + length xs"
proof -
  have "total g = length (g l) + (\<Sum>k\<in>{..<PRIORITY_LEVELS} - {l}. length (g k))" for g :: "nat \<Rightarrow> 'a list"
    using assms unfolding total_def by (intro sum.remove) auto
  from this [of f] this [of "f(l := xs)"] show ?thesis
    by simp
qed

lemma total_remove:
  assumes "l < PRIORITY_LEVELS" and "p \<in> set (f l)"
  shows "Suc (total (f(l := remove1 p (f l)))) = total f"
  using total_upd [OF assms(1), of f "remove1 p (f l)"] assms(2) length_pos_if_in_set [OF assms(2)]
  by (simp only: length_remove1 if_True)

lemma total_Nil: "total (\<lambda>_. []) = 0"
  by (simp add: total_def)

lemma chan_repD:
  assumes "chan_rep c f"
  shows "rq_refines (slot_links c, items c) (\<lambda>p. level (slot_links c p), f)"
    and "rq_rep (slot_links c) (items c) f" and "qlen c = of_nat (total f)"
    and "link_is_queued (slot_links c p) \<longleftrightarrow> p \<in> set (f (level (slot_links c p)))"
    and "p \<in> set (f l) \<Longrightarrow> level (slot_links c p) = l" and "p \<in> set (f l) \<Longrightarrow> l \<in> {1..63}"
    and "distinct (f l)"
proof -
  show rep: "rq_refines (slot_links c, items c) (\<lambda>p. level (slot_links c p), f)"
    "qlen c = of_nat (total f)"
    using assms by (simp_all add: chan_rep_def)
  show q: "rq_rep (slot_links c) (items c) f"
    "link_is_queued (slot_links c p) \<longleftrightarrow> p \<in> set (f (level (slot_links c p)))"
    using rq_refinesD(1,3) [OF rep(1)] by simp_all
  show "distinct (f l)" "p \<in> set (f l) \<Longrightarrow> level (slot_links c p) = l" "p \<in> set (f l) \<Longrightarrow> l \<in> {1..63}"
    using rq_repD(5,6,8,9) [OF q(1)] by fastforce+
qed

lemma chan_empty: "chan_rep c f \<Longrightarrow> rq_is_empty (items c) \<longleftrightarrow> (\<forall>l. f l = [])"
  using rep_top(1) [OF chan_repD(2), of c f] by (simp add: rq_is_empty_def rq_top_def split: if_splits)

text \<open>A new item at the tail of its level.\<close>

lemma chan_push:
  assumes rep: "chan_rep c f" and p: "\<not> slot_is_queued c p" "slot_priority c p \<in> {1..63}"
  defines "l \<equiv> slot_priority c p"
  obtains ls q where "rq_push_tail (slot_links c) (items c) p = Some (ls, q)"
    and "chan_rep (c\<lparr>receivers := r, qlen := qlen c + 1, slot_links := ls, items := q\<rparr>)
      (f(l := f l @ [p]))"
    and "\<And>x. level (ls x) = level (slot_links c x)"
proof -
  have "lists_do (Push_Tail p) (\<lambda>p. level (slot_links c p), f) =
      Some (\<lambda>p. level (slot_links c p), f(l := f l @ [p]))"
    using p chan_repD(4) [OF rep, of p] by (simp add: l_def slot_priority_def slot_is_queued_def)
  then obtain ls q where "rq_push_tail (slot_links c) (items c) p = Some (ls, q)"
      "\<And>x. level (ls x) = level (slot_links c x)"
      "rq_refines (ls, q) (\<lambda>x. level (ls x), f(l := f l @ [p]))"
    using rq_call [OF chan_repD(1) [OF rep], of "Push_Tail p"] by (metis rq_do.simps(1))
  moreover have "total (f(l := f l @ [p])) = Suc (total f)"
    using total_upd [of l f "f l @ [p]"] p by (simp add: l_def PRIORITY_LEVELS_def)
  ultimately show ?thesis
    using chan_repD(3) [OF rep] by (intro that [of ls q]) (simp_all add: chan_rep_def add.commute)
qed

lemma chan_pull:
  assumes rep: "chan_rep c f" and p: "p \<in> set (f l)"
  obtains ls q where "rq_remove (slot_links c) (items c) p = Some (ls, q)"
    and "chan_rep (c\<lparr>qlen := qlen c - 1, slot_links := ls, items := q\<rparr>) (f(l := remove1 p (f l)))"
    and "\<And>x. level (ls x) = level (slot_links c x)"
proof -
  have l: "level (slot_links c p) = l" "l \<in> {1..63}"
    using chan_repD(5,6) [OF rep p] by simp_all
  then have "lists_do (Remove p) (\<lambda>p. level (slot_links c p), f) =
      Some (\<lambda>p. level (slot_links c p), f(l := remove1 p (f l)))"
    using p by simp
  then obtain ls q where "rq_remove (slot_links c) (items c) p = Some (ls, q)"
      "\<And>x. level (ls x) = level (slot_links c x)"
      "rq_refines (ls, q) (\<lambda>x. level (ls x), f(l := remove1 p (f l)))"
    using rq_call [OF chan_repD(1) [OF rep], of "Remove p"] by (metis rq_do.simps(3))
  moreover have "Suc (total (f(l := remove1 p (f l)))) = total f"
    using total_remove [of l p f] p l by (simp add: PRIORITY_LEVELS_def)
  then have "qlen c - 1 = of_nat (total (f(l := remove1 p (f l))))"
    using chan_repD(3) [OF rep] by (metis add_diff_cancel_left' of_nat_Suc)
  ultimately show ?thesis
    by (intro that [of ls q]) (simp_all add: chan_rep_def)
qed

section \<open>The operations\<close>

lemma enqueue_rep:
  assumes "chan_rep c f" and "\<not> slot_is_queued c p" "slot_priority c p \<in> {1..63}"
  obtains c' where "enqueue c p = Some c'"
    and "chan_rep c' (f(slot_priority c p := f (slot_priority c p) @ [p]))" and "\<not> receivers c'"
    and "slots c' = slots c" and "\<And>x. slot_priority c' x = slot_priority c x"
proof (rule chan_push [OF assms, of False])
  fix ls q
  assume "rq_push_tail (slot_links c) (items c) p = Some (ls, q)"
    and "chan_rep (c\<lparr>receivers := False, qlen := qlen c + 1, slot_links := ls, items := q\<rparr>)
      (f(slot_priority c p := f (slot_priority c p) @ [p]))"
    and "\<And>x. level (ls x) = level (slot_links c x)"
  then show thesis
    by (intro that [of "c\<lparr>receivers := False, qlen := qlen c + 1, slot_links := ls, items := q\<rparr>"])
      (simp_all add: enqueue_def slot_priority_def)
qed

lemma wait_rep:
  assumes "chan_rep c f" and "\<not> slot_is_queued c p" "slot_priority c p \<in> {1..63}"
    and "receivers c \<or> (\<forall>l. f l = [])"
  obtains c' where "queue_wait c p = Some c'"
    and "chan_rep c' (f(slot_priority c p := f (slot_priority c p) @ [p]))" and "receivers c'"
    and "slots c' = slots c" and "\<And>x. slot_priority c' x = slot_priority c x"
proof (rule chan_push [OF assms(1-3), of True])
  fix ls q
  assume "rq_push_tail (slot_links c) (items c) p = Some (ls, q)"
    and "chan_rep (c\<lparr>receivers := True, qlen := qlen c + 1, slot_links := ls, items := q\<rparr>)
      (f(slot_priority c p := f (slot_priority c p) @ [p]))"
    and "\<And>x. level (ls x) = level (slot_links c x)"
  then show thesis
    using chan_empty [OF assms(1)] assms(4)
    by (intro that [of "c\<lparr>receivers := True, qlen := qlen c + 1, slot_links := ls, items := q\<rparr>"])
      (auto simp: queue_wait_def slot_priority_def)
qed

lemma cancel_rep:
  assumes "chan_rep c f" and "p \<in> set (f l)"
  obtains c' where "queue_cancel c p = Some c'" and "chan_rep c' (f(l := remove1 p (f l)))"
    and "receivers c' = receivers c" and "slots c' = slots c"
    and "\<And>x. slot_priority c' x = slot_priority c x"
proof (rule chan_pull [OF assms])
  fix ls q
  assume "rq_remove (slot_links c) (items c) p = Some (ls, q)"
    and "chan_rep (c\<lparr>qlen := qlen c - 1, slot_links := ls, items := q\<rparr>) (f(l := remove1 p (f l)))"
    and "\<And>x. level (ls x) = level (slot_links c x)"
  then show thesis
    by (intro that [of "c\<lparr>qlen := qlen c - 1, slot_links := ls, items := q\<rparr>"])
      (simp_all add: queue_cancel_def slot_priority_def)
qed

lemma take_head_rep:
  assumes rep: "chan_rep c f"
  obtains (empty) "take_head c = Some (None, c)" and "\<And>l. f l = []"
  | (item) p l ts c' where "take_head c = Some (Some p, c')" and "f l = p # ts"
      and "\<And>k. f k \<noteq> [] \<Longrightarrow> k \<le> l" and "chan_rep c' (f(l := ts))"
      and "receivers c' = receivers c" and "slots c' = slots c"
      and "\<And>x. slot_priority c' x = slot_priority c x"
proof (cases "rq_top (items c)")
  case None
  then show ?thesis
    using rep_top(1) [OF chan_repD(2) [OF rep]] empty by (simp add: take_head_def)
next
  case (Some l)
  have q: "rq_state_rep (slot_links c, items c) f"
    using chan_repD(2) [OF rep] by simp
  obtain p ts where f: "f l = p # ts" "rq_first (items c) l = Some (Some p)"
    "\<And>k u. u \<in> set (f k) \<Longrightarrow> k \<le> l"
    using rq.pop_top [OF q, of l] Some by (metis snd_conv)
  have high: "k \<le> l" if "f k \<noteq> []" for k
    using f(3) [of "hd (f k)" k] that by simp
  have "p \<in> set (f l)"
    using f(1) by simp
  then obtain ls q where pull: "rq_remove (slot_links c) (items c) p = Some (ls, q)"
      "chan_rep (c\<lparr>qlen := qlen c - 1, slot_links := ls, items := q\<rparr>) (f(l := remove1 p (f l)))"
      "\<And>x. level (ls x) = level (slot_links c x)"
    using chan_pull [OF rep] by metis
  then show ?thesis
    using Some f(1,2) high
    by (intro item [of p "c\<lparr>qlen := qlen c - 1, slot_links := ls, items := q\<rparr>" l ts])
      (simp_all add: take_head_def slot_priority_def)
qed

lemma slot_data_rep [simp]: "chan_rep (c\<lparr>slots := ss\<rparr>) f = chan_rep c f"
  by (simp add: chan_rep_def)

lemma slot_set_priority_rep:
  assumes rep: "chan_rep c f" and p: "\<not> slot_is_queued c p"
  obtains c' where "slot_set_priority c p n = Some c'" and "chan_rep c' f"
    and "receivers c' = receivers c" and "slots c' = slots c" and "slot_priority c' p = n"
proof -
  have "lists_do (Set_Level p n) (\<lambda>p. level (slot_links c p), f) =
      Some ((\<lambda>p. level (slot_links c p))(p := n), f)"
    using p chan_repD(4) [OF rep, of p] by (simp add: slot_is_queued_def)
  then obtain ls q where "rq_do (Set_Level p n) (slot_links c, items c) = Some (ls, q)"
      "\<And>x. level (ls x) = ((\<lambda>p. level (slot_links c p))(p := n)) x"
      "rq_refines (ls, q) (\<lambda>x. level (ls x), f)"
    using rq_call [OF chan_repD(1) [OF rep]] by metis
  then show ?thesis
    using p chan_repD(3) [OF rep]
    by (intro that [of "c\<lparr>slot_links := ls\<rparr>"])
      (auto simp: slot_set_priority_def link_set_level_def slot_is_queued_def chan_rep_def slot_priority_def)
qed

lemma move_rep:
  assumes rep: "chan_rep c f" and p: "p \<in> set (f l)" and n: "n \<in> {1..63}"
  obtains c' where "queue_move_to c p n = Some c'" and "chan_rep c' (moved p l n f)"
    and "receivers c' = receivers c" and "slots c' = slots c"
proof -
  have l: "level (slot_links c p) = l" "l \<in> {1..63}"
    using chan_repD(5,6) [OF rep p] by simp_all
  have "lists_do (Move_To p n) (\<lambda>p. level (slot_links c p), f) =
      Some ((\<lambda>p. level (slot_links c p))(p := n), moved p l n f)"
    using p n l by (auto simp: moved_def fun_eq_iff)
  then obtain ls q where "rq_move_to (slot_links c) (items c) p n = Some (ls, q)"
      "rq_refines (ls, q) (\<lambda>x. level (ls x), moved p l n f)"
    using rq_call [OF chan_repD(1) [OF rep], of "Move_To p n"] by (metis rq_do.simps(4))
  moreover have "total (moved p l n f) = total f"
    using total_remove [of l p f] p l n total_upd [of n "f(l := remove1 p (f l))" "f n @ [p]"]
      total_upd [of n "f(l := remove1 p (f l))" "p # f n"]
    by (auto simp: moved_def PRIORITY_LEVELS_def)
  ultimately show ?thesis
    using chan_repD(3) [OF rep]
    by (intro that [of "c\<lparr>slot_links := ls, items := q\<rparr>"]) (simp_all add: queue_move_to_def chan_rep_def)
qed


section \<open>Sequences of calls\<close>

text \<open>
  The calls on a channel's queue, with what each promises. The second component of the state
  records, for the theorem only, which items joined the queue as receivers.
\<close>

datatype 'p chan_call =
    Do_Post 'p u64
  | Do_Send 'p
  | Do_Wait 'p
  | Do_Take_Slot
  | Do_Take_Waiter
  | Do_Cancel 'p
  | Do_Move 'p nat
  | Do_Slot_Priority 'p nat
  | Do_Slot_Take 'p

fun chan_do :: "'p chan_call \<Rightarrow> ('p, 'o) chan \<Rightarrow> ('p, 'o) chan option" where
  "chan_do (Do_Post p b) c = map_option snd (queue_post c p b)"
| "chan_do (Do_Send p) c = map_option snd (queue_send c p)"
| "chan_do (Do_Wait p) c = queue_wait c p"
| "chan_do Do_Take_Slot c = map_option snd (take_slot c)"
| "chan_do Do_Take_Waiter c = map_option snd (take_waiter c)"
| "chan_do (Do_Cancel p) c = queue_cancel c p"
| "chan_do (Do_Move p n) c = queue_move_to c p n"
| "chan_do (Do_Slot_Priority p n) c = slot_set_priority c p n"
| "chan_do (Do_Slot_Take p) c = Some (snd (slot_take c p))"

fun chan_allowed :: "'p chan_call \<Rightarrow> ('p, 'o) chan \<Rightarrow> bool" where
  "chan_allowed (Do_Post p b) c \<longleftrightarrow> slot_priority c p \<in> {1..63} \<and> (slot_is_queued c p \<longrightarrow> \<not> receivers c)"
| "chan_allowed (Do_Send p) c \<longleftrightarrow> slot_priority c p \<in> {1..63} \<and> \<not> slot_is_queued c p"
| "chan_allowed (Do_Wait p) c \<longleftrightarrow> slot_priority c p \<in> {1..63} \<and> \<not> slot_is_queued c p
     \<and> (receivers c \<or> queue_is_empty c)"
| "chan_allowed (Do_Cancel p) c \<longleftrightarrow> slot_is_queued c p"
| "chan_allowed (Do_Move p n) c \<longleftrightarrow> slot_is_queued c p \<and> n \<in> {1..63}"
| "chan_allowed (Do_Slot_Priority p n) c \<longleftrightarrow> \<not> slot_is_queued c p"
| "chan_allowed _ c \<longleftrightarrow> True"

fun joins :: "'p chan_call \<Rightarrow> ('p \<Rightarrow> bool) \<Rightarrow> 'p \<Rightarrow> bool" where
  "joins (Do_Post p b) k = k(p := False)"
| "joins (Do_Send p) k = k(p := False)"
| "joins (Do_Wait p) k = k(p := True)"
| "joins _ k = k"

inductive chan_reachable :: "('p, 'o) chan \<Rightarrow> ('p \<Rightarrow> bool) \<Rightarrow> bool" where
  opened: "(\<And>p. \<not> link_is_queued (ls p)) \<Longrightarrow> chan_reachable (queue_new ls ss) (\<lambda>_. False)"
| call: "chan_reachable c k \<Longrightarrow> chan_allowed a c \<Longrightarrow> chan_do a c = Some c' \<Longrightarrow>
    chan_reachable c' (joins a k)"

definition chan_inv :: "('p, 'o) chan \<Rightarrow> ('p \<Rightarrow> bool) \<Rightarrow> (nat \<Rightarrow> 'p list) \<Rightarrow> bool" where
  "chan_inv c k f \<longleftrightarrow> chan_rep c f \<and> (\<forall>l. \<forall>p\<in>set (f l). k p = receivers c)"

lemma chan_invI:
  "chan_rep c f \<Longrightarrow> (\<And>l p. p \<in> set (f l) \<Longrightarrow> k p = receivers c) \<Longrightarrow> chan_inv c k f"
  by (simp add: chan_inv_def)

lemma chan_invD:
  assumes "chan_inv c k f"
  shows "chan_rep c f" and "p \<in> set (f l) \<Longrightarrow> k p = receivers c"
  using assms by (simp_all add: chan_inv_def)

lemma take_head_inv:
  assumes inv: "chan_inv c k f"
  obtains r c' f' where "take_head c = Some (r, c')" and "chan_inv c' k f'"
    and "receivers c' = receivers c" and "\<And>x. slot_priority c' x = slot_priority c x"
    and "\<And>l p. p \<in> set (f' l) \<Longrightarrow> p \<in> set (f l)" and "r = None \<Longrightarrow> \<forall>l. f l = [] \<and> f' l = []"
proof (rule take_head_rep [OF chan_invD(1) [OF inv]])
  assume "take_head c = Some (None, c)" "\<And>l. f l = []"
  then show thesis
    using that [of None c f] inv by simp
next
  fix p l ts c'
  assume item: "take_head c = Some (Some p, c')" "f l = p # ts" "\<And>k. f k \<noteq> [] \<Longrightarrow> k \<le> l"
    "chan_rep c' (f(l := ts))" "receivers c' = receivers c" "slots c' = slots c"
    "\<And>x. slot_priority c' x = slot_priority c x"
  have sub: "x \<in> set (f i)" if "x \<in> set ((f(l := ts)) i)" for x i
    using that item(2) by (auto split: if_splits)
  then have "chan_inv c' k (f(l := ts))"
    using item(4,5) chan_invD(2) [OF inv] by (intro chan_invI) metis+
  then show thesis
    using that [of "Some p" c' "f(l := ts)"] item(1,5,7) sub by simp
qed

lemma queued_iff:
  assumes "chan_rep c f"
  shows "slot_is_queued c p \<longleftrightarrow> (\<exists>l. p \<in> set (f l))"
  using chan_repD(4,5) [OF assms] by (metis slot_is_queued_def)

lemma slot_post_inv:
  "chan_inv (snd (slot_post c p b)) k f = chan_inv c k f"
  "slot_is_queued (snd (slot_post c p b)) x = slot_is_queued c x"
  "slot_priority (snd (slot_post c p b)) x = slot_priority c x"
  "receivers (snd (slot_post c p b)) = receivers c"
  by (simp_all add: slot_post_def Let_def chan_inv_def slot_is_queued_def slot_priority_def)

text \<open>The heart of \<open>post\<close> and \<open>send\<close>: to a waiting receiver, or else to the tail.\<close>

lemma deliver_inv:
  assumes inv: "chan_inv c k f" and p: "\<not> slot_is_queued c p" "slot_priority c p \<in> {1..63}"
  obtains (receiver) r c1 f1 where "take_waiter c = Some (Some r, c1)" and "chan_inv c1 (k(p := False)) f1"
  | (queued) c1 c2 f2 where "take_waiter c = Some (None, c1)" and "enqueue c1 p = Some c2"
      and "chan_inv c2 (k(p := False)) f2"
proof -
  have out: "p \<notin> set (f l)" for l
    using queued_iff [OF chan_invD(1) [OF inv]] p(1) by blast
  obtain r c1 f1 where w: "take_waiter c = Some (r, c1)" "chan_inv c1 k f1" "receivers c1 = receivers c"
      "\<And>x. slot_priority c1 x = slot_priority c x" "\<And>l x. x \<in> set (f1 l) \<Longrightarrow> x \<in> set (f l)"
      "r = None \<Longrightarrow> receivers c \<Longrightarrow> \<forall>l. f1 l = []"
  proof (cases "receivers c")
    case True
    then show ?thesis
      using take_head_inv [OF inv] that by (metis take_waiter_def)
  next
    case False
    then show ?thesis
      using that [of None c f] inv by (simp add: take_waiter_def)
  qed
  have rep1: "chan_rep c1 f1"
    using chan_invD(1) [OF w(2)] .
  show ?thesis
  proof (cases r)
    case (Some x)
    have "chan_inv c1 (k(p := False)) f1"
      using chan_invD [OF w(2)] w(5) out by (intro chan_invI) (metis fun_upd_other)+
    then show ?thesis
      using receiver w(1) Some by simp
  next
    case None
    have "\<not> slot_is_queued c1 p"
      using queued_iff [OF rep1] w(5) out by blast
    then obtain c2 where c2: "enqueue c1 p = Some c2" "\<not> receivers c2"
        "chan_rep c2 (f1(slot_priority c1 p := f1 (slot_priority c1 p) @ [p]))"
      using enqueue_rep [OF rep1, of p] p(2) w(4) by metis
    have "chan_inv c2 (k(p := False)) (f1(slot_priority c1 p := f1 (slot_priority c1 p) @ [p]))"
    proof (rule chan_invI [OF c2(3)])
      fix l x
      assume x: "x \<in> set ((f1(slot_priority c1 p := f1 (slot_priority c1 p) @ [p])) l)"
      show "(k(p := False)) x = receivers c2"
      proof (cases "x = p")
        case False
        then have "x \<in> set (f1 l)"
          using x by (auto split: if_splits)
        then show ?thesis
          using chan_invD(2) [OF w(2), of x l] w(3,6) None c2(2) False by (cases "receivers c") auto
      qed (use c2(2) in simp)
    qed
    then show ?thesis
      using queued w(1) c2(1) None by simp
  qed
qed


text \<open>A call keeps the invariant.\<close>

abbreviation keeps :: "'p chan_call \<Rightarrow> ('p, 'o) chan \<Rightarrow> ('p \<Rightarrow> bool) \<Rightarrow> bool" where
  "keeps a c k \<equiv> \<exists>c' f'. chan_do a c = Some c' \<and> chan_inv c' (joins a k) f'"

lemma post_keeps:
  assumes inv: "chan_inv c k f" and ok: "chan_allowed (Do_Post p b) c"
  shows "keeps (Do_Post p b) c k"
proof -
  let ?c = "snd (slot_post c p b)"
  have c: "chan_inv ?c k f" "slot_priority ?c p \<in> {1..63}"
    using inv ok by (simp_all add: slot_post_inv)
  show ?thesis
  proof (cases "slot_is_queued c p")
    case True
    then have "chan_do (Do_Post p b) c = Some ?c"
      by (simp add: queue_post_def slot_post_def Let_def)
    moreover have "chan_inv ?c (k(p := False)) f"
      using chan_invD [OF c(1)] True ok by (intro chan_invI) (auto simp: slot_post_inv)
    ultimately show ?thesis
      by auto
  next
    case False
    then have first: "slot_post c p b = (First, ?c)" "\<not> slot_is_queued ?c p"
      by (simp_all add: slot_post_def Let_def slot_is_queued_def)
    have call: "queue_post c p b = Option.bind (take_waiter ?c) (\<lambda>(w, c). case w of
        Some r \<Rightarrow> Some (Post_Deliver r, c)
      | None \<Rightarrow> Option.bind (enqueue c p) (\<lambda>c. Some (Post_Queued, c)))"
      by (subst queue_post_def, subst first(1)) simp
    show ?thesis
      by (rule deliver_inv [OF c(1) first(2) c(2)]) (auto simp: call)
  qed
qed

lemma send_keeps:
  assumes inv: "chan_inv c k f" and ok: "chan_allowed (Do_Send p) c"
  shows "keeps (Do_Send p) c k"
proof -
  have p: "\<not> slot_is_queued c p" "slot_priority c p \<in> {1..63}"
    using ok by simp_all
  show ?thesis
    by (rule deliver_inv [OF inv p]) (auto simp: queue_send_def)
qed

lemma wait_keeps:
  assumes inv: "chan_inv c k f" and ok: "chan_allowed (Do_Wait p) c"
  shows "keeps (Do_Wait p) c k"
proof -
  let ?f = "f(slot_priority c p := f (slot_priority c p) @ [p])"
  note rep = chan_invD(1) [OF inv]
  have p: "\<not> slot_is_queued c p" "slot_priority c p \<in> {1..63}" "receivers c \<or> (\<forall>l. f l = [])"
    using ok chan_empty [OF rep] by (auto simp: queue_is_empty_def)
  obtain c' where c': "queue_wait c p = Some c'" "receivers c'" "chan_rep c' ?f"
    using wait_rep [OF rep p] by metis
  have "(k(p := True)) x" if "x \<in> set (?f l)" for l x
    using that p(3) chan_invD(2) [OF inv, of x] by (cases "x = p") (auto split: if_splits)
  then have "chan_inv c' (k(p := True)) ?f"
    using c'(2,3) by (intro chan_invI) auto
  then show ?thesis
    using c'(1) by auto
qed

lemma cancel_keeps:
  assumes inv: "chan_inv c k f" and ok: "chan_allowed (Do_Cancel p) c"
  shows "keeps (Do_Cancel p) c k"
proof -
  obtain l where l: "p \<in> set (f l)"
    using ok queued_iff [OF chan_invD(1) [OF inv]] by auto
  obtain c' where c': "queue_cancel c p = Some c'" "chan_rep c' (f(l := remove1 p (f l)))"
      "receivers c' = receivers c"
    using cancel_rep [OF chan_invD(1) [OF inv] l] by metis
  have "chan_inv c' k (f(l := remove1 p (f l)))"
    using c'(2,3) chan_invD(2) [OF inv] by (intro chan_invI) (auto split: if_splits dest: notin_set_remove1)
  then show ?thesis
    using c'(1) by auto
qed

lemma move_keeps:
  assumes inv: "chan_inv c k f" and ok: "chan_allowed (Do_Move p n) c"
  shows "keeps (Do_Move p n) c k"
proof -
  obtain l where l: "p \<in> set (f l)" "n \<in> {1..63}"
    using ok queued_iff [OF chan_invD(1) [OF inv]] by auto
  obtain c' where c': "queue_move_to c p n = Some c'" "chan_rep c' (moved p l n f)"
      "receivers c' = receivers c"
    using move_rep [OF chan_invD(1) [OF inv] l] by metis
  have "\<exists>i. x \<in> set (f i)" if "x \<in> set (moved p l n f j)" for x j
    using that l(1) set_remove1_subset [of p "f l"] by (auto simp: moved_def split: if_splits)
  then have "chan_inv c' k (moved p l n f)"
    using c'(2,3) chan_invD(2) [OF inv] by (intro chan_invI) metis+
  then show ?thesis
    using c'(1) by auto
qed

lemma chan_do_inv:
  assumes inv: "chan_inv c k f" and ok: "chan_allowed a c"
  shows "keeps a c k"
proof (cases a)
  case Do_Take_Slot
  obtain r c' f' where "take_head c = Some (r, c')" "chan_inv c' k f'"
    using take_head_inv [OF inv] by metis
  then show ?thesis
    using inv Do_Take_Slot by (cases "receivers c") (auto simp: take_slot_def)
next
  case Do_Take_Waiter
  obtain r c' f' where "take_head c = Some (r, c')" "chan_inv c' k f'"
    using take_head_inv [OF inv] by metis
  then show ?thesis
    using inv Do_Take_Waiter by (cases "receivers c") (auto simp: take_waiter_def)
next
  case (Do_Slot_Priority p n)
  then obtain c' where "slot_set_priority c p n = Some c'" "chan_rep c' f" "receivers c' = receivers c"
    using slot_set_priority_rep [OF chan_invD(1) [OF inv]] ok by (metis chan_allowed.simps(6))
  then show ?thesis
    using chan_invD(2) [OF inv] by (intro exI [of _ c'] exI [of _ f]) (auto simp: Do_Slot_Priority intro: chan_invI)
next
  case (Do_Slot_Take p)
  then show ?thesis
    using inv by (auto simp: slot_take_def Let_def chan_inv_def)
qed (use inv ok post_keeps send_keeps wait_keeps cancel_keeps move_keeps in \<open>simp_all only:\<close>)

lemma chan_reachable_inv: "chan_reachable c k \<Longrightarrow> \<exists>f. chan_inv c k f"
proof (induction rule: chan_reachable.induct)
  case (opened ls ss)
  then show ?case
    by (intro exI [of _ "\<lambda>_. []"]) (auto simp: chan_inv_def chan_rep_def queue_new_def rq_refines_def
        rep_new total_Nil)
next
  case (call c k a c')
  then show ?case
    using chan_do_inv [of c k _ a] by auto
qed


text \<open>
  C10. A channel's queue holds slots and requests or receivers, never both: in every state that
  calls within their contracts reach, each item joined the queue as what the flag of the queue
  says, the items are counted, and every further call within its contract goes through.
\<close>

theorem channel_never_mixes:
  assumes "chan_reachable c k" and "chan_allowed a c"
  shows "(\<exists>f. rq_rep (slot_links c) (items c) f \<and> qlen c = of_nat (total f)
      \<and> (\<forall>l. \<forall>p\<in>set (f l). k p = receivers c)) \<and> chan_do a c \<noteq> None"
proof -
  obtain f where inv: "chan_inv c k f"
    using chan_reachable_inv [OF assms(1)] by blast
  moreover have "chan_do a c \<noteq> None"
    using chan_do_inv [OF inv assms(2)] by auto
  ultimately show ?thesis
    using chan_repD(2,3) [of c f] by (auto simp: chan_inv_def)
qed

definition quiet_chan :: "(nat, unit) chan" where
  "quiet_chan = queue_new (\<lambda>_. link_new 3) (\<lambda>_. \<lparr>bits = 0, count = 0, owner = ()\<rparr>)"

lemma quiet_chan_rep: "chan_rep quiet_chan (\<lambda>_. [])"
  by (simp add: quiet_chan_def chan_rep_def queue_new_def rq_refines_def rep_new total_Nil link_new_def
      link_is_queued_def)

theorem channel_never_mixes_witness:
  "chan_do (Do_Wait 4) quiet_chan \<noteq> None"
proof -
  have "chan_reachable quiet_chan (\<lambda>_. False)"
    unfolding quiet_chan_def by (rule chan_reachable.opened) (simp add: link_new_def link_is_queued_def)
  moreover have "chan_allowed (Do_Wait 4) quiet_chan"
    by (simp add: quiet_chan_def queue_new_def slot_priority_def slot_is_queued_def link_new_def
        link_is_queued_def queue_is_empty_def rq_is_empty_def rq_new_def)
  ultimately show ?thesis
    using channel_never_mixes by blast
qed

section \<open>Posts merge\<close>

fun post_all :: "('p, 'o) chan \<Rightarrow> 'p \<Rightarrow> u64 list \<Rightarrow> ('p, 'o) chan option" where
  "post_all c p [] = Some c"
| "post_all c p (b # bs) = do { (_, c) \<leftarrow> queue_post c p b; post_all c p bs }"

text \<open>A post to a slot that stands in the queue.\<close>

lemma post_merges:
  assumes "chan_rep c f" and "slot_is_queued c p"
  shows "\<exists>c'. post_all c p bs = Some c' \<and> chan_rep c' f
    \<and> bits (slots c' p) = fold (OR) bs (bits (slots c p))
    \<and> unat (count (slots c' p)) = min (unat (count (slots c p)) + length bs) (2 ^ 32 - 1)"
  using assms
proof (induction bs arbitrary: c)
  case Nil
  then show ?case
    using unat_below [of "count (slots c p)"] by simp
next
  case (Cons b bs)
  let ?c = "snd (slot_post c p b)"
  have "queue_post c p b = Some (Post_Merged, ?c)"
    using Cons.prems(2) by (simp add: queue_post_def slot_post_def Let_def)
  moreover have "chan_rep ?c f" "slot_is_queued ?c p"
    using Cons.prems by (simp_all add: slot_post_def Let_def slot_is_queued_def)
  moreover have "bits (slots ?c p) = bits (slots c p) OR b"
      "unat (count (slots ?c p)) = min (unat (count (slots c p)) + 1) (2 ^ 32 - 1)"
    by (simp_all add: slot_post_def Let_def unat_saturating_add)
  ultimately show ?case
    using Cons.IH [of ?c] by (auto simp: ac_simps)
qed

text \<open>
  C11. Posts merge and lose nothing: posts into an empty slot of a channel where no receiver
  waits put the slot into the queue once, at the tail of its level, and the receiver that
  takes the slot gets every bit posted and the number of posts, up to the largest count.
\<close>

theorem posts_merge:
  assumes rep: "chan_rep c f" and idle: "\<not> receivers c" and out: "\<not> slot_is_queued c p"
    and prio: "slot_priority c p \<in> {1..63}" and empty: "bits (slots c p) = 0" "count (slots c p) = 0"
    and some: "bs \<noteq> []"
  shows "\<exists>c' b n. post_all c p bs = Some c'
    \<and> chan_rep c' (f(slot_priority c p := f (slot_priority c p) @ [p]))
    \<and> fst (slot_take c' p) = (b, n)
    \<and> (\<forall>i. bit b i \<longleftrightarrow> (\<exists>x\<in>set bs. bit x i)) \<and> unat n = min (length bs) (2 ^ 32 - 1)"
proof -
  obtain b bs' where bs: "bs = b # bs'"
    using some by (cases bs) auto
  let ?c = "snd (slot_post c p b)"
  have first: "slot_post c p b = (First, ?c)" "\<not> slot_is_queued ?c p"
    using out by (simp_all add: slot_post_def Let_def slot_is_queued_def)
  have c: "chan_rep ?c f" "slot_priority ?c p = slot_priority c p" "\<not> receivers ?c"
      "bits (slots ?c p) = b" "count (slots ?c p) = 1"
    using rep idle empty
    by (simp_all add: slot_post_def Let_def slot_priority_def saturating_add_def)
  obtain c1 where c1: "enqueue ?c p = Some c1" "slots c1 = slots ?c"
      "chan_rep c1 (f(slot_priority c p := f (slot_priority c p) @ [p]))"
    using enqueue_rep [OF c(1) first(2)] prio c(2) by metis
  have post: "queue_post c p b = Some (Post_Queued, c1)"
    by (subst queue_post_def, subst first(1)) (simp add: take_waiter_def c(3) c1(1))
  have "slot_is_queued c1 p"
    using queued_iff [OF c1(3), of p] by (metis fun_upd_same in_set_conv_decomp)
  then obtain c2 where c2: "post_all c1 p bs' = Some c2"
      "chan_rep c2 (f(slot_priority c p := f (slot_priority c p) @ [p]))"
      "bits (slots c2 p) = fold (OR) bs' (bits (slots c1 p))"
      "unat (count (slots c2 p)) = min (unat (count (slots c1 p)) + length bs') (2 ^ 32 - 1)"
    using post_merges [OF c1(3)] by metis
  have "bit (fold (OR) xs w) i \<longleftrightarrow> bit w i \<or> (\<exists>x\<in>set xs. bit x i)" for xs i and w :: u64
    by (induction xs arbitrary: w) (auto simp: bit_or_iff)
  then show ?thesis
    using c2 post c c1(2) bs by (auto simp: slot_take_def Let_def)
qed

theorem posts_merge_witness:
  "\<exists>c' b n. post_all quiet_chan 4 [1, 4, 4] = Some c' \<and> fst (slot_take c' 4) = (b, n)
    \<and> bit b 2 \<and> \<not> bit b 1 \<and> unat n = 3"
proof -
  have "\<not> receivers quiet_chan" "\<not> slot_is_queued quiet_chan 4" "slot_priority quiet_chan 4 \<in> {1..63}"
      "bits (slots quiet_chan 4) = 0" "count (slots quiet_chan 4) = 0"
    by (simp_all add: quiet_chan_def queue_new_def slot_priority_def slot_is_queued_def link_new_def
        link_is_queued_def)
  from posts_merge [OF quiet_chan_rep this, of "[1, 4, 4]"]
  obtain c' b n where "post_all quiet_chan 4 [1, 4, 4] = Some c'" "fst (slot_take c' 4) = (b, n)"
      "\<And>i. bit b i \<longleftrightarrow> (\<exists>x\<in>set [1, 4, 4 :: u64]. bit x i)" "unat n = 3"
    by auto
  moreover have "bit (4 :: u64) 2" "\<not> bit (4 :: u64) 1" "\<not> bit (1 :: u64) 1"
    by (simp_all add: bit_iff_odd drop_bit_eq_div)
  ultimately show ?thesis
    by auto
qed

end
