(* ===== verification/Handle_Table.thy ===== *)
theory Handle_Table
  imports Abi
begin

text \<open>
  Handle tables, \<open>kcore/src/handles.rs\<close>: entries in chunks of 64 that a directory finds,
  a free list through the entries, generations that make every handle value unique, and the
  stepwise release.

  A chunk is its address with its entries: the table owns the chunks of its directory, so
  their contents are part of the table. The memory the chunks and the directory come from is
  the kernel's (the trait \<open>ChunkSource\<close>): a record of its four operations over its own
  state is an argument. The counters of the table are \<open>u32\<close> that stay at most 16384, and
  are natural numbers; generations are 64-bit words. A callback that takes the released objects
  is the list of what it is given, in order.
\<close>

definition CHUNK :: nat where "CHUNK = 64"
definition MAX_CHUNKS :: nat where "MAX_CHUNKS = 256"
definition MAX_HANDLES :: nat where "MAX_HANDLES = CHUNK * MAX_CHUNKS"
definition NO_ENTRY :: nat where "NO_ENTRY = 2 ^ 32 - 1"

section \<open>State\<close>

record 'a entry =
  object :: "'a option"
  rights :: rights
  generation :: u64
  next_free :: nat

type_synonym ('a, 'cp) chunk = "'cp \<times> 'a entry list"
type_synonym ('a, 'cp, 'dp) directory = "'dp \<times> ('a, 'cp) chunk option list"

record ('a, 'cp, 'dp) handle_table =
  directory :: "('a, 'cp, 'dp) directory option"
  chunk_count :: nat
  used :: nat
  limit :: nat
  free_head :: nat
  live :: nat
  free_count :: nat
  retired :: nat
  closing :: bool
  released :: nat

record ('s, 'cp, 'dp) chunk_source =
  alloc_chunk :: "'s \<Rightarrow> 'cp option \<times> 's"
  free_chunk :: "'s \<Rightarrow> 'cp \<Rightarrow> 's"
  alloc_directory :: "'s \<Rightarrow> 'dp option \<times> 's"
  free_directory :: "'s \<Rightarrow> 'dp \<Rightarrow> 's"

definition table_new :: "nat \<Rightarrow> ('a, 'cp, 'dp) handle_table result" where
  "table_new lim =
     (if lim > MAX_HANDLES then Inl InvalidArgs
      else Inr \<lparr>directory = None, chunk_count = 0, used = 0, limit = lim, free_head = NO_ENTRY,
        live = 0, free_count = 0, retired = 0, closing = False, released = 0\<rparr>)"

definition room :: "('a, 'cp, 'dp) handle_table \<Rightarrow> nat" where
  "room t = (if closing t then 0 else free_count t + (limit t - used t))"

section \<open>Entries\<close>

text \<open>The directory's slot for a chunk, and an entry by its index.\<close>

definition chunk_slot :: "('a, 'cp, 'dp) handle_table \<Rightarrow> nat \<Rightarrow> ('a, 'cp) chunk option option" where
  "chunk_slot t c = do { (_, cs) \<leftarrow> directory t; at_index cs c }"

definition set_chunk_slot ::
  "('a, 'cp, 'dp) handle_table \<Rightarrow> nat \<Rightarrow> ('a, 'cp) chunk option \<Rightarrow> ('a, 'cp, 'dp) handle_table option" where
  "set_chunk_slot t c v = do {
     (d, cs) \<leftarrow> directory t;
     cs \<leftarrow> set_index cs c v;
     Some (t\<lparr>directory := Some (d, cs)\<rparr>) }"

definition table_chunk :: "('a, 'cp, 'dp) handle_table \<Rightarrow> nat \<Rightarrow> ('a, 'cp) chunk option" where
  "table_chunk t i = do { slot \<leftarrow> chunk_slot t (i div CHUNK); slot }"

definition entry_at :: "('a, 'cp, 'dp) handle_table \<Rightarrow> nat \<Rightarrow> 'a entry option" where
  "entry_at t i = do { (_, es) \<leftarrow> table_chunk t i; at_index es (i mod CHUNK) }"

definition set_entry ::
  "('a, 'cp, 'dp) handle_table \<Rightarrow> nat \<Rightarrow> 'a entry \<Rightarrow> ('a, 'cp, 'dp) handle_table option" where
  "set_entry t i e = do {
     (p, es) \<leftarrow> table_chunk t i;
     es \<leftarrow> set_index es (i mod CHUNK) e;
     set_chunk_slot t (i div CHUNK) (Some (p, es)) }"

definition fresh_entry :: "'a entry" where
  "fresh_entry = \<lparr>object = None, rights = rights_NONE, generation = 1, next_free = NO_ENTRY\<rparr>"

definition grow ::
  "('s, 'cp, 'dp) chunk_source \<Rightarrow> ('a, 'cp, 'dp) handle_table \<Rightarrow> 's \<Rightarrow>
   (unit result \<times> ('a, 'cp, 'dp) handle_table \<times> 's) option" where
  "grow src t s =
     (case (case directory t of
              Some _ \<Rightarrow> (Inr t, s)
            | None \<Rightarrow> (case alloc_directory src s of
                (None, s) \<Rightarrow> (Inl NoMemory, s)
              | (Some d, s) \<Rightarrow> (Inr (t\<lparr>directory := Some (d, replicate MAX_CHUNKS None)\<rparr>), s))) of
        (Inl e, s) \<Rightarrow> Some (Inl e, t, s)
      | (Inr t, s) \<Rightarrow> (case alloc_chunk src s of
            (None, s) \<Rightarrow> Some (Inl NoMemory, t, s)
          | (Some p, s) \<Rightarrow> do {
              t \<leftarrow> set_chunk_slot t (chunk_count t) (Some (p, replicate CHUNK fresh_entry));
              Some (Inr (), t\<lparr>chunk_count := chunk_count t + 1\<rparr>, s) }))"

section \<open>Operations\<close>

definition reserve ::
  "('s, 'cp, 'dp) chunk_source \<Rightarrow> ('a, 'cp, 'dp) handle_table \<Rightarrow> 's \<Rightarrow> nat \<Rightarrow>
   (unit result \<times> ('a, 'cp, 'dp) handle_table \<times> 's) option" where
  "reserve src t s n = do {
     ensure (n \<le> CHUNK);
     if room t < n then Some (Inl LimitReached, t, s)
     else
       let fresh = n - free_count t in
       if used t + fresh > chunk_count t * CHUNK then grow src t s
       else Some (Inr (), t, s) }"

text \<open>The choice of the index in \<open>insert\<close>: from the free list, or the next unused one.\<close>

definition insert_index ::
  "('s, 'cp, 'dp) chunk_source \<Rightarrow> ('a, 'cp, 'dp) handle_table \<Rightarrow> 's \<Rightarrow>
   (nat result \<times> ('a, 'cp, 'dp) handle_table \<times> 's) option" where
  "insert_index src t s =
     (if free_head t \<noteq> NO_ENTRY then do {
        let i = free_head t;
        e \<leftarrow> entry_at t i;
        Some (Inr i, t\<lparr>free_head := next_free e, free_count := free_count t - 1\<rparr>, s) }
      else if used t \<ge> limit t then Some (Inl LimitReached, t, s)
      else do {
        (r, t, s) \<leftarrow> (if used t = chunk_count t * CHUNK then grow src t s else Some (Inr (), t, s));
        (case r of
           Inl e \<Rightarrow> Some (Inl e, t, s)
         | Inr _ \<Rightarrow> Some (Inr (used t), t\<lparr>used := used t + 1\<rparr>, s)) })"

definition table_insert ::
  "('s, 'cp, 'dp) chunk_source \<Rightarrow> ('a, 'cp, 'dp) handle_table \<Rightarrow> 's \<Rightarrow> 'a \<Rightarrow> rights \<Rightarrow>
   (handle result \<times> ('a, 'cp, 'dp) handle_table \<times> 's) option" where
  "table_insert src t s x r =
     (if closing t then Some (Inl LimitReached, t, s)
      else do {
        (ri, t, s) \<leftarrow> insert_index src t s;
        (case ri of
           Inl e \<Rightarrow> Some (Inl e, t, s)
         | Inr i \<Rightarrow> do {
             e \<leftarrow> entry_at t i;
             t \<leftarrow> set_entry t i (e\<lparr>object := Some x, rights := r\<rparr>);
             Some (Inr (handle_new (of_nat i) (generation e)), t\<lparr>live := live t + 1\<rparr>, s) }) })"

definition table_get :: "('a, 'cp, 'dp) handle_table \<Rightarrow> handle \<Rightarrow> ('a \<times> rights) result option" where
  "table_get t h =
     (let i = unat (handle_index h) in
      if i \<ge> used t then Some (Inl BadHandle)
      else do {
        e \<leftarrow> entry_at t i;
        (case object e of
           Some x \<Rightarrow> if generation e = handle_generation h then Some (Inr (x, rights e)) else Some (Inl BadHandle)
         | None \<Rightarrow> Some (Inl BadHandle)) })"

definition table_get_as ::
  "('a, 'cp, 'dp) handle_table \<Rightarrow> handle \<Rightarrow> rights \<Rightarrow> ('a \<Rightarrow> 'u option) \<Rightarrow> 'u result option" where
  "table_get_as t h required kind = do {
     r \<leftarrow> table_get t h;
     Some (case r of
         Inl e \<Rightarrow> Inl e
       | Inr (x, rs) \<Rightarrow> (case kind x of
             None \<Rightarrow> Inl WrongType
           | Some u \<Rightarrow> if rights_contains rs required then Inr u else Inl AccessDenied)) }"

definition table_remove ::
  "('a, 'cp, 'dp) handle_table \<Rightarrow> handle \<Rightarrow> (('a \<times> rights) result \<times> ('a, 'cp, 'dp) handle_table) option" where
  "table_remove t h =
     (let i = unat (handle_index h) in
      if i \<ge> used t then Some (Inl BadHandle, t)
      else do {
        e \<leftarrow> entry_at t i;
        if generation e \<noteq> handle_generation h then Some (Inl BadHandle, t)
        else (case object e of
            None \<Rightarrow> Some (Inl BadHandle, t)
          | Some x \<Rightarrow> do {
              let retire = (generation e = handle_MAX_GENERATION);
              t' \<leftarrow> set_entry t i
                (if retire then e\<lparr>object := None\<rparr>
                 else e\<lparr>object := None, generation := generation e + 1, next_free := free_head t\<rparr>);
              let t' = t'\<lparr>live := live t' - 1\<rparr>;
              Some (Inr (x, rights e),
                if retire then t'\<lparr>retired := retired t' + 1\<rparr>
                else t'\<lparr>free_head := i, free_count := free_count t' + 1\<rparr>) }) })"

section \<open>Release\<close>

text \<open>The loop over the entries of a part of a chunk: the objects taken out, in order.\<close>

definition take_out :: "'a entry list \<Rightarrow> nat \<Rightarrow> nat \<Rightarrow> ('a \<times> rights) list \<times> 'a entry list" where
  "take_out es from to =
     (List.map_filter (\<lambda>e. map_option (\<lambda>x. (x, rights e)) (object e)) (drop from (take to es)),
      take from es @ map (\<lambda>e. e\<lparr>object := None\<rparr>) (drop from (take to es)) @ drop to es)"

text \<open>The end of a release: the directory goes back and the table is fresh.\<close>

definition release_end ::
  "('s, 'cp, 'dp) chunk_source \<Rightarrow> ('a, 'cp, 'dp) handle_table \<Rightarrow> 's \<Rightarrow> ('a, 'cp, 'dp) handle_table \<times> 's" where
  "release_end src t s =
     (t\<lparr>directory := None, used := 0, free_head := NO_ENTRY, live := 0, free_count := 0,
        retired := 0, closing := False\<rparr>,
      case directory t of None \<Rightarrow> s | Some (d, _) \<Rightarrow> free_directory src s d)"

definition release_step ::
  "('s, 'cp, 'dp) chunk_source \<Rightarrow> ('a, 'cp, 'dp) handle_table \<Rightarrow> 's \<Rightarrow> nat \<Rightarrow>
   (bool \<times> ('a \<times> rights) list \<times> ('a, 'cp, 'dp) handle_table \<times> 's) option" where
  "release_step src t s n = do {
     ensure (n > 0);
     if chunk_count t = 0 then (let (t, s) = release_end src t s in Some (True, [], t, s))
     else do {
       let c = chunk_count t - 1;
       let t = t\<lparr>closing := True, free_head := NO_ENTRY, used := min (used t) (c * CHUNK)\<rparr>;
       slot \<leftarrow> chunk_slot t c;
       (p, es) \<leftarrow> slot;
       let from = released t;
       let to = from + min n (CHUNK - from);
       let (out, es) = take_out es from to;
       t \<leftarrow> set_chunk_slot t c (Some (p, es));
       let t = t\<lparr>live := live t - length out, released := to\<rparr>;
       if to < CHUNK then Some (False, out, t, s)
       else do {
         t \<leftarrow> set_chunk_slot (t\<lparr>released := 0\<rparr>) c None;
         let t = t\<lparr>chunk_count := c\<rparr>;
         let s = free_chunk src s p;
         if c > 0 then Some (False, out, t, s)
         else (let (t, s) = release_end src t s in Some (True, out, t, s)) } } }"

text \<open>What the kernel does with a table: a released one must be empty when it is dropped.\<close>

definition table_drop :: "('a, 'cp, 'dp) handle_table \<Rightarrow> unit option" where
  "table_drop t = ensure (directory t = None)"

end
