(* ===== verification/Handle_Invariant.thy ===== *)
theory Handle_Invariant
  imports Handle_Table
begin

text \<open>
  The invariant of handle tables. The chunks are read as one list of entries; the free list
  is a chain through the entries that are free; every entry below \<open>used\<close> is live, free or
  retired. Each operation has a lemma with its effect on the list of entries.
\<close>

section \<open>The entries as one list\<close>

text \<open>\<open>dir_rep t es\<close>: the chunks of the table hold the entries \<open>es\<close>, in order.\<close>

definition dir_rep :: "('a, 'cp, 'dp) handle_table \<Rightarrow> 'a entry list \<Rightarrow> bool" where
  "dir_rep t es \<longleftrightarrow>
     length es = CHUNK * chunk_count t \<and> chunk_count t \<le> MAX_CHUNKS
     \<and> (case directory t of
          None \<Rightarrow> chunk_count t = 0
        | Some (d, cs) \<Rightarrow> length cs = MAX_CHUNKS
            \<and> (\<forall>c<chunk_count t. \<exists>p. cs ! c = Some (p, take CHUNK (drop (CHUNK * c) es)))
            \<and> (\<forall>c<MAX_CHUNKS. chunk_count t \<le> c \<longrightarrow> cs ! c = None))"

lemma div_chunk: "i < CHUNK * n \<Longrightarrow> i div CHUNK < n"
  by (simp add: less_mult_imp_div_less mult.commute)

lemma chunk_part:
  assumes "i < length es" and "i div CHUNK = c"
  shows "take CHUNK (drop (CHUNK * c) es) ! (i mod CHUNK) = es ! i"
    and "i mod CHUNK < length (take CHUNK (drop (CHUNK * c) es))"
proof -
  have "CHUNK * c + i mod CHUNK = i" "i mod CHUNK < CHUNK"
    using assms(2) by (auto simp: CHUNK_def)
  then show "take CHUNK (drop (CHUNK * c) es) ! (i mod CHUNK) = es ! i"
    "i mod CHUNK < length (take CHUNK (drop (CHUNK * c) es))"
    using assms(1) by (auto simp: nth_append)
qed

lemma chunk_upd:
  assumes "i < length es" and "c = i div CHUNK"
  shows "take CHUNK (drop (CHUNK * c) (es[i := e])) = (take CHUNK (drop (CHUNK * c) es))[i mod CHUNK := e]"
proof -
  have "CHUNK * c \<le> i" "i - CHUNK * c = i mod CHUNK"
    using assms(2) by (auto simp: CHUNK_def minus_mult_div_eq_mod)
  then show ?thesis
    by (simp add: drop_update_swap take_update_swap)
qed

lemma chunk_upd_other:
  assumes "i < length es" and "c \<noteq> i div CHUNK"
  shows "take CHUNK (drop (CHUNK * c) (es[i := e])) = take CHUNK (drop (CHUNK * c) es)"
proof (cases "i < CHUNK * c")
  case True
  then show ?thesis
    by (simp add: drop_update_cancel)
next
  case False
  have "i < CHUNK * c + CHUNK \<Longrightarrow> i div CHUNK = c"
    using False by (intro div_nat_eqI) (simp_all add: mult.commute)
  then have "CHUNK \<le> i - CHUNK * c"
    using assms(2) False by linarith
  then show ?thesis
    using False by (simp add: drop_update_swap take_update_cancel)
qed

lemma dir_chunk:
  assumes "dir_rep t es" and "i < length es"
  obtains d cs p where "directory t = Some (d, cs)" and "length cs = MAX_CHUNKS"
    and "i div CHUNK < MAX_CHUNKS"
    and "cs ! (i div CHUNK) = Some (p, take CHUNK (drop (CHUNK * (i div CHUNK)) es))"
proof -
  have c: "i div CHUNK < chunk_count t" "chunk_count t \<le> MAX_CHUNKS"
    using assms by (auto simp: dir_rep_def div_chunk)
  then obtain d cs where "directory t = Some (d, cs)"
    using assms(1) by (cases "directory t") (auto simp: dir_rep_def)
  then show ?thesis
    using assms(1) that c by (auto simp: dir_rep_def)
qed

lemma entry_rep:
  assumes "dir_rep t es" and "i < length es"
  shows "entry_at t i = Some (es ! i)"
proof -
  obtain d cs p where "directory t = Some (d, cs)" "length cs = MAX_CHUNKS" "i div CHUNK < MAX_CHUNKS"
      "cs ! (i div CHUNK) = Some (p, take CHUNK (drop (CHUNK * (i div CHUNK)) es))"
    using dir_chunk [OF assms] by blast
  then show ?thesis
    using chunk_part [OF assms(2) refl] by (simp add: entry_at_def table_chunk_def chunk_slot_def)
qed

lemma set_entry_rep:
  assumes rep: "dir_rep t es" and i: "i < length es"
  obtains dir where "set_entry t i e = Some (t\<lparr>directory := Some dir\<rparr>)"
    and "dir_rep (t\<lparr>directory := Some dir\<rparr>) (es[i := e])"
proof -
  let ?c = "i div CHUNK" and ?part = "\<lambda>es c. take CHUNK (drop (CHUNK * c) es)"
  obtain d cs p where dir: "directory t = Some (d, cs)" "length cs = MAX_CHUNKS" "?c < MAX_CHUNKS"
      "cs ! ?c = Some (p, ?part es ?c)"
    using dir_chunk [OF rep i] by blast
  let ?cs = "cs[?c := Some (p, (?part es ?c)[i mod CHUNK := e])]"
  have "set_entry t i e = Some (t\<lparr>directory := Some (d, ?cs)\<rparr>)"
    using dir chunk_part(2) [OF i refl]
    by (simp add: set_entry_def table_chunk_def chunk_slot_def set_chunk_slot_def set_index_def)
  moreover have "\<exists>q. ?cs ! c = Some (q, ?part (es[i := e]) c)" if "c < chunk_count t" for c
  proof (cases "c = ?c")
    case True
    then show ?thesis
      using dir(2,3) chunk_upd [OF i refl, of e] by simp
  next
    case False
    then show ?thesis
      using rep dir that chunk_upd_other [OF i False, of e] by (auto simp: dir_rep_def)
  qed
  moreover have "?cs ! c = None" if "c < MAX_CHUNKS" "chunk_count t \<le> c" for c
    using rep dir that i div_chunk [of i "chunk_count t"] by (auto simp: dir_rep_def)
  ultimately show ?thesis
    using that [of "(d, ?cs)"] rep dir(1,2) by (simp add: dir_rep_def)
qed

lemma chunk_append:
  assumes "length es = CHUNK * n"
  shows "c < n \<Longrightarrow> take CHUNK (drop (CHUNK * c) (es @ xs)) = take CHUNK (drop (CHUNK * c) es)"
    and "length xs = CHUNK \<Longrightarrow> take CHUNK (drop (CHUNK * n) (es @ xs)) = xs"
proof -
  show "take CHUNK (drop (CHUNK * c) (es @ xs)) = take CHUNK (drop (CHUNK * c) es)" if "c < n"
  proof -
    have "CHUNK * c + CHUNK \<le> length es"
      using that assms by (metis Suc_leI mult_Suc_right add.commute mult_le_mono2)
    then show ?thesis
      by simp
  qed
qed (use assms in simp)

text \<open>\<open>grow\<close> fails for want of memory and leaves the entries, or adds a chunk of fresh ones.\<close>

lemma add_chunk_rep:
  assumes t1: "dir_rep t1 es" "directory t1 = Some (d, cs)" and room: "chunk_count t1 < MAX_CHUNKS"
  obtains cs' where "set_chunk_slot t1 (chunk_count t1) (Some (p, replicate CHUNK fresh_entry)) =
      Some (t1\<lparr>directory := Some (d, cs')\<rparr>)"
    and "dir_rep (t1\<lparr>directory := Some (d, cs'), chunk_count := chunk_count t1 + 1\<rparr>)
      (es @ replicate CHUNK fresh_entry)"
proof -
  let ?cs = "cs[chunk_count t1 := Some (p, replicate CHUNK fresh_entry)]"
  have len: "length cs = MAX_CHUNKS" "length es = CHUNK * chunk_count t1"
    using t1 by (simp_all add: dir_rep_def)
  have "\<exists>q. ?cs ! c = Some (q, take CHUNK (drop (CHUNK * c) (es @ replicate CHUNK fresh_entry)))"
    if "c < Suc (chunk_count t1)" for c
  proof (cases "c = chunk_count t1")
    case True
    then show ?thesis
      using room len chunk_append(2) [OF len(2), of "replicate CHUNK fresh_entry"] by simp
  next
    case False
    then show ?thesis
      using that t1 chunk_append(1) [OF len(2), of c "replicate CHUNK fresh_entry"]
      by (auto simp: dir_rep_def simp del: take_append drop_append)
  qed
  then show ?thesis
    using that [of ?cs] t1 room len by (auto simp: dir_rep_def set_chunk_slot_def set_index_def)
qed

lemma grow_rep:
  assumes rep: "dir_rep t es" and room: "chunk_count t < MAX_CHUNKS"
  obtains (failed) t' s' dir where "grow src t s = Some (Inl NoMemory, t', s')"
      and "t' = t\<lparr>directory := dir\<rparr>" and "dir_rep t' es"
  | (grown) t' s' dir where "grow src t s = Some (Inr (), t', s')"
      and "t' = t\<lparr>directory := dir, chunk_count := chunk_count t + 1\<rparr>"
      and "dir_rep t' (es @ replicate CHUNK fresh_entry)"
proof -
  have go: thesis if t1: "dir_rep t1 es" "t1 = t\<lparr>directory := Some (d, cs)\<rparr>"
      and call: "grow src t s = (case alloc_chunk src s1 of
            (None, s) \<Rightarrow> Some (Inl NoMemory, t1, s)
          | (Some p, s) \<Rightarrow> do {
              t \<leftarrow> set_chunk_slot t1 (chunk_count t1) (Some (p, replicate CHUNK fresh_entry));
              Some (Inr (), t\<lparr>chunk_count := chunk_count t + 1\<rparr>, s) })" for t1 d cs s1
  proof (cases "alloc_chunk src s1")
    case (Pair r s2)
    show ?thesis
    proof (cases r)
      case None
      then show ?thesis
        using failed [of t1 s2 "Some (d, cs)"] t1 call Pair by simp
    next
      case (Some p)
      obtain cs' where "set_chunk_slot t1 (chunk_count t1) (Some (p, replicate CHUNK fresh_entry)) =
          Some (t1\<lparr>directory := Some (d, cs')\<rparr>)"
        "dir_rep (t1\<lparr>directory := Some (d, cs'), chunk_count := chunk_count t1 + 1\<rparr>)
          (es @ replicate CHUNK fresh_entry)"
        using add_chunk_rep [OF t1(1), of d cs p] t1(2) room by auto
      then show ?thesis
        using grown [of "t\<lparr>directory := Some (d, cs'), chunk_count := chunk_count t + 1\<rparr>" s2 "Some (d, cs')"]
          call Pair Some t1(2) by simp
    qed
  qed
  show ?thesis
  proof (cases "directory t")
    case (Some dir)
    obtain d cs where "dir = (d, cs)"
      by (cases dir)
    then show ?thesis
      using Some rep by (intro go [of t d cs s]) (simp_all add: grow_def)
  next
    case None
    then have es: "es = []" "chunk_count t = 0"
      using rep by (auto simp: dir_rep_def)
    obtain r s1 where alloc: "alloc_directory src s = (r, s1)"
      by (cases "alloc_directory src s")
    show ?thesis
    proof (cases r)
      case r: None
      then show ?thesis
        using failed [of t s1 None] None alloc rep by (simp add: grow_def)
    next
      case (Some d)
      let ?t = "t\<lparr>directory := Some (d, replicate MAX_CHUNKS None)\<rparr>"
      have "dir_rep ?t es"
        using es by (simp add: dir_rep_def)
      then show ?thesis
        using None Some alloc
        by (intro go [of ?t d "replicate MAX_CHUNKS None" s1]) (simp_all add: grow_def)
    qed
  qed
qed

lemma dir_rep_cong:
  "directory t' = directory t \<Longrightarrow> chunk_count t' = chunk_count t \<Longrightarrow> dir_rep t' es = dir_rep t es"
  by (cases "directory t") (simp_all add: dir_rep_def)

section \<open>The invariant\<close>

fun free_chain :: "'a entry list \<Rightarrow> nat \<Rightarrow> nat list \<Rightarrow> bool" where
  "free_chain es h [] \<longleftrightarrow> h = NO_ENTRY"
| "free_chain es h (i # fl) \<longleftrightarrow> h = i \<and> i < length es \<and> free_chain es (next_free (es ! i)) fl"

definition live_set :: "'a entry list \<Rightarrow> nat \<Rightarrow> nat set" where
  "live_set es u = {i. i < u \<and> object (es ! i) \<noteq> None}"

definition entries_ok :: "'a entry list \<Rightarrow> nat \<Rightarrow> nat list \<Rightarrow> bool" where
  "entries_ok es u fl \<longleftrightarrow>
     u \<le> length es \<and> distinct fl
     \<and> (\<forall>i\<in>set fl. i < u \<and> object (es ! i) = None)
     \<and> (\<forall>i<u. object (es ! i) = None \<longrightarrow> i \<in> set fl \<or> generation (es ! i) = handle_MAX_GENERATION)
     \<and> (\<forall>i<u. 1 \<le> generation (es ! i) \<and> generation (es ! i) \<le> handle_MAX_GENERATION)
     \<and> (\<forall>i. u \<le> i \<and> i < length es \<longrightarrow> es ! i = fresh_entry)"

definition table_rep :: "('a, 'cp, 'dp) handle_table \<Rightarrow> 'a entry list \<Rightarrow> nat list \<Rightarrow> bool" where
  "table_rep t es fl \<longleftrightarrow>
     dir_rep t es \<and> entries_ok es (used t) fl \<and> free_chain es (free_head t) fl
     \<and> \<not> closing t \<and> released t = 0 \<and> used t \<le> limit t \<and> limit t \<le> MAX_HANDLES
     \<and> free_count t = length fl \<and> live t = card (live_set es (used t))
     \<and> live t + free_count t + retired t = used t"

lemma table_repD:
  assumes "table_rep t es fl"
  shows "dir_rep t es" and "entries_ok es (used t) fl" and "free_chain es (free_head t) fl"
    and "\<not> closing t" and "used t \<le> limit t" and "limit t \<le> MAX_HANDLES"
    and "free_count t = length fl" and "live t = card (live_set es (used t))"
    and "live t + free_count t + retired t = used t" and "released t = 0" and "used t \<le> length es"
  using assms by (simp_all add: table_rep_def entries_ok_def)

lemma free_chain_cong:
  assumes "free_chain es h fl" and "\<And>i. i \<in> set fl \<Longrightarrow> next_free (es' ! i) = next_free (es ! i)"
    and "length es \<le> length es'"
  shows "free_chain es' h fl"
  using assms by (induction fl arbitrary: h) auto

lemma free_head_iff:
  assumes "free_chain es h fl" and "entries_ok es u fl" and "u \<le> MAX_HANDLES"
  shows "h = NO_ENTRY \<longleftrightarrow> fl = []"
  using assms by (cases fl) (auto simp: entries_ok_def MAX_HANDLES_def CHUNK_def MAX_CHUNKS_def NO_ENTRY_def)

lemma finite_live [simp]: "finite (live_set es u)"
  by (simp add: live_set_def)

lemma table_new_rep:
  assumes "table_new lim = Inr t"
  shows "table_rep t [] []"
  using assms by (auto simp: table_new_def table_rep_def dir_rep_def entries_ok_def live_set_def split: if_splits)

section \<open>Insert\<close>

text \<open>The entry at \<open>i\<close> becomes live.\<close>

lemma entries_okI:
  assumes "u \<le> length es" and "distinct fl"
    and "\<And>i. i \<in> set fl \<Longrightarrow> i < u \<and> object (es ! i) = None"
    and "\<And>i. i < u \<Longrightarrow> object (es ! i) = None \<Longrightarrow> i \<in> set fl \<or> generation (es ! i) = handle_MAX_GENERATION"
    and "\<And>i. i < u \<Longrightarrow> 1 \<le> generation (es ! i) \<and> generation (es ! i) \<le> handle_MAX_GENERATION"
    and "\<And>i. u \<le> i \<Longrightarrow> i < length es \<Longrightarrow> es ! i = fresh_entry"
  shows "entries_ok es u fl"
  using assms by (simp add: entries_ok_def)

lemma entries_okD:
  assumes "entries_ok es u fl"
  shows "u \<le> length es" and "distinct fl" and "i \<in> set fl \<Longrightarrow> i < u" and "i \<in> set fl \<Longrightarrow> object (es ! i) = None"
    and "i < u \<Longrightarrow> object (es ! i) = None \<Longrightarrow> i \<in> set fl \<or> generation (es ! i) = handle_MAX_GENERATION"
    and "i < u \<Longrightarrow> 1 \<le> generation (es ! i)" and "i < u \<Longrightarrow> generation (es ! i) \<le> handle_MAX_GENERATION"
    and "u \<le> i \<Longrightarrow> i < length es \<Longrightarrow> es ! i = fresh_entry"
  using assms by (simp_all add: entries_ok_def)

lemma entries_ok_insert:
  assumes ok: "entries_ok es u fl" and i: "i < length es"
    and choice: "fl = i # fl' \<and> u' = u \<or> fl = [] \<and> fl' = [] \<and> i = u \<and> u' = Suc u"
    and e: "generation e = generation (es ! i)" "object e = Some x"
  shows "entries_ok (es[i := e]) u' fl'" and "live_set (es[i := e]) u' = insert i (live_set es u)"
    and "i \<notin> live_set es u"
proof -
  have u: "u' \<le> length es" "i < u'" "\<And>j. j < u' \<Longrightarrow> j \<noteq> i \<Longrightarrow> j < u" "u \<le> u'"
    using choice entries_okD(1) [OF ok] entries_okD(3) [OF ok, of i] i by auto
  have gen: "1 \<le> generation (es ! i)" "generation (es ! i) \<le> handle_MAX_GENERATION"
    using choice entries_okD(3,6,7) [OF ok, of i] entries_okD(8) [OF ok, of i] i
    by (auto simp: fresh_entry_def handle_MAX_GENERATION_def)
  have fl: "set fl' \<subseteq> set fl" "i \<notin> set fl'" "distinct fl'" "\<And>j. j \<in> set fl \<Longrightarrow> j \<noteq> i \<Longrightarrow> j \<in> set fl'"
    using choice entries_okD(2) [OF ok] by auto
  show "entries_ok (es[i := e]) u' fl'"
  proof (rule entries_okI)
    show "j < u' \<and> object (es[i := e] ! j) = None" if "j \<in> set fl'" for j
      using that fl entries_okD(3,4) [OF ok, of j] u(4) by (cases "j = i") auto
    show "j \<in> set fl' \<or> generation (es[i := e] ! j) = handle_MAX_GENERATION"
      if "j < u'" "object (es[i := e] ! j) = None" for j
      using that fl(4) [of j] e i u(3) [of j] entries_okD(5) [OF ok, of j] by (cases "j = i") auto
    show "1 \<le> generation (es[i := e] ! j) \<and> generation (es[i := e] ! j) \<le> handle_MAX_GENERATION"
      if "j < u'" for j
      using that e gen i u(3) [of j] entries_okD(6,7) [OF ok, of j] by (cases "j = i") auto
    show "es[i := e] ! j = fresh_entry" if "u' \<le> j" "j < length (es[i := e])" for j
      using that u entries_okD(8) [OF ok, of j] by (cases "j = i") auto
  qed (use u fl in auto)
  show "live_set (es[i := e]) u' = insert i (live_set es u)"
    using e i u choice by (auto simp: live_set_def nth_list_update)
  show "i \<notin> live_set es u"
    using choice entries_okD(4) [OF ok, of i] by (auto simp: live_set_def)
qed

lemma entries_ok_append:
  assumes "entries_ok es u fl"
  shows "entries_ok (es @ replicate n fresh_entry) u fl"
  using assms unfolding entries_ok_def by (auto simp: nth_append)

lemma live_append:
  assumes "u \<le> length es"
  shows "live_set (es @ xs) u = live_set es u"
  using assms by (auto simp: live_set_def nth_append)

lemma table_rep_append:
  assumes "table_rep t es fl" and "dir_rep t' (es @ replicate CHUNK fresh_entry)"
    and "t' = t\<lparr>directory := dir, chunk_count := c\<rparr>"
  shows "table_rep t' (es @ replicate CHUNK fresh_entry) fl"
proof -
  have "free_chain (es @ replicate CHUNK fresh_entry) (free_head t) fl"
  proof (rule free_chain_cong [OF table_repD(3) [OF assms(1)]])
    fix i
    assume "i \<in> set fl"
    then have "i < length es"
      using entries_okD(1,3) [OF table_repD(2) [OF assms(1)]] by (meson less_le_trans)
    then show "next_free ((es @ replicate CHUNK fresh_entry) ! i) = next_free (es ! i)"
      by (simp add: nth_append)
  qed simp
  moreover have "card (live_set (es @ replicate CHUNK fresh_entry) (used t)) = live t"
    using live_append [OF table_repD(11) [OF assms(1)]] table_repD(8) [OF assms(1)] by simp
  ultimately show ?thesis
    using assms(2) entries_ok_append [OF table_repD(2) [OF assms(1)]] table_repD(4-7,9,10) [OF assms(1)]
    unfolding table_rep_def assms(3) by simp
qed

text \<open>
  The choice of the index: an error that leaves every entry as it was, or the entry to fill.
\<close>

lemma insert_index_rep:
  assumes rep: "table_rep t es fl"
  obtains (failed) e t' s' where "insert_index src t s = Some (Inl e, t', s')" and "table_rep t' es fl"
      and "e = LimitReached \<and> room t = 0 \<or> e = NoMemory \<and> chunk_count t * CHUNK = used t \<and> fl = []"
      and "limit t' = limit t" and "used t' = used t"
  | (chosen) i t' s' es1 fl' where "insert_index src t s = Some (Inr i, t', s')"
      and "(fl = i # fl' \<and> used t' = used t \<and> es1 = es) \<or> (fl = [] \<and> fl' = [] \<and> i = used t \<and> used t' = Suc i)"
      and "es1 = es \<or> es1 = es @ replicate CHUNK fresh_entry"
      and "dir_rep t' es1" and "entries_ok es1 (used t) fl" and "i < length es1"
      and "free_chain es1 (free_head t') fl'" and "free_count t' = length fl'"
      and "\<not> closing t'" and "released t' = 0" and "used t' \<le> limit t'" and "limit t' = limit t"
      and "live t' = live t" and "retired t' = retired t"
proof (cases fl)
  case (Cons i fl')
  then have i: "free_head t = i" "i < length es" "free_head t \<noteq> NO_ENTRY"
    using table_repD(3,5,6) [OF rep] free_head_iff [OF table_repD(3,2) [OF rep]] by auto
  let ?t = "t\<lparr>free_head := next_free (es ! i), free_count := free_count t - 1\<rparr>"
  have "insert_index src t s = Some (Inr i, ?t, s)"
    using i entry_rep [OF table_repD(1) [OF rep]] by (simp add: insert_index_def)
  moreover have "dir_rep ?t es"
    using table_repD(1) [OF rep] dir_rep_cong [of ?t t es] by simp
  ultimately show ?thesis
    using chosen [of i ?t s fl' es] table_repD [OF rep] Cons i by simp
next
  case Nil
  then have head: "free_head t = NO_ENTRY"
    using table_repD(3) [OF rep] by simp
  show ?thesis
  proof (cases "used t \<ge> limit t")
    case True
    then show ?thesis
      using failed [of LimitReached t s] head rep Nil table_repD(7) [OF rep]
      by (simp add: insert_index_def room_def)
  next
    case False
    have grow': thesis if t1: "table_rep t1 es1 fl" "used t < length es1"
        "es1 = es \<or> es1 = es @ replicate CHUNK fresh_entry"
        "used t1 = used t" "limit t1 = limit t" "live t1 = live t" "retired t1 = retired t"
        "insert_index src t s = Some (Inr (used t1), t1\<lparr>used := used t1 + 1\<rparr>, s1)" for t1 s1 es1
    proof -
      have "dir_rep (t1\<lparr>used := used t1 + 1\<rparr>) es1"
        using table_repD(1) [OF t1(1)] dir_rep_cong [of "t1\<lparr>used := used t1 + 1\<rparr>" t1 es1] by simp
      then show ?thesis
        using chosen [of "used t" "t1\<lparr>used := used t1 + 1\<rparr>" s1 "[]" es1] Nil t1 table_repD [OF t1(1)] False
        by simp
    qed
    show ?thesis
    proof (cases "used t = chunk_count t * CHUNK")
      case True
      have len: "length es = used t" "chunk_count t < MAX_CHUNKS"
        using table_repD(1,6) [OF rep] True False
        by (auto simp: dir_rep_def MAX_HANDLES_def CHUNK_def mult.commute)
      show ?thesis
      proof (rule grow_rep [OF table_repD(1) [OF rep] len(2), of src s])
        fix t' s' dir
        assume "grow src t s = Some (Inl NoMemory, t', s')" "t' = t\<lparr>directory := dir\<rparr>" "dir_rep t' es"
        then show ?thesis
          using failed [of NoMemory t' s'] True False head Nil rep
          by (simp add: insert_index_def table_rep_def)
      next
        fix t' s' dir
        assume grown: "grow src t s = Some (Inr (), t', s')"
          "t' = t\<lparr>directory := dir, chunk_count := chunk_count t + 1\<rparr>"
          "dir_rep t' (es @ replicate CHUNK fresh_entry)"
        then show ?thesis
          using table_rep_append [OF rep grown(3,2)] True False head len
          by (intro grow' [of t' "es @ replicate CHUNK fresh_entry" s']) (simp_all add: insert_index_def CHUNK_def)
      qed
    next
      case more: False
      have "used t < length es"
        using table_repD(1,11) [OF rep] more by (simp add: dir_rep_def mult.commute)
      then show ?thesis
        using more False head rep by (intro grow' [of t es s]) (simp_all add: insert_index_def)
    qed
  qed
qed

lemma unat_index:
  assumes "i < MAX_HANDLES"
  shows "unat (of_nat i :: u32) = i" and "unat (of_nat i :: u32) < 65536"
proof -
  have "i < 2 ^ 32"
    using assms by (simp add: MAX_HANDLES_def CHUNK_def MAX_CHUNKS_def)
  then show "unat (of_nat i :: u32) = i"
    by (simp add: unsigned_of_nat take_bit_nat_eq_self)
  then show "unat (of_nat i :: u32) < 65536"
    using assms by (simp add: MAX_HANDLES_def CHUNK_def MAX_CHUNKS_def)
qed

text \<open>The handle of an entry, and whether a handle is live.\<close>

abbreviation handle_of :: "'a entry list \<Rightarrow> nat \<Rightarrow> handle" where
  "handle_of es i \<equiv> handle_new (of_nat i) (generation (es ! i))"

definition live_handle :: "'a entry list \<Rightarrow> nat \<Rightarrow> handle \<Rightarrow> bool" where
  "live_handle es u h \<longleftrightarrow>
     (let i = unat (handle_index h) in
      i < u \<and> object (es ! i) \<noteq> None \<and> generation (es ! i) = handle_generation h)"

lemma table_get_rep:
  assumes rep: "table_rep t es fl"
  shows "table_get t h = Some
    (if live_handle es (used t) h
     then Inr (the (object (es ! unat (handle_index h))), rights (es ! unat (handle_index h)))
     else Inl BadHandle)"
proof (cases "unat (handle_index h) < used t")
  case True
  then have "entry_at t (unat (handle_index h)) = Some (es ! unat (handle_index h))"
    using table_repD(1,11) [OF rep] by (intro entry_rep) auto
  then show ?thesis
    using True by (auto simp: table_get_def live_handle_def Let_def split: option.split)
qed (simp add: table_get_def live_handle_def)

lemma table_insert_rep:
  assumes rep: "table_rep t es fl"
  obtains (failed) e t' s' where "table_insert src t s x r = Some (Inl e, t', s')" and "table_rep t' es fl"
      and "e = LimitReached \<and> room t = 0 \<or> e = NoMemory \<and> chunk_count t * CHUNK = used t \<and> fl = []"
      and "limit t' = limit t" and "used t' = used t"
  | (ok) i t' s' es1 fl' where "table_insert src t s x r = Some (Inr (handle_of es1 i), t', s')"
      and "(fl = i # fl' \<and> used t' = used t \<and> es1 = es) \<or> (fl = [] \<and> fl' = [] \<and> i = used t \<and> used t' = Suc i)"
      and "es1 = es \<or> es1 = es @ replicate CHUNK fresh_entry"
      and "table_rep t' (es1[i := (es1 ! i)\<lparr>object := Some x, rights := r\<rparr>]) fl'"
      and "i < length es1" and "i < MAX_HANDLES" and "object (es1 ! i) = None"
      and "generation (es1 ! i) \<le> handle_MAX_GENERATION" and "limit t' = limit t"
proof (rule insert_index_rep [OF rep, of src s])
  fix e t' s'
  assume "insert_index src t s = Some (Inl e, t', s')" "table_rep t' es fl"
    "e = LimitReached \<and> room t = 0 \<or> e = NoMemory \<and> chunk_count t * CHUNK = used t \<and> fl = []"
    "limit t' = limit t" "used t' = used t"
  then show thesis
    using failed [of e t' s'] table_repD(4) [OF rep] by (simp add: table_insert_def)
next
  fix i t' s' es1 fl'
  assume call: "insert_index src t s = Some (Inr i, t', s')"
    and choice: "(fl = i # fl' \<and> used t' = used t \<and> es1 = es) \<or> (fl = [] \<and> fl' = [] \<and> i = used t \<and> used t' = Suc i)"
    and es1: "es1 = es \<or> es1 = es @ replicate CHUNK fresh_entry"
    and dir: "dir_rep t' es1" and ok1: "entries_ok es1 (used t) fl" and i: "i < length es1"
    and fl': "free_chain es1 (free_head t') fl'" "free_count t' = length fl'"
    and t': "\<not> closing t'" "released t' = 0" "used t' \<le> limit t'" "limit t' = limit t"
      "live t' = live t" "retired t' = retired t"
  let ?e = "(es1 ! i)\<lparr>object := Some x, rights := r\<rparr>"
  let ?es = "es1[i := ?e]"
  obtain dir where set: "set_entry t' i ?e = Some (t'\<lparr>directory := Some dir\<rparr>)"
    "dir_rep (t'\<lparr>directory := Some dir\<rparr>) ?es"
    using set_entry_rep [OF dir i] by blast
  have choice': "fl = i # fl' \<and> used t' = used t \<or> fl = [] \<and> fl' = [] \<and> i = used t \<and> used t' = Suc (used t)"
    using choice by auto
  have new: "entries_ok ?es (used t') fl'" "live_set ?es (used t') = insert i (live_set es1 (used t))"
      "i \<notin> live_set es1 (used t)"
    using entries_ok_insert [OF ok1 i choice', of ?e x] by simp_all
  let ?t = "t'\<lparr>directory := Some dir, live := live t' + 1\<rparr>"
  have "table_insert src t s x r = Some (Inr (handle_of es1 i), ?t, s')"
    using call entry_rep [OF dir i] set(1) table_repD(4) [OF rep] by (simp add: table_insert_def)
  moreover have "live_set es1 (used t) = live_set es (used t)"
    using es1 live_append [OF table_repD(11) [OF rep]] by auto
  then have "card (live_set ?es (used t')) = live t + 1"
    using new(2,3) table_repD(8) [OF rep] by simp
  moreover have "free_chain ?es (free_head t') fl'"
    using choice entries_okD(2) [OF ok1] i by (intro free_chain_cong [OF fl'(1)]) (auto simp: nth_list_update)
  moreover have "live t + 1 + length fl' + retired t = used t'"
    using table_repD(7,9) [OF rep] choice by auto
  ultimately have "table_rep ?t ?es fl'"
    using set(2) dir_rep_cong [of ?t "t'\<lparr>directory := Some dir\<rparr>" ?es] new(1) t' fl'(2) table_repD(6) [OF rep]
    by (simp add: table_rep_def)
  moreover have "i < used t'"
    using choice entries_okD(3) [OF ok1, of i] by auto
  then have "i < MAX_HANDLES" "generation (es1 ! i) \<le> handle_MAX_GENERATION"
    using t'(3,4) table_repD(6) [OF rep] entries_okD(7) [OF new(1), of i] i by auto
  moreover have "object (es1 ! i) = None"
    using choice entries_okD(4) [OF ok1, of i] entries_okD(8) [OF ok1, of i] i by (auto simp: fresh_entry_def)
  ultimately show thesis
    using ok [of i es1 ?t s' fl'] \<open>table_insert src t s x r = _\<close> choice es1 i t'(4) by simp
qed

section \<open>Remove\<close>

lemma entries_ok_remove:
  assumes ok: "entries_ok es u fl" and i: "i < u" and live: "object (es ! i) \<noteq> None"
    and e: "object e = None"
    and choice: "generation (es ! i) = handle_MAX_GENERATION \<and> fl' = fl \<and> generation e = generation (es ! i)
      \<or> generation (es ! i) \<noteq> handle_MAX_GENERATION \<and> fl' = i # fl \<and> generation e = generation (es ! i) + 1"
  shows "entries_ok (es[i := e]) u fl'" and "live_set (es[i := e]) u = live_set es u - {i}"
    and "i \<notin> set fl"
proof -
  show out: "i \<notin> set fl"
    using entries_okD(4) [OF ok, of i] live by auto
  have len: "i < length es"
    using entries_okD(1) [OF ok] i by simp
  have "1 \<le> generation e \<and> generation e \<le> handle_MAX_GENERATION"
  proof (cases "generation (es ! i) = handle_MAX_GENERATION")
    case True
    then show ?thesis
      using choice by (auto simp: handle_MAX_GENERATION_def)
  next
    case False
    then have "unat (generation (es ! i)) < unat handle_MAX_GENERATION"
      using entries_okD(7) [OF ok i] by (simp add: word_le_nat_alt word_unat_eq_iff)
    moreover from this have "unat (generation (es ! i) + 1) = unat (generation (es ! i)) + 1"
      using unat_add_no_wrap [of "generation (es ! i)" 1] by (simp add: handle_MAX_GENERATION_def)
    ultimately have "1 \<le> generation (es ! i) + 1 \<and> generation (es ! i) + 1 \<le> handle_MAX_GENERATION"
      by (simp add: word_le_nat_alt)
    then show ?thesis
      using False choice entries_okD(6) [OF ok i] by auto
  qed
  note gen = this
  have fl': "set fl' \<subseteq> insert i (set fl)" "set fl \<subseteq> set fl'" "distinct fl'"
      "i \<in> set fl' \<or> generation e = handle_MAX_GENERATION"
    using choice out entries_okD(2) [OF ok] by auto
  show "entries_ok (es[i := e]) u fl'"
  proof (rule entries_okI)
    show "j < u \<and> object (es[i := e] ! j) = None" if "j \<in> set fl'" for j
      using that fl'(1) i e len entries_okD(3,4) [OF ok, of j] by (cases "j = i") auto
    show "j \<in> set fl' \<or> generation (es[i := e] ! j) = handle_MAX_GENERATION"
      if "j < u" "object (es[i := e] ! j) = None" for j
      using that fl'(2,4) len entries_okD(5) [OF ok, of j] by (cases "j = i") auto
    show "1 \<le> generation (es[i := e] ! j) \<and> generation (es[i := e] ! j) \<le> handle_MAX_GENERATION"
      if "j < u" for j
      using that gen len entries_okD(6,7) [OF ok, of j] by (cases "j = i") auto
    show "es[i := e] ! j = fresh_entry" if "u \<le> j" "j < length (es[i := e])" for j
      using that i entries_okD(8) [OF ok, of j] by (cases "j = i") auto
  qed (use fl'(3) entries_okD(1) [OF ok] in auto)
  show "live_set (es[i := e]) u = live_set es u - {i}"
    using len e by (auto simp: live_set_def nth_list_update)
qed

lemma live_handle_in:
  assumes "table_rep t es fl" and "live_handle es (used t) h"
  shows "unat (handle_index h) < used t" and "unat (handle_index h) < length es"
    and "object (es ! unat (handle_index h)) \<noteq> None"
    and "generation (es ! unat (handle_index h)) = handle_generation h"
  using assms table_repD(11) [OF assms(1)] by (auto simp: live_handle_def Let_def)

lemma free_chain_update:
  assumes "free_chain es h fl" and "i \<notin> set fl"
  shows "free_chain (es[i := e]) h fl"
proof (rule free_chain_cong [OF assms(1)])
  show "next_free (es[i := e] ! j) = next_free (es ! j)" if "j \<in> set fl" for j
    using that assms(2) by (cases "i = j") auto
qed simp

lemma table_remove_bad:
  assumes rep: "table_rep t es fl" and "\<not> live_handle es (used t) h"
  shows "table_remove t h = Some (Inl BadHandle, t)"
proof (cases "unat (handle_index h) < used t")
  case True
  then have "entry_at t (unat (handle_index h)) = Some (es ! unat (handle_index h))"
    using table_repD(1,11) [OF rep] by (intro entry_rep) auto
  then show ?thesis
    using True assms(2) by (auto simp: table_remove_def live_handle_def Let_def split: option.split)
qed (simp add: table_remove_def)

lemma table_remove_rep:
  assumes rep: "table_rep t es fl" and live: "live_handle es (used t) h"
  obtains t' e fl' where
    "table_remove t h = Some
       (Inr (the (object (es ! unat (handle_index h))), rights (es ! unat (handle_index h))), t')"
    and "table_rep t' (es[unat (handle_index h) := e]) fl'" and "object e = None"
    and "generation (es ! unat (handle_index h)) = handle_MAX_GENERATION \<and> fl' = fl
           \<and> generation e = generation (es ! unat (handle_index h))
         \<or> generation (es ! unat (handle_index h)) \<noteq> handle_MAX_GENERATION \<and> fl' = unat (handle_index h) # fl
           \<and> generation e = generation (es ! unat (handle_index h)) + 1"
    and "used t' = used t" and "limit t' = limit t"
proof -
  define i where "i = unat (handle_index h)"
  have i: "i < used t" "i < length es" "object (es ! i) \<noteq> None" "generation (es ! i) = handle_generation h"
    using live_handle_in [OF rep live] by (simp_all add: i_def)
  define retire where "retire = (generation (es ! i) = handle_MAX_GENERATION)"
  define e where "e = (if retire then (es ! i)\<lparr>object := None\<rparr>
    else (es ! i)\<lparr>object := None, generation := generation (es ! i) + 1, next_free := free_head t\<rparr>)"
  define fl' where "fl' = (if retire then fl else i # fl)"
  have ent: "entry_at t i = Some (es ! i)"
    using entry_rep [OF table_repD(1) [OF rep] i(2)] .
  obtain dir where set: "set_entry t i e = Some (t\<lparr>directory := Some dir\<rparr>)"
      "dir_rep (t\<lparr>directory := Some dir\<rparr>) (es[i := e])"
    using set_entry_rep [OF table_repD(1) [OF rep] i(2)] by blast
  have choice: "generation (es ! i) = handle_MAX_GENERATION \<and> fl' = fl \<and> generation e = generation (es ! i)
      \<or> generation (es ! i) \<noteq> handle_MAX_GENERATION \<and> fl' = i # fl \<and> generation e = generation (es ! i) + 1"
    and e: "object e = None"
    by (auto simp: fl'_def e_def retire_def)
  note ok = entries_ok_remove [OF table_repD(2) [OF rep] i(1,3) e choice]
  define t' where "t' = (let u = t\<lparr>directory := Some dir, live := live t - 1\<rparr> in
    if retire then u\<lparr>retired := retired t + 1\<rparr> else u\<lparr>free_head := i, free_count := free_count t + 1\<rparr>)"
  have call: "table_remove t h = Some (Inr (the (object (es ! i)), rights (es ! i)), t')"
    using i ent set(1)
    by (auto simp: table_remove_def Let_def i_def [symmetric] e_def retire_def t'_def)
  have "i \<in> live_set es (used t)"
    using i by (simp add: live_set_def)
  then have card: "card (live_set (es[i := e]) (used t)) = live t - 1" "live t > 0"
    using ok(2) table_repD(8) [OF rep] card_gt_0_iff [of "live_set es (used t)"] by (auto simp: card_Diff_singleton)
  have chain: "free_chain (es[i := e]) (free_head t') fl'"
    using free_chain_update [OF table_repD(3) [OF rep] ok(3), of e] i(2)
    by (cases retire) (simp_all add: t'_def fl'_def e_def Let_def)
  have t': "used t' = used t" "limit t' = limit t" "\<not> closing t'" "released t' = 0" "live t' = live t - 1"
      "free_count t' = length fl'" "live t' + free_count t' + retired t' = used t'"
    using table_repD(4,5,6,7,9,10) [OF rep] card(2) by (auto simp: t'_def fl'_def Let_def)
  have "dir_rep t' (es[i := e])"
    using set(2) dir_rep_cong [of t' "t\<lparr>directory := Some dir\<rparr>" "es[i := e]"] by (simp add: t'_def Let_def)
  then have "table_rep t' (es[i := e]) fl'"
    using ok(1) chain t' card(1) table_repD(5,6) [OF rep] by (simp add: table_rep_def)
  then show ?thesis
    using that [of t' e fl'] call e choice t'(1,2) by (simp add: i_def)
qed

lemma reserve_rep:
  assumes rep: "table_rep t es fl" and n: "n \<le> CHUNK"
  obtains (failed) e t' s' where "reserve src t s n = Some (Inl e, t', s')" and "table_rep t' es fl"
      and "e = LimitReached \<and> room t < n \<or> e = NoMemory" and "limit t' = limit t" and "used t' = used t"
  | (ok) t' s' es1 where "reserve src t s n = Some (Inr (), t', s')"
      and "es1 = es \<or> es1 = es @ replicate CHUNK fresh_entry"
      and "table_rep t' es1 fl" and "n \<le> room t'" and "n - length fl \<le> length es1 - used t'"
      and "limit t' = limit t" and "used t' = used t"
proof (cases "room t < n")
  case True
  then show ?thesis
    using failed [of LimitReached t s] n rep by (simp add: reserve_def)
next
  case False
  have len: "length es = chunk_count t * CHUNK"
    using table_repD(1) [OF rep] by (simp add: dir_rep_def mult.commute)
  show ?thesis
  proof (cases "used t + (n - free_count t) > chunk_count t * CHUNK")
    case True
    have "used t + (n - free_count t) \<le> MAX_HANDLES"
      using False table_repD(4,5,6) [OF rep] by (auto simp: room_def)
    then have "chunk_count t < MAX_CHUNKS"
      using True by (auto simp: MAX_HANDLES_def CHUNK_def)
    then show ?thesis
    proof (rule grow_rep [OF table_repD(1) [OF rep], of src s])
      fix t' s' dir
      assume "grow src t s = Some (Inl NoMemory, t', s')" "t' = t\<lparr>directory := dir\<rparr>" "dir_rep t' es"
      then show ?thesis
        using failed [of NoMemory t' s'] True False n rep by (simp add: reserve_def table_rep_def)
    next
      fix t' s' dir
      assume grown: "grow src t s = Some (Inr (), t', s')"
        "t' = t\<lparr>directory := dir, chunk_count := chunk_count t + 1\<rparr>"
        "dir_rep t' (es @ replicate CHUNK fresh_entry)"
      have "reserve src t s n = Some (Inr (), t', s')"
        using True False n grown(1) by (simp add: reserve_def)
      moreover have "n \<le> room t'" "used t' = used t" "limit t' = limit t"
        using grown(2) False by (auto simp: room_def split: if_splits)
      moreover have "n - length fl \<le> length (es @ replicate CHUNK fresh_entry) - used t"
        using n len table_repD(11) [OF rep] by simp
      ultimately show ?thesis
        using ok [of t' s' "es @ replicate CHUNK fresh_entry"] table_rep_append [OF rep grown(3,2)] by simp
    qed
  next
    case no: False
    then show ?thesis
      using ok [of t s es] False n rep len table_repD(7) [OF rep] by (simp add: reserve_def)
  qed
qed

end
