(* ===== verification/Handle_Map.thy ===== *)
theory Handle_Map
  imports Handle_Invariant
begin

text \<open>
  What a handle table promises: it is a map from handles to objects with rights, and no handle
  is ever given out twice. The calls of the table simulate that contract step by step.
\<close>

section \<open>The contract of a handle table\<close>

text \<open>
  A table of names: \<open>names\<close> maps every live handle to its object and rights, and
  \<open>issued\<close> lists every handle given out so far. A call is answered, and \<open>map_step\<close>
  says which answers the contract allows and what they do: a new handle is one that was never
  given out before.
\<close>

datatype 'a table_call = Insert 'a rights | Remove handle | Reserve nat

datatype 'a table_answer = Got handle | Taken 'a rights | Reserved | Refused error

record 'a name_map =
  names :: "handle \<rightharpoonup> 'a \<times> rights"
  issued :: "handle list"

definition no_names :: "'a name_map" where
  "no_names = \<lparr>names = Map.empty, issued = []\<rparr>"

fun map_step :: "'a table_call \<Rightarrow> 'a table_answer \<Rightarrow> 'a name_map \<Rightarrow> 'a name_map option" where
  "map_step (Insert x r) (Got h) m =
     (if h \<in> set (issued m) then None
      else Some \<lparr>names = (names m)(h \<mapsto> (x, r)), issued = h # issued m\<rparr>)"
| "map_step (Insert x r) (Refused e) m = (if e \<in> {LimitReached, NoMemory} then Some m else None)"
| "map_step (Remove h) (Taken x r) m =
     (if names m h = Some (x, r) then Some (m\<lparr>names := (names m)(h := None)\<rparr>) else None)"
| "map_step (Remove h) (Refused e) m = (if names m h = None \<and> e = BadHandle then Some m else None)"
| "map_step (Reserve n) Reserved m = Some m"
| "map_step (Reserve n) (Refused e) m = (if e \<in> {LimitReached, NoMemory} then Some m else None)"
| "map_step _ _ m = None"

fun map_run :: "'a table_call list \<Rightarrow> 'a table_answer list \<Rightarrow> 'a name_map \<Rightarrow> 'a name_map option" where
  "map_run [] [] m = Some m"
| "map_run (c # cs) (a # as) m = Option.bind (map_step c a m) (map_run cs as)"
| "map_run _ _ m = None"

text \<open>The calls on the table itself.\<close>

fun table_do ::
  "('s, 'cp, 'dp) chunk_source \<Rightarrow> 'a table_call \<Rightarrow> ('a, 'cp, 'dp) handle_table \<Rightarrow> 's \<Rightarrow>
   ('a table_answer \<times> ('a, 'cp, 'dp) handle_table \<times> 's) option" where
  "table_do src (Insert x r) t s = do {
     (res, t, s) \<leftarrow> table_insert src t s x r;
     Some (case res of Inl e \<Rightarrow> Refused e | Inr h \<Rightarrow> Got h, t, s) }"
| "table_do src (Remove h) t s = do {
     (res, t) \<leftarrow> table_remove t h;
     Some (case res of Inl e \<Rightarrow> Refused e | Inr (x, r) \<Rightarrow> Taken x r, t, s) }"
| "table_do src (Reserve n) t s = do {
     (res, t, s) \<leftarrow> reserve src t s n;
     Some (case res of Inl e \<Rightarrow> Refused e | Inr _ \<Rightarrow> Reserved, t, s) }"

fun table_run ::
  "('s, 'cp, 'dp) chunk_source \<Rightarrow> 'a table_call list \<Rightarrow> ('a, 'cp, 'dp) handle_table \<Rightarrow> 's \<Rightarrow>
   ('a table_answer list \<times> ('a, 'cp, 'dp) handle_table \<times> 's) option" where
  "table_run src [] t s = Some ([], t, s)"
| "table_run src (c # cs) t s = do {
     (a, t, s) \<leftarrow> table_do src c t s;
     (as, t, s) \<leftarrow> table_run src cs t s;
     Some (a # as, t, s) }"

text \<open>A transfer reserves at most a chunk of handles.\<close>

fun call_allowed :: "'a table_call \<Rightarrow> bool" where
  "call_allowed (Reserve n) \<longleftrightarrow> n \<le> CHUNK"
| "call_allowed _ \<longleftrightarrow> True"

section \<open>Simulation\<close>

lemma handle_new_of: "handle_new (handle_index h) (handle_generation h) = h"
proof -
  have "handle_raw (handle_new (handle_index h) (handle_generation h)) = handle_raw h"
    by (rule bit_eqI)
      (auto simp: handle_bits handle_index_def handle_generation_def handle_INDEX_BITS_def bit_ucast_iff
        bit_and_iff handle_MAX_INDEX_bit bit_drop_bit_eq)
  then show ?thesis
    by (simp add: handle.expand)
qed

lemma next_generation:
  assumes "g \<noteq> handle_MAX_GENERATION" and "g \<le> handle_MAX_GENERATION"
  shows "g < g + 1"
proof -
  have "unat g < unat handle_MAX_GENERATION"
    using assms by (simp add: word_le_nat_alt word_unat_eq_iff)
  then have "unat (g + 1) = unat g + 1"
    using unat_add_no_wrap [of g 1] by (simp add: handle_MAX_GENERATION_def)
  then show ?thesis
    by (simp add: word_less_nat_alt)
qed

text \<open>A handle that was given out: its entry is live with its generation, or is past it.\<close>

definition spent :: "'a entry list \<Rightarrow> nat \<Rightarrow> nat list \<Rightarrow> handle \<Rightarrow> bool" where
  "spent es u fl h \<longleftrightarrow>
     (let i = unat (handle_index h) in
      i < u \<and> handle_generation h \<le> generation (es ! i)
      \<and> (handle_generation h = generation (es ! i) \<longrightarrow> object (es ! i) \<noteq> None \<or> i \<notin> set fl))"

definition entry_names :: "'a entry list \<Rightarrow> nat \<Rightarrow> handle \<rightharpoonup> 'a \<times> rights" where
  "entry_names es u h =
     (if live_handle es u h
      then Some (the (object (es ! unat (handle_index h))), rights (es ! unat (handle_index h)))
      else None)"

definition sim :: "('a, 'cp, 'dp) handle_table \<Rightarrow> 'a entry list \<Rightarrow> nat list \<Rightarrow> 'a name_map \<Rightarrow> bool" where
  "sim t es fl m \<longleftrightarrow>
     table_rep t es fl \<and> names m = entry_names es (used t)
     \<and> distinct (issued m) \<and> (\<forall>h\<in>set (issued m). spent es (used t) fl h)
     \<and> dom (names m) \<subseteq> set (issued m)"

lemma simD:
  assumes "sim t es fl m"
  shows "table_rep t es fl" and "names m = entry_names es (used t)" and "distinct (issued m)"
    and "h \<in> set (issued m) \<Longrightarrow> spent es (used t) fl h" and "dom (names m) \<subseteq> set (issued m)"
  using assms by (auto simp: sim_def)

lemma sim_new: "table_new lim = Inr t \<Longrightarrow> sim t [] [] no_names"
  using table_new_rep [of lim t]
  by (auto simp: sim_def no_names_def entry_names_def live_handle_def fun_eq_iff table_new_def split: if_splits)

lemma handle_of_entry:
  assumes "i < MAX_HANDLES" and "generation (es ! i) \<le> handle_MAX_GENERATION"
  shows "unat (handle_index (handle_of es i)) = i" and "handle_generation (handle_of es i) = generation (es ! i)"
  using unat_index [OF assms(1)] handle_index_new [of "of_nat i" "generation (es ! i)"]
    handle_generation_new [OF assms(2)] by simp_all

text \<open>Lists of entries that agree below a bound name the same handles.\<close>

lemma entry_names_append:
  assumes "u \<le> length es"
  shows "entry_names (es @ xs) u = entry_names es u" and "spent (es @ xs) u fl h = spent es u fl h"
  using assms
  by (auto simp: entry_names_def live_handle_def spent_def fun_eq_iff Let_def nth_append)

lemma entry_names_insert:
  assumes i: "i < length es" "i < u'" and u: "\<And>j. j < u' \<longleftrightarrow> j < u \<or> j = i"
    and free: "object (es ! i) = None" and gen: "generation (es ! i) \<le> handle_MAX_GENERATION" "i < MAX_HANDLES"
  shows "entry_names (es[i := (es ! i)\<lparr>object := Some x, rights := r\<rparr>]) u' =
    (entry_names es u)(handle_of es i \<mapsto> (x, r))"
proof
  fix h
  show "entry_names (es[i := (es ! i)\<lparr>object := Some x, rights := r\<rparr>]) u' h =
    ((entry_names es u)(handle_of es i \<mapsto> (x, r))) h"
  proof (cases "unat (handle_index h) = i")
    case True
    then have "of_nat i = handle_index h"
      by auto
    then have "h = handle_of es i \<longleftrightarrow> handle_generation h = generation (es ! i)"
      using handle_new_of [of h] handle_of_entry [OF gen(2,1)] by metis
    then show ?thesis
      using True i u free by (auto simp: entry_names_def live_handle_def Let_def)
  next
    case False
    then have "h \<noteq> handle_of es i"
      using handle_of_entry(1) [OF gen(2,1)] by auto
    then show ?thesis
      using False u by (auto simp: entry_names_def live_handle_def Let_def)
  qed
qed

lemma entry_names_remove:
  assumes "live_handle es u h" and "unat (handle_index h) < length es" and "object e = None"
  shows "entry_names (es[unat (handle_index h) := e]) u = (entry_names es u)(h := None)"
proof
  fix h'
  show "entry_names (es[unat (handle_index h) := e]) u h' = ((entry_names es u)(h := None)) h'"
  proof (cases "handle_index h' = handle_index h")
    case True
    have "h' = h \<or> handle_generation h' \<noteq> handle_generation h"
      using True handle_new_of [of h] handle_new_of [of h'] by metis
    then show ?thesis
      using True assms by (auto simp: entry_names_def live_handle_def Let_def)
  next
    case False
    then have "unat (handle_index h') \<noteq> unat (handle_index h)"
      by (simp add: word_unat_eq_iff)
    then show ?thesis
      using False by (auto simp: entry_names_def live_handle_def Let_def)
  qed
qed


lemma spent_keep:
  assumes "spent es u fl h" and "u \<le> u'" and "set fl' \<subseteq> set fl \<union> {i}" and "i < length es"
    and "generation (es ! i) < generation e \<or> generation e = generation (es ! i) \<and> (object e \<noteq> None \<or> i \<notin> set fl')"
  shows "spent (es[i := e]) u' fl' h"
  using assms unfolding spent_def Let_def by (cases "unat (handle_index h) = i") auto

lemma sim_insert:
  assumes sim: "sim t es fl m"
  obtains a t' s' es' fl' m' where "table_do src (Insert x r) t s = Some (a, t', s')"
    and "map_step (Insert x r) a m = Some m'" and "sim t' es' fl' m'" and "limit t' = limit t"
proof (rule table_insert_rep [OF simD(1) [OF sim], of src s x r])
  fix e t' s'
  assume "table_insert src t s x r = Some (Inl e, t', s')" "table_rep t' es fl"
    "e = LimitReached \<and> room t = 0 \<or> e = NoMemory \<and> chunk_count t * CHUNK = used t \<and> fl = []"
    "used t' = used t" "limit t' = limit t"
  then show thesis
    using that [of "Refused e" t' s' m es fl] sim by (auto simp: sim_def)
next
  fix i t' s' es1 fl'
  assume call: "table_insert src t s x r = Some (Inr (handle_of es1 i), t', s')"
    and choice: "(fl = i # fl' \<and> used t' = used t \<and> es1 = es) \<or> (fl = [] \<and> fl' = [] \<and> i = used t \<and> used t' = Suc i)"
    and es1: "es1 = es \<or> es1 = es @ replicate CHUNK fresh_entry"
    and rep: "table_rep t' (es1[i := (es1 ! i)\<lparr>object := Some x, rights := r\<rparr>]) fl'"
    and i: "i < length es1" "i < MAX_HANDLES" "object (es1 ! i) = None"
      "generation (es1 ! i) \<le> handle_MAX_GENERATION" and lim: "limit t' = limit t"
  let ?es = "es1[i := (es1 ! i)\<lparr>object := Some x, rights := r\<rparr>]" and ?h = "handle_of es1 i"
  let ?m = "\<lparr>names = (names m)(?h \<mapsto> (x, r)), issued = ?h # issued m\<rparr>"
  have len: "used t \<le> length es"
    using table_repD(11) [OF simD(1) [OF sim]] .
  have old: "entry_names es1 (used t) = names m" "\<And>h. h \<in> set (issued m) \<Longrightarrow> spent es1 (used t) fl h"
    using es1 entry_names_append [OF len] simD(2,4) [OF sim] by auto
  have in_fl: "fl = i # fl' \<Longrightarrow> i < used t"
    using entries_okD(3) [OF table_repD(2) [OF simD(1) [OF sim]], of i] by simp
  have u: "i < used t'" "used t \<le> used t'" "\<And>j. j < used t' \<longleftrightarrow> j < used t \<or> j = i" "set fl' \<subseteq> set fl \<union> {i}"
    using choice in_fl by auto
  note h = handle_of_entry [OF i(2,4)]
  have fresh: "?h \<notin> set (issued m)"
    using old(2) [of ?h] choice h i(3) by (auto simp: spent_def Let_def)
  have "spent ?es (used t') fl' ?h"
    using h u(1) i(1) by (simp add: spent_def Let_def)
  moreover have "spent ?es (used t') fl' h" if "h \<in> set (issued m)" for h
    using spent_keep [OF old(2) [OF that] u(2,4) i(1)] by simp
  moreover have "names ?m = entry_names ?es (used t')"
    using entry_names_insert [OF i(1) u(1,3) i(3,4,2)] old(1) by simp
  moreover have "dom (names ?m) \<subseteq> set (issued ?m)"
    using simD(5) [OF sim] by auto
  ultimately have "sim t' ?es fl' ?m"
    using rep fresh simD(3) [OF sim] by (simp add: sim_def)
  then show thesis
    using that [of "Got ?h" t' s' ?m ?es fl'] call fresh lim by simp
qed

lemma sim_remove:
  assumes sim: "sim t es fl m"
  obtains a t' es' fl' m' where "table_do src (Remove h) t s = Some (a, t', s)"
    and "map_step (Remove h) a m = Some m'" and "sim t' es' fl' m'" and "limit t' = limit t"
proof (cases "live_handle es (used t) h")
  case False
  then show thesis
    using that [of "Refused BadHandle" t m es fl] table_remove_bad [OF simD(1) [OF sim] False]
      simD(2) [OF sim] sim by (simp add: entry_names_def)
next
  case True
  let ?i = "unat (handle_index h)"
  note rep = simD(1) [OF sim]
  obtain t' e fl' where call: "table_remove t h = Some (Inr (the (object (es ! ?i)), rights (es ! ?i)), t')"
    and rep': "table_rep t' (es[?i := e]) fl'" and e: "object e = None"
    and choice: "generation (es ! ?i) = handle_MAX_GENERATION \<and> fl' = fl \<and> generation e = generation (es ! ?i)
      \<or> generation (es ! ?i) \<noteq> handle_MAX_GENERATION \<and> fl' = ?i # fl \<and> generation e = generation (es ! ?i) + 1"
    and t': "used t' = used t" "limit t' = limit t"
    by (rule table_remove_rep [OF rep True])
  note i = live_handle_in [OF rep True]
  have "?i \<notin> set fl"
    using entries_okD(4) [OF table_repD(2) [OF rep], of ?i] i(3) by auto
  moreover have "generation (es ! ?i) \<le> handle_MAX_GENERATION"
    using entries_okD(7) [OF table_repD(2) [OF rep] i(1)] .
  ultimately have gen: "generation (es ! ?i) < generation e
      \<or> generation e = generation (es ! ?i) \<and> (object e \<noteq> None \<or> ?i \<notin> set fl')"
    using choice next_generation [of "generation (es ! ?i)"] by auto
  let ?m = "m\<lparr>names := (names m)(h := None)\<rparr>"
  have fl': "set fl' \<subseteq> set fl \<union> {?i}"
    using choice by auto
  have "spent (es[?i := e]) (used t') fl' h'" if "h' \<in> set (issued m)" for h'
    using spent_keep [OF simD(4) [OF sim that] _ fl' i(2) gen] t' by simp
  moreover have "names ?m = entry_names (es[?i := e]) (used t')"
    using entry_names_remove [OF True i(2) e] simD(2) [OF sim] t' by simp
  moreover have "dom (names ?m) \<subseteq> set (issued ?m)"
    using simD(5) [OF sim] by auto
  ultimately have "sim t' (es[?i := e]) fl' ?m"
    using rep' simD(3) [OF sim] by (simp add: sim_def)
  then show thesis
    using that [of "Taken (the (object (es ! ?i))) (rights (es ! ?i))" t' ?m "es[?i := e]" fl'] call True simD(2) [OF sim] t'(2)
    by (simp add: entry_names_def)
qed

lemma sim_reserve:
  assumes sim: "sim t es fl m" and n: "n \<le> CHUNK"
  obtains a t' s' es' m' where "table_do src (Reserve n) t s = Some (a, t', s')"
    and "map_step (Reserve n) a m = Some m'" and "sim t' es' fl m'" and "limit t' = limit t"
proof (rule reserve_rep [OF simD(1) [OF sim] n, of src s])
  fix e t' s'
  assume "reserve src t s n = Some (Inl e, t', s')" "table_rep t' es fl"
    "e = LimitReached \<and> room t < n \<or> e = NoMemory" "used t' = used t" "limit t' = limit t"
  then show thesis
    using that [of "Refused e" t' s' m es] sim by (auto simp: sim_def)
next
  fix t' s' es1
  assume call: "reserve src t s n = Some (Inr (), t', s')" "table_rep t' es1 fl" "used t' = used t" "limit t' = limit t"
    and es1: "es1 = es \<or> es1 = es @ replicate CHUNK fresh_entry"
  have "entry_names es1 (used t) = entry_names es (used t)" "\<And>h. spent es1 (used t) fl h = spent es (used t) fl h"
    using es1 entry_names_append [OF table_repD(11) [OF simD(1) [OF sim]]] by auto
  then show thesis
    using that [of Reserved t' s' m es1] call simD [OF sim] by (simp add: sim_def)
qed

lemma sim_do:
  assumes "sim t es fl m" and "call_allowed c"
  shows "\<exists>a t' s' m' es' fl'. table_do src c t s = Some (a, t', s') \<and> map_step c a m = Some m' \<and> sim t' es' fl' m' \<and> limit t' = limit t"
proof (cases c)
  case (Insert x r)
  then show ?thesis
    using sim_insert [OF assms(1), of src x r s] by metis
next
  case (Remove h)
  then show ?thesis
    using sim_remove [OF assms(1), of src h s] by metis
next
  case (Reserve n)
  then show ?thesis
    using sim_reserve [OF assms(1), of n src s] assms(2) by (metis call_allowed.simps(1))
qed

lemma sim_run:
  assumes "sim t es fl m" and "list_all call_allowed cs"
  shows "\<exists>as t' s' m' es' fl'. table_run src cs t s = Some (as, t', s') \<and> map_run cs as m = Some m' \<and> sim t' es' fl' m' \<and> limit t' = limit t"
  using assms
proof (induction cs arbitrary: t s es fl m)
  case Nil
  then show ?case
    by (metis table_run.simps(1) map_run.simps(1))
next
  case (Cons c cs)
  obtain a t1 s1 m1 es1 fl1 where 1: "table_do src c t s = Some (a, t1, s1)" "map_step c a m = Some m1" "sim t1 es1 fl1 m1"
      "limit t1 = limit t"
    using sim_do [OF Cons.prems(1), of c src s] Cons.prems(2) by auto
  obtain as t2 s2 m2 es2 fl2 where 2: "table_run src cs t1 s1 = Some (as, t2, s2)" "map_run cs as m1 = Some m2" "sim t2 es2 fl2 m2"
      "limit t2 = limit t1"
    using Cons.IH [OF 1(3), of s1] Cons.prems(2) by auto
  have "table_run src (c # cs) t s = Some (a # as, t2, s2)" "map_run (c # cs) (a # as) m = Some m2"
    using 1(1,2) 2(1,2) by simp_all
  then show ?case
    using 1(4) 2(3,4) by metis
qed


lemma run_allowed: "table_run src cs t s = Some z \<Longrightarrow> list_all call_allowed cs"
proof (induction cs arbitrary: t s z)
  case (Cons c cs)
  then show ?case
    by (cases c) (auto simp: reserve_def stop_simps split: bind_splits prod.splits)
qed simp

lemma sim_after:
  assumes "sim t es fl m" and "table_run src cs t s = Some (as, t', s')"
  obtains es' fl' m' where "sim t' es' fl' m'" and "map_run cs as m = Some m'" and "limit t' = limit t"
  using sim_run [OF assms(1) run_allowed [OF assms(2)], of src s] assms(2) by auto

lemma sim_get:
  assumes "sim t es fl m"
  shows "table_get t h = Some (case names m h of None \<Rightarrow> Inl BadHandle | Some xr \<Rightarrow> Inr xr)"
  using table_get_rep [OF simD(1) [OF assms]] simD(2) [OF assms] by (simp add: entry_names_def)

text \<open>The live entries and the names of the live handles correspond.\<close>

lemma live_names:
  assumes sim: "sim t es fl m" and i: "i \<in> live_set es (used t)"
  shows "names m (handle_of es i) = Some (the (object (es ! i)), rights (es ! i))"
    and "unat (handle_index (handle_of es i)) = i"
proof -
  note rep = simD(1) [OF sim]
  have "i < used t" "object (es ! i) \<noteq> None" "i < MAX_HANDLES"
    using i table_repD(5,6) [OF rep] by (auto simp: live_set_def)
  then show "names m (handle_of es i) = Some (the (object (es ! i)), rights (es ! i))"
      "unat (handle_index (handle_of es i)) = i"
    using handle_of_entry [of i es] entries_okD(7) [OF table_repD(2) [OF rep], of i] simD(2) [OF sim]
    by (auto simp: entry_names_def live_handle_def Let_def)
qed

lemma dom_names:
  assumes sim: "sim t es fl m"
  shows "dom (names m) = handle_of es ` live_set es (used t)" and "inj_on (handle_of es) (live_set es (used t))"
proof -
  show "dom (names m) = handle_of es ` live_set es (used t)"
  proof
    show "dom (names m) \<subseteq> handle_of es ` live_set es (used t)"
    proof
      fix h
      assume "h \<in> dom (names m)"
      then have "live_handle es (used t) h"
        using simD(2) [OF sim] by (auto simp: entry_names_def split: if_splits)
      then have "unat (handle_index h) \<in> live_set es (used t)" "h = handle_of es (unat (handle_index h))"
        using live_handle_in [OF simD(1) [OF sim]] handle_new_of [of h] by (auto simp: live_set_def)
      then show "h \<in> handle_of es ` live_set es (used t)"
        by blast
    qed
    show "handle_of es ` live_set es (used t) \<subseteq> dom (names m)"
      using live_names(1) [OF sim] by blast
  qed
  show "inj_on (handle_of es) (live_set es (used t))"
    using live_names(2) [OF sim] by (intro inj_on_inverseI [of _ "\<lambda>h. unat (handle_index h)"]) blast
qed

lemma sim_live:
  assumes "sim t es fl m"
  shows "live t = card (dom (names m))"
  using dom_names [OF assms] table_repD(8) [OF simD(1) [OF assms]] by (simp add: card_image)


section \<open>The life of a table\<close>





















section \<open>Reserved room\<close>

definition has_room :: "('a, 'cp, 'dp) handle_table \<Rightarrow> nat \<Rightarrow> bool" where
  "has_room t n \<longleftrightarrow>
     (\<exists>es fl. table_rep t es fl \<and> n \<le> room t \<and> n - length fl \<le> length es - used t)"

lemma has_room_insert:
  assumes "has_room t (Suc n)"
  shows "\<exists>h t' s'. table_insert src t s x r = Some (Inr h, t', s') \<and> has_room t' n"
proof -
  obtain es fl where rep: "table_rep t es fl" and room: "Suc n \<le> room t" "Suc n - length fl \<le> length es - used t"
    using assms by (auto simp: has_room_def)
  have len: "length es = chunk_count t * CHUNK"
    using table_repD(1) [OF rep] by (simp add: dir_rep_def mult.commute)
  show ?thesis
  proof (rule table_insert_rep [OF rep, of src s x r])
    fix e
    assume "e = LimitReached \<and> room t = 0 \<or> e = NoMemory \<and> chunk_count t * CHUNK = used t \<and> fl = []"
    then show ?thesis
      using room len by auto
  next
    fix i t' s' es1 fl'
    assume call: "table_insert src t s x r = Some (Inr (handle_of es1 i), t', s')"
      and choice: "(fl = i # fl' \<and> used t' = used t \<and> es1 = es) \<or> (fl = [] \<and> fl' = [] \<and> i = used t \<and> used t' = Suc i)"
      and es1: "es1 = es \<or> es1 = es @ replicate CHUNK fresh_entry"
      and rep': "table_rep t' (es1[i := (es1 ! i)\<lparr>object := Some x, rights := r\<rparr>]) fl'"
      and lim: "limit t' = limit t"
    let ?es = "es1[i := (es1 ! i)\<lparr>object := Some x, rights := r\<rparr>]"
    have "n \<le> room t'"
      using room(1) choice lim table_repD(4,5,7) [OF rep] table_repD(4,5,7) [OF rep'] by (auto simp: room_def)
    moreover have "n - length fl' \<le> length ?es - used t'"
      using room(2) choice es1 by auto
    ultimately have "has_room t' n"
      using rep' unfolding has_room_def by blast
    then show ?thesis
      using call by blast
  qed
qed

lemma has_room_inserts:
  assumes "has_room t n" and "length xs \<le> n"
  shows "\<exists>hs t' s'. table_run src (map (\<lambda>(x, r). Insert x r) xs) t s = Some (map Got hs, t', s')"
  using assms
proof (induction xs arbitrary: t s n)
  case Nil
  then show ?case
    by simp
next
  case (Cons xr xs)
  obtain x r k where k: "xr = (x, r)" "n = Suc k"
    using Cons.prems(2) by (cases xr; cases n) auto
  obtain h t1 s1 where 1: "table_insert src t s x r = Some (Inr h, t1, s1)" "has_room t1 k"
    using has_room_insert Cons.prems(1) k(2) by metis
  obtain hs t2 s2 where "table_run src (map (\<lambda>(x, r). Insert x r) xs) t1 s1 = Some (map Got hs, t2, s2)"
    using Cons.IH [OF 1(2), of s1] Cons.prems(2) k(2) by auto
  then have "table_run src (map (\<lambda>(x, r). Insert x r) (xr # xs)) t s = Some (map Got (h # hs), t2, s2)"
    using 1(1) k(1) by simp
  then show ?case
    by blast
qed

section \<open>A small table\<close>

definition counting_source :: "(nat, nat, nat) chunk_source" where
  "counting_source = \<lparr>alloc_chunk = (\<lambda>s. (Some s, s + 1)), free_chunk = (\<lambda>s p. s),
     alloc_directory = (\<lambda>s. (Some s, s + 1)), free_directory = (\<lambda>s d. s)\<rparr>"

definition small_table :: "(nat, nat, nat) handle_table" where
  "small_table = \<lparr>directory = None, chunk_count = 0, used = 0, limit = 4, free_head = NO_ENTRY,
     live = 0, free_count = 0, retired = 0, closing = False, released = 0\<rparr>"

lemma small_table_new: "table_new 4 = Inr small_table"
  by (simp add: small_table_def table_new_def MAX_HANDLES_def CHUNK_def MAX_CHUNKS_def)

definition one_handle :: "(nat, nat, nat) handle_table" where
  "one_handle = small_table\<lparr>chunk_count := 1, used := 1, live := 1,
     directory := Some (0, (replicate MAX_CHUNKS None)[0 := Some (1,
       (replicate CHUNK fresh_entry)[0 := fresh_entry\<lparr>object := Some 7, rights := rights_ALL\<rparr>])])\<rparr>"

definition one_free :: "(nat, nat, nat) handle_table" where
  "one_free = small_table\<lparr>chunk_count := 1, used := 1, free_head := 0, free_count := 1,
     directory := Some (0, (replicate MAX_CHUNKS None)[0 := Some (1,
       (replicate CHUNK fresh_entry)[0 := fresh_entry\<lparr>rights := rights_ALL, generation := 2\<rparr>])])\<rparr>"

lemmas table_eval = counting_source_def small_table_def one_handle_def one_free_def table_insert_def
  insert_index_def grow_def table_remove_def reserve_def room_def entry_at_def set_entry_def table_chunk_def
  chunk_slot_def set_chunk_slot_def at_index_def set_index_def fresh_entry_def MAX_CHUNKS_def CHUNK_def


lemma run_one: "table_run counting_source [Insert 7 rights_ALL] small_table 0 = Some ([Got (handle_new 0 1)], one_handle, 2)"
  by (simp add: table_eval)


lemma reserve_one: "reserve counting_source one_handle 2 3 = Some (Inr (), one_handle, 2)"
  by (simp add: table_eval)










section \<open>The properties\<close>

text \<open>
  C12. Whatever calls come, a handle table answers as a table of names that never gives the
  same handle out twice: no call stops the kernel, every answer is one the contract allows,
  \<open>get\<close> finds exactly the live handles with their objects and rights, and the number of
  live handles is exact and within the limit.
\<close>

theorem handle_table_refines_map:
  assumes "table_new lim = Inr t" and "list_all call_allowed cs"
  shows "\<exists>as t' s' m. table_run src cs t s = Some (as, t', s') \<and> map_run cs as no_names = Some m
    \<and> distinct (issued m) \<and> dom (names m) \<subseteq> set (issued m)
    \<and> (\<forall>h. table_get t' h = Some (case names m h of None \<Rightarrow> Inl BadHandle | Some xr \<Rightarrow> Inr xr))
    \<and> live t' = card (dom (names m)) \<and> live t' \<le> lim"
proof -
  obtain as t' s' m es fl where run: "table_run src cs t s = Some (as, t', s')" "map_run cs as no_names = Some m"
      and sim: "sim t' es fl m" and lim: "limit t' = limit t"
    using sim_run [OF sim_new [OF assms(1)] assms(2), of src s] by blast
  have "live t' \<le> lim"
    using table_repD(5,9) [OF simD(1) [OF sim]] lim assms(1) by (auto simp: table_new_def split: if_splits)
  then show ?thesis
    using run simD(3,5) [OF sim] sim_get [OF sim] sim_live [OF sim] by metis
qed

theorem handle_table_refines_map_witness:
  "\<exists>as t' s' m. table_run counting_source [Insert 7 rights_ALL, Remove (handle_new 0 1), Reserve 3] small_table 0
      = Some (as, t', s')
    \<and> map_run [Insert 7 rights_ALL, Remove (handle_new 0 1), Reserve 3] as no_names = Some m
    \<and> distinct (issued m) \<and> dom (names m) \<subseteq> set (issued m)
    \<and> (\<forall>h. table_get t' h = Some (case names m h of None \<Rightarrow> Inl BadHandle | Some xr \<Rightarrow> Inr xr))
    \<and> live t' = card (dom (names m)) \<and> live t' \<le> 4"
  by (rule handle_table_refines_map [OF small_table_new]) (simp add: CHUNK_def)



text \<open>
  C14. After a reservation of \<open>n\<close> handles that went well, the next \<open>n\<close> inserts
  cannot fail, whatever the state of the kernel's memory is by then.
\<close>

theorem reserved_inserts_succeed:
  assumes "table_new lim = Inr t" and "table_run src cs t s = Some (as, t1, s1)"
    and "reserve src t1 s1 n = Some (Inr (), t2, s2)" and "length xs \<le> n"
  shows "\<exists>hs t3 s3. table_run src (map (\<lambda>(x, r). Insert x r) xs) t2 s' = Some (map Got hs, t3, s3)"
proof -
  obtain es1 fl1 m1 where 1: "sim t1 es1 fl1 m1"
    using sim_after [OF sim_new [OF assms(1)] assms(2)] by metis
  have "n \<le> CHUNK"
    using assms(3) by (auto simp: reserve_def stop_simps split: bind_splits)
  then have "has_room t2 n"
  proof (rule reserve_rep [OF simD(1) [OF 1], of n src s1])
    fix t' s'' es1'
    assume "reserve src t1 s1 n = Some (Inr (), t', s'')" "table_rep t' es1' fl1" "n \<le> room t'"
      "n - length fl1 \<le> length es1' - used t'"
    then show ?thesis
      using assms(3) by (auto simp: has_room_def)
  qed (use assms(3) in auto)
  then show ?thesis
    by (rule has_room_inserts [OF _ assms(4)])
qed

theorem reserved_inserts_succeed_witness:
  "reserve counting_source one_handle 2 3 = Some (Inr (), one_handle, 2)
   \<and> (\<exists>hs t s. table_run counting_source (map (\<lambda>(x, r). Insert x r) [(8, rights_ALL), (9, rights_NONE)]) one_handle 5
        = Some (map Got hs, t, s))"
  using reserve_one
    reserved_inserts_succeed [OF small_table_new run_one reserve_one, of "[(8, rights_ALL), (9, rights_NONE)]" 5]
  by simp

end
