(* ===== verification/Handle_Release.thy ===== *)
theory Handle_Release
  imports Handle_Map "HOL-Library.Multiset"
begin

text \<open>
  The stepwise release of a handle table: the chunks that are left, a lemma for a step, and the
  whole release.
\<close>

section \<open>The whole release\<close>

text \<open>Steps of a release, each with its own number of entries, until a step says it was the last.\<close>

fun release_all ::
  "('s, 'cp, 'dp) chunk_source \<Rightarrow> nat list \<Rightarrow> ('a, 'cp, 'dp) handle_table \<Rightarrow> 's \<Rightarrow>
   (bool \<times> ('a \<times> rights) list \<times> ('a, 'cp, 'dp) handle_table \<times> 's) option" where
  "release_all src [] t s = Some (False, [], t, s)"
| "release_all src (n # ns) t s = do {
     (fin, out, t, s) \<leftarrow> release_step src t s n;
     if fin then Some (True, out, t, s)
     else do {
       (fin, rest, t, s) \<leftarrow> release_all src ns t s;
       Some (fin, out @ rest, t, s) } }"

text \<open>The memory that goes back: the chunks in their order, then the directory.\<close>

definition give_back ::
  "('s, 'cp, 'dp) chunk_source \<Rightarrow> 's \<Rightarrow> 'cp list \<Rightarrow> 'dp option \<Rightarrow> 's" where
  "give_back src s ps d =
     (let s = foldl (free_chunk src) s ps in case d of None \<Rightarrow> s | Some d \<Rightarrow> free_directory src s d)"

text \<open>The addresses of the chunks in the directory, in their order.\<close>

definition chunk_addresses :: "('a, 'cp, 'dp) handle_table \<Rightarrow> 'cp list" where
  "chunk_addresses t =
     (case directory t of None \<Rightarrow> [] | Some (_, cs) \<Rightarrow> map (\<lambda>c. fst (the c)) (filter (\<lambda>c. c \<noteq> None) cs))"

definition entry_objects :: "'a entry list \<Rightarrow> ('a \<times> rights) list" where
  "entry_objects es = List.map_filter (\<lambda>e. map_option (\<lambda>x. (x, rights e)) (object e)) es"

lemma entry_objects_simps [simp]:
  "entry_objects [] = []" "entry_objects (es @ es') = entry_objects es @ entry_objects es'"
  by (simp_all add: entry_objects_def map_filter_def)

lemma entry_objects_none: "(\<And>e. e \<in> set es \<Longrightarrow> object e = None) \<Longrightarrow> entry_objects es = []"
  by (auto simp: entry_objects_def map_filter_def filter_empty_conv)

text \<open>The chunks a table still has, with their addresses.\<close>

definition chunks_rep ::
  "('a, 'cp, 'dp) handle_table \<Rightarrow> 'dp option \<Rightarrow> ('a, 'cp) chunk list \<Rightarrow> bool" where
  "chunks_rep t d xs \<longleftrightarrow>
     directory t = map_option (\<lambda>d. (d, map Some xs @ replicate (MAX_CHUNKS - length xs) None)) d
     \<and> chunk_count t = length xs \<and> length xs \<le> MAX_CHUNKS \<and> (d = None \<longrightarrow> xs = [])
     \<and> (\<forall>x\<in>set xs. length (snd x) = CHUNK)"

lemma chunks_rep_addresses:
  assumes "chunks_rep t (map_option fst (directory t)) xs"
  shows "chunk_addresses t = map fst xs"
proof (cases "directory t")
  case (Some dcs)
  then obtain d cs where "directory t = Some (d, cs)"
    by (cases dcs) simp
  moreover from this have "cs = map Some xs @ replicate (MAX_CHUNKS - length xs) None"
    using assms by (simp add: chunks_rep_def)
  moreover have "filter (\<lambda>c. c \<noteq> None) (replicate n (None :: ('a, 'b) chunk option)) = []" for n
    by simp
  ultimately show ?thesis
    by (simp add: chunk_addresses_def filter_map comp_def del: not_None_eq)
qed (use assms in \<open>simp add: chunks_rep_def chunk_addresses_def\<close>)

definition part_out :: "nat \<Rightarrow> ('a, 'cp) chunk list \<Rightarrow> bool" where
  "part_out k xs \<longleftrightarrow>
     (if xs = [] then k = 0 else k < CHUNK \<and> (\<forall>e\<in>set (take k (snd (last xs))). object e = None))"

definition chunk_objects :: "('a, 'cp) chunk list \<Rightarrow> ('a \<times> rights) list" where
  "chunk_objects xs = entry_objects (concat (map snd xs))"

definition release_rep ::
  "('a, 'cp, 'dp) handle_table \<Rightarrow> 'dp option \<Rightarrow> ('a, 'cp) chunk list \<Rightarrow> bool" where
  "release_rep t d xs \<longleftrightarrow>
     chunks_rep t d xs \<and> part_out (released t) xs \<and> live t = length (chunk_objects xs) \<and> limit t \<le> MAX_HANDLES"

lemma release_end_new:
  assumes "release_rep t d []"
  shows "table_new (limit t) = Inr (fst (release_end src t s))" and "snd (release_end src t s) = give_back src s [] d"
  using assms
  by (auto simp: release_rep_def chunks_rep_def part_out_def release_end_def table_new_def give_back_def
      split: option.split)

lemma last_slot:
  "(map Some ys @ x # r) ! length ys = x" "(map Some ys @ x # r)[length ys := v] = map Some ys @ v # r"
  by (simp_all add: nth_append list_update_append)

lemma chunks_rep_last:
  assumes "chunks_rep t d (ys @ [x])"
  obtains dd where "d = Some dd" and "chunk_count t = Suc (length ys)" and "length (snd x) = CHUNK"
    and "directory t = Some (dd, map Some ys @ Some x # replicate (MAX_CHUNKS - Suc (length ys)) None)"
  using assms by (auto simp: chunks_rep_def)

text \<open>A step on the last chunk: the objects of the part come out, in order.\<close>

lemma take_out_part:
  assumes "k < length es" and "to = k + min n (length es - k)" and "take_out es k to = (out, es')"
    and "\<forall>e\<in>set (take k es). object e = None"
  shows "length es' = length es" and "entry_objects es = out @ entry_objects es'"
    and "\<forall>e\<in>set (take to es'). object e = None"
proof -
  have to: "k \<le> to" "to \<le> length es"
    using assms(1,2) by auto
  have split: "es = take k es @ drop k (take to es) @ drop to es"
    using to by (metis append_assoc append_take_drop_id take_take min.absorb1)
  have out: "out = entry_objects (drop k (take to es))"
    "es' = take k es @ map (\<lambda>e. e\<lparr>object := None\<rparr>) (drop k (take to es)) @ drop to es"
    using assms(3) by (auto simp: take_out_def entry_objects_def)
  show "length es' = length es"
    using to out(2) by simp
  have none: "entry_objects (take k es) = []"
    "entry_objects (map (\<lambda>e. e\<lparr>object := None\<rparr>) (drop k (take to es))) = []"
    using assms(4) by (auto intro!: entry_objects_none)
  then show "entry_objects es = out @ entry_objects es'"
    using split out by (metis append_Nil entry_objects_simps(2))
  have "take to es' = take k es @ map (\<lambda>e. e\<lparr>object := None\<rparr>) (drop k (take to es))"
    using to out(2) by simp
  then show "\<forall>e\<in>set (take to es'). object e = None"
    using assms(4) by auto
qed

definition after_step ::
  "('s, 'cp, 'dp) chunk_source \<Rightarrow> ('a, 'cp, 'dp) handle_table \<Rightarrow> 's \<Rightarrow> nat \<Rightarrow> 'dp option \<Rightarrow> ('a, 'cp) chunk list \<Rightarrow>
   bool \<times> ('a \<times> rights) list \<times> ('a, 'cp, 'dp) handle_table \<times> 's \<Rightarrow> bool" where
  "after_step src t s n d xs z \<longleftrightarrow>
     (case z of (fin, out, t', s') \<Rightarrow> limit t' = limit t \<and>
        (if fin then table_new (limit t) = Inr t' \<and> mset out = mset (chunk_objects xs)
             \<and> s' = give_back src s (rev (map fst xs)) d
         else (\<exists>xs' ps. release_rep t' d xs' \<and> mset (chunk_objects xs) = mset out + mset (chunk_objects xs')
             \<and> rev (map fst xs) = ps @ rev (map fst xs') \<and> s' = foldl (free_chunk src) s ps
             \<and> CHUNK * length xs' - released t' < CHUNK * length xs - released t)))"

lemma after_step_goes_on:
  assumes "release_rep t' d xs'" and "limit t' = limit t"
    and "mset (chunk_objects xs) = mset out + mset (chunk_objects xs')"
    and "rev (map fst xs) = ps @ rev (map fst xs')" and "s' = foldl (free_chunk src) s ps"
    and "CHUNK * length xs' - released t' < CHUNK * length xs - released t"
  shows "after_step src t s n d xs (False, out, t', s')"
  using assms unfolding after_step_def by simp blast

lemma release_step_part:
  assumes rep: "release_rep t d (ys @ [(p, es)])" and n: "n > 0"
    and to: "to = released t + min n (CHUNK - released t)" "to < CHUNK"
  shows "\<exists>z. release_step src t s n = Some z \<and> after_step src t s n d (ys @ [(p, es)]) z"
proof -
  have cr: "chunks_rep t d (ys @ [(p, es)])" and k: "released t < CHUNK"
      "\<forall>e\<in>set (take (released t) es). object e = None" and live: "live t = length (chunk_objects (ys @ [(p, es)]))"
      and lim: "limit t \<le> MAX_HANDLES"
    using rep by (auto simp: release_rep_def part_out_def)
  obtain dd where dd: "d = Some dd" "chunk_count t = Suc (length ys)" "length es = CHUNK"
    "directory t = Some (dd, map Some ys @ Some (p, es) # replicate (MAX_CHUNKS - Suc (length ys)) None)"
    using cr by (auto elim: chunks_rep_last)
  obtain out es' where out: "take_out es (released t) to = (out, es')"
    by (cases "take_out es (released t) to")
  note part = take_out_part [OF k(1) [folded dd(3)] to(1) [folded dd(3)] out k(2)]
  define t' where "t' = t\<lparr>closing := True, free_head := NO_ENTRY, used := min (used t) (length ys * CHUNK),
    directory := Some (dd, map Some ys @ Some (p, es') # replicate (MAX_CHUNKS - Suc (length ys)) None),
    live := live t - length out, released := to\<rparr>"
  have call: "release_step src t s n = Some (False, out, t', s)"
    using n dd(2,4) out to(2)
    by (simp add: release_step_def chunk_slot_def set_chunk_slot_def at_index_def set_index_def last_slot t'_def Let_def
        to(1) [symmetric])
  have objs: "chunk_objects (ys @ [(p, es)]) = chunk_objects ys @ out @ entry_objects es'"
    "chunk_objects (ys @ [(p, es')]) = chunk_objects ys @ entry_objects es'"
    using part(2) by (simp_all add: chunk_objects_def)
  have "chunks_rep t' d (ys @ [(p, es')])"
    using cr dd part(1) by (simp add: chunks_rep_def t'_def)
  then have "release_rep t' d (ys @ [(p, es')])"
    using to(2) part(3) live lim objs by (simp add: release_rep_def part_out_def t'_def)
  moreover have "CHUNK * length (ys @ [(p, es')]) - released t' < CHUNK * length (ys @ [(p, es)]) - released t"
    using n to by (simp add: t'_def)
  ultimately have "after_step src t s n d (ys @ [(p, es)]) (False, out, t', s)"
    using objs by (intro after_step_goes_on [where ps = "[]" and xs' = "ys @ [(p, es')]"]) (simp_all add: t'_def)
  then show ?thesis
    using call by blast
qed

lemma release_step_chunk:
  assumes rep: "release_rep t d (ys @ [(p, es)])" and n: "n > 0"
    and to: "CHUNK = released t + min n (CHUNK - released t)"
  shows "\<exists>z. release_step src t s n = Some z \<and> after_step src t s n d (ys @ [(p, es)]) z"
proof -
  have cr: "chunks_rep t d (ys @ [(p, es)])" and k: "released t < CHUNK"
      "\<forall>e\<in>set (take (released t) es). object e = None" and live: "live t = length (chunk_objects (ys @ [(p, es)]))"
      and lim: "limit t \<le> MAX_HANDLES"
    using rep by (auto simp: release_rep_def part_out_def)
  obtain dd where dd: "d = Some dd" "chunk_count t = Suc (length ys)" "length es = CHUNK"
    "directory t = Some (dd, map Some ys @ Some (p, es) # replicate (MAX_CHUNKS - Suc (length ys)) None)"
    using cr by (auto elim: chunks_rep_last)
  obtain out es' where out: "take_out es (released t) CHUNK = (out, es')"
    by (cases "take_out es (released t) CHUNK")
  note part = take_out_part [OF k(1) [folded dd(3)] to [folded dd(3)] out [folded dd(3)] k(2)]
  define t' where "t' = t\<lparr>closing := True, free_head := NO_ENTRY, used := min (used t) (length ys * CHUNK),
    live := live t - length out, released := 0,
    directory := Some (dd, map Some ys @ None # replicate (MAX_CHUNKS - Suc (length ys)) None),
    chunk_count := length ys\<rparr>"
  have call: "release_step src t s n =
      (let s' = free_chunk src s p in
       if length ys > 0 then Some (False, out, t', s')
       else let (t, s) = release_end src t' s' in Some (True, out, t, s))"
    using n dd(2,4) out to [symmetric]
    by (simp add: release_step_def chunk_slot_def set_chunk_slot_def at_index_def set_index_def last_slot t'_def Let_def)
  have "entry_objects es' = []"
    using part(1,3) dd(3) by (intro entry_objects_none) simp
  then have objs: "chunk_objects (ys @ [(p, es)]) = chunk_objects ys @ out"
    using part(2) by (simp add: chunk_objects_def)
  have "directory t' = map_option (\<lambda>d. (d, map Some ys @ replicate (MAX_CHUNKS - length ys) None)) d"
    using cr dd(1) by (simp add: t'_def chunks_rep_def flip: replicate_Suc) (metis Suc_diff_Suc Suc_le_lessD replicate_Suc)
  then have "chunks_rep t' d ys"
    using cr dd(1) by (simp add: chunks_rep_def t'_def)
  then have rep': "release_rep t' d ys"
    using live lim objs by (simp add: release_rep_def part_out_def t'_def CHUNK_def)
  show ?thesis
  proof (cases "ys = []")
    case True
    obtain t2 s2 where e: "release_end src t' (free_chunk src s p) = (t2, s2)"
      by (cases "release_end src t' (free_chunk src s p)")
    have "table_new (limit t') = Inr t2" "s2 = give_back src (free_chunk src s p) [] d"
      using release_end_new [OF rep' [unfolded True], of src "free_chunk src s p"] e by simp_all
    moreover from this have "limit t2 = limit t'"
      by (auto simp: table_new_def split: if_splits)
    ultimately show ?thesis
      using call e True objs by (simp add: after_step_def t'_def give_back_def chunk_objects_def)
  next
    case False
    have "CHUNK * length ys - released t' < CHUNK * length (ys @ [(p, es)]) - released t"
      using k(1) by (simp add: t'_def)
    then have "after_step src t s n d (ys @ [(p, es)]) (False, out, t', free_chunk src s p)"
      using rep' objs by (intro after_step_goes_on [where ps = "[p]" and xs' = ys]) (simp_all add: t'_def)
    then show ?thesis
      using call False by simp
  qed
qed

lemma release_step_rep:
  assumes rep: "release_rep t d xs" and n: "n > 0"
  shows "\<exists>z. release_step src t s n = Some z \<and> after_step src t s n d xs z"
proof (cases xs rule: rev_cases)
  case Nil
  obtain t2 s2 where e: "release_end src t s = (t2, s2)"
    by (cases "release_end src t s")
  have "table_new (limit t) = Inr t2" "s2 = give_back src s [] d"
    using release_end_new [OF rep [unfolded Nil], of src s] e by simp_all
  moreover from this have "limit t2 = limit t"
    by (auto simp: table_new_def split: if_splits)
  moreover have "chunk_count t = 0"
    using rep Nil by (simp add: release_rep_def chunks_rep_def)
  ultimately show ?thesis
    using e n Nil by (simp add: release_step_def after_step_def chunk_objects_def)
next
  case (snoc ys x)
  obtain p es where x: "x = (p, es)"
    by (cases x)
  have "released t < CHUNK"
    using rep snoc by (simp add: release_rep_def part_out_def)
  then consider "released t + min n (CHUNK - released t) < CHUNK" | "CHUNK = released t + min n (CHUNK - released t)"
    by linarith
  then show ?thesis
  proof cases
    case 1
    then show ?thesis
      unfolding snoc x by (rule release_step_part [OF rep [unfolded snoc x] n refl])
  next
    case 2
    then show ?thesis
      unfolding snoc x by (rule release_step_chunk [OF rep [unfolded snoc x] n])
  qed
qed

text \<open>Every step takes something out, so enough steps reach the end.\<close>

lemma release_all_rep:
  assumes "release_rep t d xs" and "\<forall>n\<in>set ns. n > 0" and "CHUNK * length xs - released t < length ns"
  shows "\<exists>outs t' s'. release_all src ns t s = Some (True, outs, t', s') \<and> table_new (limit t) = Inr t'
    \<and> mset outs = mset (chunk_objects xs) \<and> s' = give_back src s (rev (map fst xs)) d"
  using assms
proof (induction ns arbitrary: t s xs)
  case (Cons n ns)
  obtain fin out t1 s1 where 1: "release_step src t s n = Some (fin, out, t1, s1)"
      "after_step src t s n d xs (fin, out, t1, s1)"
    using release_step_rep [OF Cons.prems(1), of n src s] Cons.prems(2) by auto
  show ?case
  proof (cases fin)
    case True
    then show ?thesis
      using 1 by (simp add: after_step_def)
  next
    case False
    then obtain xs' ps where xs': "release_rep t1 d xs'" "mset (chunk_objects xs) = mset out + mset (chunk_objects xs')"
        "rev (map fst xs) = ps @ rev (map fst xs')" "s1 = foldl (free_chunk src) s ps" "limit t1 = limit t"
        "CHUNK * length xs' - released t1 < CHUNK * length xs - released t"
      using 1(2) by (auto simp: after_step_def)
    have "CHUNK * length xs' - released t1 < length ns"
      using xs'(6) Cons.prems(3) by simp
    then obtain outs t2 s2 where 2: "release_all src ns t1 s1 = Some (True, outs, t2, s2)"
        "table_new (limit t1) = Inr t2" "mset outs = mset (chunk_objects xs')"
        "s2 = give_back src s1 (rev (map fst xs')) d"
      using Cons.IH [OF xs'(1), of s1] Cons.prems(2) by auto
    have "release_all src (n # ns) t s = Some (True, out @ outs, t2, s2)"
      using 1(1) 2(1) False by simp
    moreover have "s2 = give_back src s (rev (map fst xs)) d"
      using xs'(3,4) 2(4) by (simp add: give_back_def)
    ultimately show ?thesis
      using 2(2,3) xs'(2,5) by simp
  qed
qed simp

section \<open>The start of a release\<close>

lemma concat_chunks:
  "length es = CHUNK * n \<Longrightarrow> concat (map (\<lambda>c. take CHUNK (drop (CHUNK * c) es)) [0..<n]) = es"
  by (simp add: concat_parts)

lemma dir_chunks:
  assumes rep: "dir_rep t es"
  obtains xs where "chunks_rep t (map_option fst (directory t)) xs" and "concat (map snd xs) = es"
proof (cases "directory t")
  case None
  then have "es = []" "chunk_count t = 0"
    using rep by (auto simp: dir_rep_def)
  then show ?thesis
    using None that [of "[]"] by (simp add: chunks_rep_def)
next
  case (Some dcs)
  obtain d cs where dir: "directory t = Some (d, cs)"
    using Some by (cases dcs) simp
  let ?n = "chunk_count t"
  define xs where "xs = map (\<lambda>c. the (cs ! c)) [0..<?n]"
  have len: "length es = CHUNK * ?n" "?n \<le> MAX_CHUNKS" "length cs = MAX_CHUNKS"
    and low: "\<And>c. c < ?n \<Longrightarrow> \<exists>p. cs ! c = Some (p, take CHUNK (drop (CHUNK * c) es))"
    and high: "\<And>c. c < MAX_CHUNKS \<Longrightarrow> ?n \<le> c \<Longrightarrow> cs ! c = None"
    using rep dir by (auto simp: dir_rep_def)
  have cs: "cs = map Some xs @ replicate (MAX_CHUNKS - length xs) None"
  proof (rule nth_equalityI)
    fix c
    assume "c < length cs"
    then show "cs ! c = (map Some xs @ replicate (MAX_CHUNKS - length xs) None) ! c"
      using low [of c] high [of c] len by (cases "c < ?n") (auto simp: xs_def nth_append)
  qed (use len in \<open>simp add: xs_def\<close>)
  have snd: "map snd xs = map (\<lambda>c. take CHUNK (drop (CHUNK * c) es)) [0..<?n]"
    using low by (force simp: xs_def)
  have "length y = CHUNK" if y: "y \<in> set (map snd xs)" for y
  proof -
    obtain c where "c < ?n" "y = take CHUNK (drop (CHUNK * c) es)"
      using y unfolding snd by auto
    moreover from this have "CHUNK * c + CHUNK \<le> CHUNK * ?n"
      by (metis Suc_leI mult_Suc_right add.commute mult_le_mono2)
    ultimately show ?thesis
      using len(1) by simp
  qed
  then have "\<forall>x\<in>set xs. length (snd x) = CHUNK"
    by simp
  moreover have "length xs = ?n"
    by (simp add: xs_def)
  moreover have "directory t = Some (d, map Some xs @ replicate (MAX_CHUNKS - length xs) None)"
    unfolding dir by (simp only: cs [symmetric])
  ultimately have "chunks_rep t (Some d) xs"
    using len(2) unfolding chunks_rep_def by simp
  then show ?thesis
    using that [of xs] dir snd concat_chunks [OF len(1)] by simp
qed

lemma mset_entry_objects:
  "mset (entry_objects es) =
     image_mset (\<lambda>i. (the (object (es ! i)), rights (es ! i))) (mset_set (live_set es (length es)))"
proof (induction es rule: rev_induct)
  case (snoc e es)
  have "live_set (es @ [e]) (length (es @ [e])) =
      (if object e = None then live_set es (length es) else insert (length es) (live_set es (length es)))"
    by (auto simp: live_set_def nth_append less_Suc_eq)
  moreover have "length es \<notin> live_set es (length es)"
    by (simp add: live_set_def)
  moreover have "image_mset (\<lambda>i. (the (object ((es @ [e]) ! i)), rights ((es @ [e]) ! i))) (mset_set (live_set es (length es)))
      = image_mset (\<lambda>i. (the (object (es ! i)), rights (es ! i))) (mset_set (live_set es (length es)))"
    by (rule image_mset_cong) (auto simp: live_set_def nth_append)
  moreover have "mset (entry_objects [e]) = (if object e = None then {#} else {#(the (object e), rights e)#})"
    by (auto simp: entry_objects_def map_filter_def)
  ultimately show ?case
    using snoc.IH by auto
qed (simp add: live_set_def)

lemma live_all:
  assumes "table_rep t es fl"
  shows "live_set es (length es) = live_set es (used t)"
proof -
  have "x < used t" if "x < length es" "object (es ! x) = Some y" for x y
    using that entries_okD(8) [OF table_repD(2) [OF assms], of x]
    by (cases "x < used t") (auto simp: fresh_entry_def)
  then show ?thesis
    using table_repD(11) [OF assms] by (auto simp: live_set_def)
qed

lemma table_release_rep:
  assumes rep: "table_rep t es fl"
  obtains xs where "release_rep t (map_option fst (directory t)) xs" and "chunk_objects xs = entry_objects es"
    and "length xs = chunk_count t"
proof -
  obtain xs where xs: "chunks_rep t (map_option fst (directory t)) xs" "concat (map snd xs) = es"
    by (rule dir_chunks [OF table_repD(1) [OF rep]])
  have "size (mset (entry_objects es)) = card (live_set es (used t))"
    unfolding mset_entry_objects live_all [OF rep] by simp
  then have len: "live t = length (entry_objects es)"
    unfolding table_repD(8) [OF rep] by simp
  have objs: "chunk_objects xs = entry_objects es"
    using xs(2) by (simp add: chunk_objects_def)
  have "part_out (released t) xs"
    using table_repD(10) [OF rep] by (simp add: part_out_def CHUNK_def)
  then have "release_rep t (map_option fst (directory t)) xs"
    using xs(1) len table_repD(6) [OF rep] by (simp add: release_rep_def objs)
  then show ?thesis
    using that objs xs(1) by (simp add: chunks_rep_def)
qed

lemma sim_objects:
  assumes sim: "sim t es fl m"
  shows "mset (entry_objects es) = image_mset (\<lambda>h. the (names m h)) (mset_set (dom (names m)))"
proof -
  note rep = simD(1) [OF sim]
  have "the (names m (handle_of es i)) = (the (object (es ! i)), rights (es ! i))"
    if "i \<in> live_set es (used t)" for i
    using live_names(1) [OF sim that] by simp
  then have "mset (entry_objects es) = image_mset (\<lambda>i. the (names m (handle_of es i))) (mset_set (live_set es (used t)))"
    unfolding mset_entry_objects live_all [OF rep] by (intro image_mset_cong) simp
  also have "\<dots> = image_mset (\<lambda>h. the (names m h)) (mset_set (dom (names m)))"
    unfolding dom_names(1) [OF sim] image_mset_mset_set [OF dom_names(2) [OF sim], symmetric]
    by (simp add: multiset.map_comp comp_def)
  finally show ?thesis .
qed


section \<open>The property\<close>

text \<open>
  C15. The release of a table ends and leaves nothing behind: whatever parts its steps take,
  at most one step for every entry and one more reach the end; until then every object of a
  live handle is handed out exactly once with its rights, each chunk of the directory goes back, the
  last one first, then the directory, and the table is as fresh as a new one with the same limit.
\<close>

theorem release_ends_empty:
  assumes "table_new lim = Inr t0" and "table_run src cs t0 s0 = Some (as, t, s)"
    and "\<forall>n\<in>set ns. n > 0" and "length ns > CHUNK * chunk_count t"
  shows "\<exists>outs t' m. release_all src ns t s
      = Some (True, outs, t', give_back src s (rev (chunk_addresses t)) (map_option fst (directory t)))
    \<and> length (chunk_addresses t) = chunk_count t
    \<and> map_run cs as no_names = Some m
    \<and> mset outs = image_mset (\<lambda>h. the (names m h)) (mset_set (dom (names m)))
    \<and> table_new lim = Inr t' \<and> table_drop t' = Some ()"
proof -
  obtain es fl m where sim: "sim t es fl m" "map_run cs as no_names = Some m" "limit t = limit t0"
    by (rule sim_after [OF sim_new [OF assms(1)] assms(2)])
  obtain xs where xs: "release_rep t (map_option fst (directory t)) xs" "chunk_objects xs = entry_objects es"
      "length xs = chunk_count t"
    by (rule table_release_rep [OF simD(1) [OF sim(1)]])
  have addr: "chunk_addresses t = map fst xs"
    using xs(1) by (intro chunks_rep_addresses) (simp add: release_rep_def)
  have "CHUNK * length xs - released t < length ns"
    using assms(4) xs(3) by simp
  then obtain outs t' where run: "release_all src ns t s
        = Some (True, outs, t', give_back src s (rev (chunk_addresses t)) (map_option fst (directory t)))"
      "table_new (limit t) = Inr t'" "mset outs = mset (chunk_objects xs)"
    using release_all_rep [OF xs(1) assms(3), of src s] unfolding addr by blast
  have lim: "limit t = lim" and drop: "table_drop t' = Some ()"
    using assms(1) sim(3) run(2) by (auto simp: table_new_def table_drop_def split: if_splits)
  have "mset outs = image_mset (\<lambda>h. the (names m h)) (mset_set (dom (names m)))"
    using run(3) xs(2) sim_objects [OF sim(1)] by simp
  moreover have "length (chunk_addresses t) = chunk_count t"
    using xs(3) by (simp add: addr)
  ultimately show ?thesis
    using run(1,2) sim(2) lim drop by blast
qed

text \<open>A source that keeps the addresses that are out.\<close>

definition keeping_source :: "(nat \<times> nat list, nat, nat) chunk_source" where
  "keeping_source = \<lparr>alloc_chunk = (\<lambda>(n, out). (Some n, n + 1, n # out)), free_chunk = (\<lambda>(n, out) p. (n, remove1 p out)),
     alloc_directory = (\<lambda>(n, out). (Some n, n + 1, n # out)), free_directory = (\<lambda>(n, out) d. (n, remove1 d out))\<rparr>"

lemma keeping_run:
  "table_run keeping_source [Insert 7 rights_ALL] small_table (0, []) = Some ([Got (handle_new 0 1)], one_handle, 2, [1, 0])"
  by (simp add: keeping_source_def table_eval)

lemma filter_one_chunk: "0 < n \<Longrightarrow> filter (\<lambda>c. c \<noteq> None) ((replicate n None)[0 := Some y]) = [Some y]"
  by (cases n) simp_all

lemma one_handle_memory: "chunk_addresses one_handle = [1]" "map_option fst (directory one_handle) = Some 0"
  by (simp_all add: chunk_addresses_def one_handle_def filter_one_chunk MAX_CHUNKS_def del: not_None_eq)

theorem release_ends_empty_witness:
  "table_run keeping_source [Insert 7 rights_ALL] small_table (0, []) = Some ([Got (handle_new 0 1)], one_handle, 2, [1, 0])
   \<and> (\<exists>t'. release_all keeping_source (replicate 65 3) one_handle (2, [1, 0]) = Some (True, [(7, rights_ALL)], t', 2, [])
    \<and> table_new 4 = Inr t' \<and> table_drop t' = Some ())"
proof -
  have ns: "\<forall>n\<in>set (replicate 65 (3 :: nat)). n > 0" "length (replicate 65 (3 :: nat)) > CHUNK * chunk_count one_handle"
    by (simp_all add: one_handle_def small_table_def CHUNK_def)
  have given: "give_back keeping_source (2, [1, 0]) (rev [1]) (Some 0) = (2, [])"
    by (simp add: give_back_def keeping_source_def)
  obtain outs t' m where r: "release_all keeping_source (replicate 65 3) one_handle (2, [1, 0]) = Some (True, outs, t', 2, [])"
      "map_run [Insert 7 rights_ALL] [Got (handle_new 0 1)] no_names = Some m"
      "mset outs = image_mset (\<lambda>h. the (names m h)) (mset_set (dom (names m)))" "table_new 4 = Inr t'" "table_drop t' = Some ()"
    using release_ends_empty [OF small_table_new keeping_run ns] unfolding one_handle_memory given by blast
  have "m = \<lparr>names = [handle_new 0 1 \<mapsto> (7, rights_ALL)], issued = [handle_new 0 1]\<rparr>"
    using r(2) by (simp add: no_names_def)
  then have "mset outs = {#(7, rights_ALL)#}"
    using r(3) by simp
  then have "outs = [(7, rights_ALL)]"
    by simp
  then show ?thesis
    using keeping_run r(1,4,5) by blast
qed

end
