(* ===== verification/Token.thy ===== *)
theory Token
  imports Abi
begin

text \<open>
  The table of thread numbers and the tokens of replies, \<open>kcore/src/token.rs\<close>.

  The union of an entry's holder is a datatype of its two variants: reading the one that is
  not there is undefined in the source and stops the model. The capacity \<open>N\<close> of the table is
  the length of its list of entries. A \<open>u16\<close> number indexes the list.
\<close>

section \<open>State\<close>

definition tok_INDEX_BITS :: nat where "tok_INDEX_BITS = 16"
definition MAX_COUNT :: u64 where "MAX_COUNT = push_bit (64 - tok_INDEX_BITS) 1 - 1"
definition TAKEN :: u64 where "TAKEN = push_bit 63 1"
definition DEAD :: u64 where "DEAD = push_bit 62 1"
definition NONE :: nat where "NONE = 0"

datatype 'p holder = Holder_thread 'p | Holder_next nat

record 'p tok_entry =
  holder :: "'p holder"
  word :: u64

record 'p tok_table =
  entries :: "'p tok_entry list"
  used :: nat
  first_free :: nat
  last_free :: nat
  taken :: nat
  retired :: nat

fun holder_thread :: "'p holder \<Rightarrow> 'p option" where
  "holder_thread (Holder_thread p) = Some p"
| "holder_thread (Holder_next n) = None"

fun holder_next :: "'p holder \<Rightarrow> nat option" where
  "holder_next (Holder_next n) = Some n"
| "holder_next (Holder_thread p) = None"

section \<open>Operations\<close>

definition tok_new :: "nat \<Rightarrow> 'p tok_table option" where
  "tok_new n = do {
     ensure (n \<le> 2 ^ tok_INDEX_BITS);
     Some \<lparr>entries = replicate n \<lparr>holder = Holder_next NONE, word = 0\<rparr>, used = 0, first_free = NONE,
       last_free = NONE, taken = 0, retired = 0\<rparr> }"

definition available :: "'p tok_table \<Rightarrow> nat" where
  "available t = length (entries t) - taken t - retired t"

text \<open>The choice of the number in \<open>alloc\<close>.\<close>

definition alloc_index :: "'p tok_table \<Rightarrow> (nat result \<times> 'p tok_table) option" where
  "alloc_index t =
     (if used t < length (entries t) then Some (Inr (used t), t\<lparr>used := used t + 1\<rparr>)
      else if first_free t \<noteq> NONE then do {
        let i = first_free t;
        e \<leftarrow> at_index (entries t) (i - 1);
        nxt \<leftarrow> holder_next (holder e);
        let t = t\<lparr>first_free := nxt\<rparr>;
        Some (Inr (i - 1), if nxt = NONE then t\<lparr>last_free := NONE\<rparr> else t) }
      else Some (Inl LimitReached, t))"

definition tok_alloc :: "'p tok_table \<Rightarrow> 'p \<Rightarrow> (u16 result \<times> 'p tok_table) option" where
  "tok_alloc t p = do {
     (r, t) \<leftarrow> alloc_index t;
     (case r of
        Inl err \<Rightarrow> Some (Inl err, t)
      | Inr i \<Rightarrow> do {
          e \<leftarrow> at_index (entries t) i;
          es \<leftarrow> set_index (entries t) i \<lparr>holder = Holder_thread p, word = word e AND MAX_COUNT OR TAKEN\<rparr>;
          Some (Inr (of_nat i), t\<lparr>entries := es, taken := taken t + 1\<rparr>) }) }"

definition taken_entry :: "'p tok_table \<Rightarrow> u16 \<Rightarrow> 'p tok_entry option" where
  "taken_entry t i = do {
     e \<leftarrow> at_index (entries t) (unat i);
     ensure (word e AND TAKEN \<noteq> 0);
     Some e }"

definition tok_free :: "'p tok_table \<Rightarrow> u16 \<Rightarrow> 'p tok_table option" where
  "tok_free t index = do {
     e \<leftarrow> taken_entry t index;
     let i = unat index;
     let e = \<lparr>holder = Holder_next NONE, word = word e AND NOT TAKEN\<rparr>;
     es \<leftarrow> set_index (entries t) i e;
     let t = t\<lparr>entries := es, taken := taken t - 1\<rparr>;
     if word e AND MAX_COUNT = MAX_COUNT then Some (t\<lparr>retired := retired t + 1\<rparr>)
     else if last_free t = NONE then Some (t\<lparr>first_free := i + 1, last_free := i + 1\<rparr>)
     else do {
       l \<leftarrow> at_index (entries t) (last_free t - 1);
       es \<leftarrow> set_index (entries t) (last_free t - 1) (l\<lparr>holder := Holder_next (i + 1)\<rparr>);
       Some (t\<lparr>entries := es, last_free := i + 1\<rparr>) } }"

definition check_count :: "'p tok_table \<Rightarrow> u16 \<Rightarrow> unit result option" where
  "check_count t i = do {
     e \<leftarrow> taken_entry t i;
     Some (if word e AND MAX_COUNT = MAX_COUNT then Inl BadState else Inr ()) }"

definition accept :: "'p tok_table \<Rightarrow> u16 \<Rightarrow> (u64 \<times> 'p tok_table) option" where
  "accept t i = do {
     r \<leftarrow> check_count t i;
     ensure (r = Inr ());
     e \<leftarrow> at_index (entries t) (unat i);
     let e = e\<lparr>word := (word e AND NOT DEAD) + 1\<rparr>;
     es \<leftarrow> set_index (entries t) (unat i) e;
     Some (push_bit tok_INDEX_BITS (word e AND MAX_COUNT) OR ucast i, t\<lparr>entries := es\<rparr>) }"

definition mark_dead :: "'p tok_table \<Rightarrow> u16 \<Rightarrow> 'p tok_table option" where
  "mark_dead t i = do {
     e \<leftarrow> taken_entry t i;
     es \<leftarrow> set_index (entries t) (unat i) (e\<lparr>word := word e OR DEAD\<rparr>);
     Some (t\<lparr>entries := es\<rparr>) }"

definition tok_check :: "'p tok_table \<Rightarrow> u64 \<Rightarrow> 'p result option" where
  "tok_check t token =
     (let index = unat (token AND (push_bit tok_INDEX_BITS 1 - 1));
          count = drop_bit tok_INDEX_BITS token in
      if index \<ge> length (entries t) then Some (Inl BadState)
      else let e = entries t ! index in
        if count = 0 \<or> word e AND MAX_COUNT \<noteq> count then Some (Inl BadState)
        else if word e AND DEAD \<noteq> 0 then Some (Inl PeerClosed)
        else if word e AND TAKEN = 0 then Some (Inl BadState)
        else map_option Inr (holder_thread (holder e)))"

definition tok_thread :: "'p tok_table \<Rightarrow> u16 \<Rightarrow> 'p option option" where
  "tok_thread t i =
     (if unat i \<ge> length (entries t) then Some None
      else let e = entries t ! unat i in
        if word e AND TAKEN = 0 then Some None else map_option Some (holder_thread (holder e)))"

definition last_token :: "'p tok_table \<Rightarrow> u16 \<Rightarrow> u64 option" where
  "last_token t i = do {
     e \<leftarrow> taken_entry t i;
     let count = word e AND MAX_COUNT;
     Some (if count = 0 then 0 else push_bit tok_INDEX_BITS count OR ucast i) }"

definition skip_to :: "'p tok_table \<Rightarrow> u16 \<Rightarrow> u64 \<Rightarrow> 'p tok_table option" where
  "skip_to t i count = do {
     e \<leftarrow> taken_entry t i;
     ensure (word e AND MAX_COUNT \<le> count \<and> count \<le> MAX_COUNT);
     es \<leftarrow> set_index (entries t) (unat i) (e\<lparr>word := TAKEN OR count\<rparr>);
     Some (t\<lparr>entries := es\<rparr>) }"

section \<open>The word of an entry\<close>

text \<open>A count below 2^48, the mark of an abandoned request and the mark of a taken number.\<close>

definition mk :: "u64 \<Rightarrow> bool \<Rightarrow> bool \<Rightarrow> u64" where
  "mk c d k = c OR (if d then DEAD else 0) OR (if k then TAKEN else 0)"

lemma bit_TAKEN: "bit TAKEN n \<longleftrightarrow> n = 63" and bit_DEAD: "bit DEAD n \<longleftrightarrow> n = 62"
  unfolding TAKEN_def DEAD_def by (simp_all only: bit_push_bit_iff bit_1_iff) auto

lemma MAX_COUNT_mask: "MAX_COUNT = mask 48"
  by (simp add: MAX_COUNT_def tok_INDEX_BITS_def mask_eq_exp_minus_1 push_bit_eq_mult)

lemma bit_MAX_COUNT: "bit MAX_COUNT n \<longleftrightarrow> n < 48"
  by (auto simp: MAX_COUNT_mask bit_mask_iff)

lemma count_bits:
  assumes "c \<le> MAX_COUNT" and "bit c n"
  shows "n < 48"
proof (rule ccontr)
  assume "\<not> n < 48"
  moreover have "unat c < 2 ^ 48"
    using assms(1) by (simp add: word_le_nat_alt MAX_COUNT_mask mask_eq_exp_minus_1)
  ultimately show False
    using no_high_bit [of c 48 n] assms(2) by simp
qed

lemma bit_mk: "c \<le> MAX_COUNT \<Longrightarrow> bit (mk c d k) n \<longleftrightarrow> bit c n \<or> d \<and> n = 62 \<or> k \<and> n = 63"
  by (auto simp: mk_def bit_or_iff bit_TAKEN bit_DEAD)

lemma mk_parts:
  assumes "c \<le> MAX_COUNT"
  shows "mk c d k AND MAX_COUNT = c" and "mk c d k AND TAKEN \<noteq> 0 \<longleftrightarrow> k" and "mk c d k AND DEAD \<noteq> 0 \<longleftrightarrow> d"
proof -
  show "mk c d k AND MAX_COUNT = c"
    by (rule bit_word_eqI) (auto simp: bit_and_iff bit_mk [OF assms] bit_MAX_COUNT dest: count_bits [OF assms])
  have "mk c d k AND TAKEN = (if k then TAKEN else 0)"
    by (rule bit_word_eqI) (auto simp: bit_and_iff bit_mk [OF assms] bit_TAKEN dest: count_bits [OF assms])
  then show "mk c d k AND TAKEN \<noteq> 0 \<longleftrightarrow> k"
    by (auto simp: TAKEN_def)
  have "mk c d k AND DEAD = (if d then DEAD else 0)"
    by (rule bit_word_eqI) (auto simp: bit_and_iff bit_mk [OF assms] bit_DEAD dest: count_bits [OF assms])
  then show "mk c d k AND DEAD \<noteq> 0 \<longleftrightarrow> d"
    by (auto simp: DEAD_def)
qed

lemma mk_changes:
  assumes "c \<le> MAX_COUNT"
  shows "mk c d k AND MAX_COUNT OR TAKEN = mk c False True" and "mk c d k AND NOT TAKEN = mk c d False"
    and "mk c d k OR DEAD = mk c True k" and "TAKEN OR c = mk c False True"
proof -
  show "mk c d k AND MAX_COUNT OR TAKEN = mk c False True" "TAKEN OR c = mk c False True"
    unfolding mk_parts(1) [OF assms] by (simp_all add: mk_def or.commute)
  show "mk c d k AND NOT TAKEN = mk c d False"
    by (rule bit_word_eqI)
      (auto simp: bit_and_iff bit_not_iff bit_mk [OF assms] bit_TAKEN dest: count_bits [OF assms])
  show "mk c d k OR DEAD = mk c True k"
    by (rule bit_word_eqI) (auto simp: bit_or_iff bit_mk [OF assms] bit_DEAD)
qed

lemma mk_inc:
  assumes "c \<le> MAX_COUNT" and "c \<noteq> MAX_COUNT"
  shows "(mk c d k AND NOT DEAD) + 1 = mk (c + 1) False k" and "c + 1 \<le> MAX_COUNT" and "unat (c + 1) = unat c + 1"
proof -
  have small: "unat c < unat MAX_COUNT" "unat MAX_COUNT < 2 ^ 48"
    using assms by (simp_all add: word_le_nat_alt word_unat_eq_iff MAX_COUNT_mask mask_eq_exp_minus_1)
  show inc: "unat (c + 1) = unat c + 1"
    using small unat_add_no_wrap [of c 1] by simp
  show le: "c + 1 \<le> MAX_COUNT"
    using small inc by (simp add: word_le_nat_alt)
  have disjoint: "c' OR (if k then TAKEN else 0) = c' + (if k then TAKEN else 0)" if "c' \<le> MAX_COUNT" for c'
  proof (rule disjunctive_add [symmetric])
    show "\<not> bit c' n \<or> \<not> bit (if k then TAKEN else 0) n" for n
      using count_bits [OF that, of n] by (auto simp: bit_TAKEN)
  qed
  have "mk c d k AND NOT DEAD = c OR (if k then TAKEN else 0)"
    by (rule bit_word_eqI)
      (auto simp: mk_def bit_and_iff bit_or_iff bit_not_iff bit_TAKEN bit_DEAD dest: count_bits [OF assms(1)])
  then show "(mk c d k AND NOT DEAD) + 1 = mk (c + 1) False k"
    using disjoint [OF assms(1)] disjoint [OF le] by (simp add: mk_def)
qed

end
