(* ===== verification/Token_Calls.thy ===== *)
theory Token_Calls
  imports Token
begin

text \<open>
  The invariant of the table of thread numbers and the effect of each call on it: every entry is
  a count with its two marks, the numbers given back form one list, first in first out, and the
  numbers of taken and of retired entries are exact.
\<close>

section \<open>Entries\<close>

definition cnt :: "'p tok_entry \<Rightarrow> u64" where "cnt e = word e AND MAX_COUNT"
definition is_taken :: "'p tok_entry \<Rightarrow> bool" where "is_taken e \<longleftrightarrow> word e AND TAKEN \<noteq> 0"
definition is_dead :: "'p tok_entry \<Rightarrow> bool" where "is_dead e \<longleftrightarrow> word e AND DEAD \<noteq> 0"

definition entry_ok :: "'p tok_entry \<Rightarrow> bool" where
  "entry_ok e \<longleftrightarrow>
     (\<exists>c d k. c \<le> MAX_COUNT \<and> word e = mk c d k) \<and> (is_taken e \<longleftrightarrow> (\<exists>p. holder e = Holder_thread p))"

lemma entry_word:
  assumes "entry_ok e"
  shows "word e = mk (cnt e) (is_dead e) (is_taken e)" and "cnt e \<le> MAX_COUNT"
proof -
  obtain c d k where e: "c \<le> MAX_COUNT" "word e = mk c d k"
    using assms by (auto simp: entry_ok_def)
  then have "cnt e = c" "is_dead e = d" "is_taken e = k"
    using mk_parts [OF e(1)] by (simp_all add: cnt_def is_taken_def is_dead_def)
  then show "word e = mk (cnt e) (is_dead e) (is_taken e)" "cnt e \<le> MAX_COUNT"
    using e by simp_all
qed

lemma entry_mk [simp]:
  assumes "c \<le> MAX_COUNT"
  shows "cnt \<lparr>holder = h, word = mk c d k\<rparr> = c" and "is_taken \<lparr>holder = h, word = mk c d k\<rparr> = k"
    and "is_dead \<lparr>holder = h, word = mk c d k\<rparr> = d"
  using mk_parts [OF assms] by (simp_all add: cnt_def is_taken_def is_dead_def)

lemma entry_ok_mk:
  "c \<le> MAX_COUNT \<Longrightarrow> entry_ok \<lparr>holder = h, word = mk c d k\<rparr> \<longleftrightarrow> k = (\<exists>p. h = Holder_thread p)"
  by (auto simp: entry_ok_def)

lemma entry_fresh: "word e = 0 \<Longrightarrow> cnt e = 0 \<and> \<not> is_taken e \<and> \<not> is_dead e"
  by (simp add: cnt_def is_taken_def is_dead_def)

section \<open>The invariant\<close>

text \<open>The numbers given back, linked through their holders, each named as its successor.\<close>

fun num_chain :: "'p tok_entry list \<Rightarrow> nat \<Rightarrow> nat list \<Rightarrow> bool" where
  "num_chain es h [] \<longleftrightarrow> h = NONE"
| "num_chain es h (i # fl) \<longleftrightarrow>
     h = Suc i \<and> i < length es \<and> (\<exists>n. holder (es ! i) = Holder_next n \<and> num_chain es n fl)"

definition taken_set :: "'p tok_entry list \<Rightarrow> nat set" where
  "taken_set es = {i. i < length es \<and> is_taken (es ! i)}"

definition retired_set :: "'p tok_entry list \<Rightarrow> nat \<Rightarrow> nat set" where
  "retired_set es u = {i. i < u \<and> \<not> is_taken (es ! i) \<and> cnt (es ! i) = MAX_COUNT}"

definition free_set :: "'p tok_entry list \<Rightarrow> nat \<Rightarrow> nat set" where
  "free_set es u = {i. i < u \<and> \<not> is_taken (es ! i) \<and> cnt (es ! i) \<noteq> MAX_COUNT}"

definition tok_rep :: "'p tok_table \<Rightarrow> nat list \<Rightarrow> bool" where
  "tok_rep t fl \<longleftrightarrow>
     length (entries t) \<le> 65536 \<and> used t \<le> length (entries t)
     \<and> (\<forall>e\<in>set (entries t). entry_ok e)
     \<and> (\<forall>i<length (entries t). used t \<le> i \<longrightarrow> word (entries t ! i) = 0)
     \<and> distinct fl \<and> set fl = free_set (entries t) (used t)
     \<and> num_chain (entries t) (first_free t) fl \<and> last_free t = (if fl = [] then NONE else Suc (last fl))
     \<and> taken t = card (taken_set (entries t)) \<and> retired t = card (retired_set (entries t) (used t))"

lemma tok_repD:
  assumes "tok_rep t fl"
  shows "length (entries t) \<le> 65536" and "used t \<le> length (entries t)"
    and "i < length (entries t) \<Longrightarrow> entry_ok (entries t ! i)"
    and "used t \<le> i \<Longrightarrow> i < length (entries t) \<Longrightarrow> word (entries t ! i) = 0"
    and "distinct fl" and "set fl = free_set (entries t) (used t)"
    and "num_chain (entries t) (first_free t) fl" and "last_free t = (if fl = [] then NONE else Suc (last fl))"
    and "taken t = card (taken_set (entries t))" and "retired t = card (retired_set (entries t) (used t))"
  using assms by (auto simp: tok_rep_def)

lemma tok_repI:
  assumes "length (entries t) \<le> 65536" and "used t \<le> length (entries t)"
    and "\<And>i. i < length (entries t) \<Longrightarrow> entry_ok (entries t ! i)"
    and "\<And>i. used t \<le> i \<Longrightarrow> i < length (entries t) \<Longrightarrow> word (entries t ! i) = 0"
    and "distinct fl" and "set fl = free_set (entries t) (used t)"
    and "num_chain (entries t) (first_free t) fl" and "last_free t = (if fl = [] then NONE else Suc (last fl))"
    and "taken t = card (taken_set (entries t))" and "retired t = card (retired_set (entries t) (used t))"
  shows "tok_rep t fl"
  using assms by (auto simp: tok_rep_def in_set_conv_nth)

lemma num_chain_update:
  assumes "num_chain es h fl" and "i \<notin> set fl \<or> holder e = holder (es ! i)"
  shows "num_chain (es[i := e]) h fl"
  using assms
proof (induction fl arbitrary: h)
  case (Cons j fl)
  then obtain n where n: "holder (es ! j) = Holder_next n" "num_chain es n fl" "h = Suc j" "j < length es"
    by auto
  have "num_chain (es[i := e]) n fl"
    using Cons n(2) by auto
  moreover have "holder (es[i := e] ! j) = Holder_next n"
    using n(1,4) Cons.prems(2) by (cases "i = j") auto
  ultimately show ?case
    using n(3,4) by simp
qed simp

lemma num_chain_snoc:
  assumes "num_chain es h fl" and "fl \<noteq> []" and "distinct fl" and "i < length es" and "i \<notin> set fl"
    and "holder (es ! i) = Holder_next NONE"
  shows "num_chain (es[last fl := (es ! last fl)\<lparr>holder := Holder_next (Suc i)\<rparr>]) h (fl @ [i])"
  using assms
proof (induction fl arbitrary: h)
  case (Cons j fl)
  obtain n where n: "holder (es ! j) = Holder_next n" "num_chain es n fl" "h = Suc j" "j < length es"
    using Cons.prems(1) by auto
  show ?case
  proof (cases "fl = []")
    case True
    then show ?thesis
      using n Cons.prems by auto
  next
    case False
    then have "j \<noteq> last fl"
      using Cons.prems(3) by auto
    moreover have "num_chain (es[last fl := (es ! last fl)\<lparr>holder := Holder_next (Suc i)\<rparr>]) n (fl @ [i])"
      using Cons.IH [OF n(2) False] Cons.prems by simp
    ultimately show ?thesis
      using False n by simp
  qed
qed simp

lemma chain_last:
  assumes "num_chain es h fl" and "fl \<noteq> []"
  shows "last fl < length es" and "\<exists>n. holder (es ! last fl) = Holder_next n"
  using assms by (induction fl arbitrary: h) (auto split: if_splits)

lemma finite_sets [simp]: "finite (taken_set es)" "finite (retired_set es u)" "finite (free_set es u)"
  by (simp_all add: taken_set_def retired_set_def free_set_def)

lemma tok_new_rep:
  assumes "tok_new n = Some t"
  shows "tok_rep t []" and "length (entries t) = n"
proof -
  have t: "n \<le> 65536" "entries t = replicate n \<lparr>holder = Holder_next NONE, word = 0\<rparr>" "used t = 0" "first_free t = NONE"
      "last_free t = NONE" "taken t = 0" "retired t = 0"
    using assms by (auto simp: tok_new_def tok_INDEX_BITS_def split: bind_splits)
  have zero: "mk 0 False False = 0" "0 \<le> MAX_COUNT"
    by (simp_all add: mk_def)
  have "entry_ok \<lparr>holder = Holder_next NONE, word = 0\<rparr>"
    using entry_ok_mk [OF zero(2), of "Holder_next NONE" False False] by (simp add: zero(1))
  moreover have "taken_set (entries t) = {}" "retired_set (entries t) 0 = {}" "free_set (entries t) 0 = {}"
    using t by (auto simp: taken_set_def retired_set_def free_set_def entry_fresh)
  ultimately show "tok_rep t []"
    using t by (intro tok_repI) auto
  show "length (entries t) = n"
    using t by simp
qed

section \<open>Calls on a taken number\<close>

lemma taken_entry_rep:
  "taken_entry t i = (if unat i \<in> taken_set (entries t) then Some (entries t ! unat i) else None)"
  by (auto simp: taken_entry_def taken_set_def is_taken_def at_index_def)

lemma taken_holder:
  assumes "tok_rep t fl" and "i \<in> taken_set (entries t)"
  obtains p where "holder (entries t ! i) = Holder_thread p"
  using tok_repD(3) [OF assms(1), of i] assms(2) by (auto simp: entry_ok_def taken_set_def)

text \<open>A change of the count or of the mark of a taken number.\<close>

lemma word_update_rep:
  assumes rep: "tok_rep t fl" and i: "i \<in> taken_set (entries t)" and c: "c \<le> MAX_COUNT"
  shows "tok_rep (t\<lparr>entries := (entries t)[i := (entries t ! i)\<lparr>word := mk c d True\<rparr>]\<rparr>) fl"
    (is "tok_rep (t\<lparr>entries := ?es\<rparr>) fl")
proof -
  let ?e = "(entries t ! i)\<lparr>word := mk c d True\<rparr>"
  obtain p where p: "holder (entries t ! i) = Holder_thread p"
    by (rule taken_holder [OF rep i])
  have len: "i < length (entries t)" "is_taken (entries t ! i)"
    using i by (simp_all add: taken_set_def)
  then have u: "i < used t"
    using tok_repD(4) [OF rep, of i] entry_fresh by (metis not_le)
  have e: "?e = \<lparr>holder = Holder_thread p, word = mk c d True\<rparr>"
    using p by simp
  have taken: "is_taken ?e" "entry_ok ?e"
    unfolding e using c by (simp_all add: entry_ok_mk)
  have "i \<notin> set fl"
    using tok_repD(6) [OF rep] len by (auto simp: free_set_def)
  then have chain: "num_chain ?es (first_free t) fl"
    by (intro num_chain_update [OF tok_repD(7) [OF rep]]) simp
  have sets: "taken_set ?es = taken_set (entries t)" "retired_set ?es (used t) = retired_set (entries t) (used t)"
      "free_set ?es (used t) = free_set (entries t) (used t)"
    using len taken(1) by (auto simp: taken_set_def retired_set_def free_set_def nth_list_update)
  show ?thesis
    using tok_repD [OF rep] sets chain taken(2) u len
    by (intro tok_repI) (auto simp: nth_list_update)
qed


lemma accept_rep:
  assumes rep: "tok_rep t fl" and i: "unat i \<in> taken_set (entries t)" and c: "cnt (entries t ! unat i) \<noteq> MAX_COUNT"
  defines "e \<equiv> entries t ! unat i"
  defines "t' \<equiv> t\<lparr>entries := (entries t)[unat i := e\<lparr>word := mk (cnt e + 1) False True\<rparr>]\<rparr>"
  shows "accept t i = Some (push_bit 16 (cnt e + 1) OR ucast i, t')" and "tok_rep t' fl"
proof -
  have len: "unat i < length (entries t)" "is_taken e"
    using i by (simp_all add: taken_set_def e_def)
  note ok = entry_word [OF tok_repD(3) [OF rep len(1), folded e_def]]
  note inc = mk_inc [OF ok(2) c [folded e_def]]
  have "(word e AND NOT DEAD) + 1 = mk (cnt e + 1) False True"
    using ok(1) len(2) inc(1) [of "is_dead e" True] by simp
  moreover have "check_count t i = Some (Inr ())"
    using i c by (simp add: check_count_def taken_entry_rep e_def cnt_def)
  ultimately show "accept t i = Some (push_bit 16 (cnt e + 1) OR ucast i, t')"
    using len(1) mk_parts(1) [OF inc(2)] by (simp add: accept_def t'_def e_def [symmetric] tok_INDEX_BITS_def del: push_bit_and)
  show "tok_rep t' fl"
    unfolding t'_def e_def by (rule word_update_rep [OF rep i inc(2) [unfolded e_def]])
qed

lemma mark_dead_rep:
  assumes rep: "tok_rep t fl" and i: "unat i \<in> taken_set (entries t)"
  defines "e \<equiv> entries t ! unat i"
  defines "t' \<equiv> t\<lparr>entries := (entries t)[unat i := e\<lparr>word := mk (cnt e) True True\<rparr>]\<rparr>"
  shows "mark_dead t i = Some t'" and "tok_rep t' fl"
proof -
  have len: "unat i < length (entries t)" "is_taken e"
    using i by (simp_all add: taken_set_def e_def)
  note ok = entry_word [OF tok_repD(3) [OF rep len(1), folded e_def]]
  have "word e OR DEAD = mk (cnt e) True True"
    using ok(1) len(2) mk_changes(3) [OF ok(2), of "is_dead e" True] by simp
  then show "mark_dead t i = Some t'"
    using i len(1) by (simp add: mark_dead_def taken_entry_rep t'_def e_def [symmetric])
  show "tok_rep t' fl"
    unfolding t'_def e_def by (rule word_update_rep [OF rep i ok(2) [unfolded e_def]])
qed

lemma skip_to_rep:
  assumes rep: "tok_rep t fl" and i: "unat i \<in> taken_set (entries t)"
    and c: "cnt (entries t ! unat i) \<le> c" "c \<le> MAX_COUNT"
  defines "t' \<equiv> t\<lparr>entries := (entries t)[unat i := (entries t ! unat i)\<lparr>word := mk c False True\<rparr>]\<rparr>"
  shows "skip_to t i c = Some t'" and "tok_rep t' fl"
proof -
  have len: "unat i < length (entries t)"
    using i by (simp add: taken_set_def)
  show "skip_to t i c = Some t'"
    using i len c mk_changes(4) [OF c(2)] by (simp add: skip_to_def taken_entry_rep t'_def cnt_def)
  show "tok_rep t' fl"
    unfolding t'_def by (rule word_update_rep [OF rep i c(2)])
qed

section \<open>Numbers given out and given back\<close>

lemma alloc_index_rep:
  assumes rep: "tok_rep t fl"
  obtains (full) "alloc_index t = Some (Inl LimitReached, t)" and "fl = []" and "used t = length (entries t)"
  | (chosen) i t' fl' where "alloc_index t = Some (Inr i, t')" and "i < length (entries t)"
      and "\<not> is_taken (entries t ! i)" and "cnt (entries t ! i) \<noteq> MAX_COUNT"
      and "i = used t \<and> used t' = Suc (used t) \<and> fl' = fl \<or> fl = i # fl' \<and> used t' = used t \<and> used t = length (entries t)"
      and "entries t' = entries t" and "num_chain (entries t) (first_free t') fl'"
      and "last_free t' = (if fl' = [] then NONE else Suc (last fl'))"
      and "taken t' = taken t" and "retired t' = retired t"
proof (cases "used t < length (entries t)")
  case True
  let ?e = "entries t ! used t"
  have e: "\<not> is_taken ?e" "cnt ?e = 0"
    using entry_fresh [OF tok_repD(4) [OF rep order_refl True]] by simp_all
  moreover have "(0 :: u64) \<noteq> MAX_COUNT"
    by (simp add: MAX_COUNT_mask mask_eq_exp_minus_1)
  ultimately show ?thesis
    using chosen [of "used t" "t\<lparr>used := used t + 1\<rparr>" fl] True tok_repD(7,8) [OF rep]
    by (simp add: alloc_index_def)
next
  case False
  then have u: "used t = length (entries t)"
    using tok_repD(2) [OF rep] by simp
  show ?thesis
  proof (cases fl)
    case Nil
    then show ?thesis
      using full u tok_repD(7) [OF rep] by (simp add: alloc_index_def)
  next
    case (Cons i fl')
    then obtain n where n: "first_free t = Suc i" "i < length (entries t)" "holder (entries t ! i) = Holder_next n"
        "num_chain (entries t) n fl'"
      using tok_repD(7) [OF rep] by auto
    have i: "\<not> is_taken (entries t ! i)" "cnt (entries t ! i) \<noteq> MAX_COUNT"
      using tok_repD(6) [OF rep] Cons by (auto simp: free_set_def)
    let ?t = "if n = NONE then t\<lparr>first_free := n, last_free := NONE\<rparr> else t\<lparr>first_free := n\<rparr>"
    have "alloc_index t = Some (Inr i, ?t)"
      using n u by (simp add: alloc_index_def NONE_def)
    moreover have "n = NONE \<longleftrightarrow> fl' = []"
      using n(4) by (cases fl') (auto simp: NONE_def)
    ultimately show ?thesis
      using chosen [of i ?t fl'] n(2,4) i Cons u tok_repD(8) [OF rep] by (cases "fl' = []") auto
  qed
qed

lemma sets_update:
  assumes "is_taken e" and "i < length es" and "\<And>j. j < u' \<longleftrightarrow> j < u \<or> j = i"
  shows "free_set (es[i := e]) u' = free_set es u - {i}" and "retired_set (es[i := e]) u' = retired_set es u - {i}"
    and "taken_set (es[i := e]) = insert i (taken_set es)"
proof -
  have "j \<in> free_set (es[i := e]) u' \<longleftrightarrow> j \<in> free_set es u - {i}" for j
    using assms by (cases "j = i") (auto simp: free_set_def)
  then show "free_set (es[i := e]) u' = free_set es u - {i}"
    by blast
  have "j \<in> retired_set (es[i := e]) u' \<longleftrightarrow> j \<in> retired_set es u - {i}" for j
    using assms by (cases "j = i") (auto simp: retired_set_def)
  then show "retired_set (es[i := e]) u' = retired_set es u - {i}"
    by blast
  have "j \<in> taken_set (es[i := e]) \<longleftrightarrow> j \<in> insert i (taken_set es)" for j
    using assms(1,2) by (cases "j = i") (auto simp: taken_set_def)
  then show "taken_set (es[i := e]) = insert i (taken_set es)"
    by blast
qed

lemma alloc_rep:
  assumes rep: "tok_rep t fl"
  obtains (full) "tok_alloc t p = Some (Inl LimitReached, t)" and "fl = []" and "used t = length (entries t)"
  | (ok) i t' fl' where "tok_alloc t p = Some (Inr (of_nat i), t')" and "tok_rep t' fl'"
      and "i < length (entries t)" and "i < 65536" and "i \<notin> taken_set (entries t)"
      and "entries t' = (entries t)[i := \<lparr>holder = Holder_thread p, word = mk (cnt (entries t ! i)) False True\<rparr>]"
proof (rule alloc_index_rep [OF rep])
  assume "alloc_index t = Some (Inl LimitReached, t)" "fl = []" "used t = length (entries t)"
  then show thesis
    using full by (simp add: tok_alloc_def)
next
  fix i t1 fl'
  assume call: "alloc_index t = Some (Inr i, t1)" and i: "i < length (entries t)" "\<not> is_taken (entries t ! i)"
      "cnt (entries t ! i) \<noteq> MAX_COUNT"
    and choice: "i = used t \<and> used t1 = Suc (used t) \<and> fl' = fl \<or> fl = i # fl' \<and> used t1 = used t \<and> used t = length (entries t)"
    and t1: "entries t1 = entries t" "num_chain (entries t) (first_free t1) fl'"
      "last_free t1 = (if fl' = [] then NONE else Suc (last fl'))" "taken t1 = taken t" "retired t1 = retired t"
  let ?c = "cnt (entries t ! i)"
  let ?e = "\<lparr>holder = Holder_thread p, word = mk ?c False True\<rparr>"
  let ?es = "(entries t)[i := ?e]"
  let ?t = "t1\<lparr>entries := ?es, taken := taken t1 + 1\<rparr>"
  note wd = entry_word [OF tok_repD(3) [OF rep i(1)]]
  have e: "entry_ok ?e" "is_taken ?e"
    using wd(2) by (simp_all add: entry_ok_mk)
  have "tok_alloc t p = Some (Inr (of_nat i), ?t)"
    using call i(1) t1(1) wd(1) mk_changes(1) [OF wd(2)] by (simp add: tok_alloc_def)
  moreover have "tok_rep ?t fl'"
  proof (rule tok_repI)
    have in_fl: "fl = i # fl' \<Longrightarrow> i < used t"
      using tok_repD(6) [OF rep] by (auto simp: free_set_def)
    have u: "used t1 \<le> length (entries t)" "\<And>j. j < used t1 \<longleftrightarrow> j < used t \<or> j = i"
      using choice i(1) tok_repD(2) [OF rep] in_fl by auto
    show "used ?t \<le> length (entries ?t)"
      using u(1) by simp
    show "word (entries ?t ! j) = 0" if "used ?t \<le> j" "j < length (entries ?t)" for j
    proof -
      have "j \<noteq> i" "used t \<le> j"
        using that(1) u(2) [of j] by auto
      then show ?thesis
        using that(2) tok_repD(4) [OF rep, of j] by simp
    qed
    note sets = sets_update [OF e(2) i(1) u(2)]
    have "i = used t \<and> fl' = fl \<or> fl = i # fl'"
      using choice by blast
    moreover have "used t \<notin> set fl"
      unfolding tok_repD(6) [OF rep] by (simp add: free_set_def)
    ultimately have fl': "set fl' = set fl - {i}"
      using tok_repD(5) [OF rep] by auto
    then show "set fl' = free_set (entries ?t) (used ?t)"
      using sets(1) tok_repD(6) [OF rep] by simp
    have "i \<notin> set fl'"
      using fl' by simp
    then show "num_chain (entries ?t) (first_free ?t) fl'"
      using num_chain_update [OF t1(2)] by simp
    have "i \<notin> taken_set (entries t)"
      using i by (simp add: taken_set_def)
    then show "taken ?t = card (taken_set (entries ?t))"
      using t1(4) tok_repD(9) [OF rep] sets(3) by simp
    have "i \<notin> retired_set (entries t) (used t)"
      using i(3) by (simp add: retired_set_def)
    then show "retired ?t = card (retired_set (entries ?t) (used ?t))"
      using t1(5) tok_repD(10) [OF rep] sets(2) by simp
    show "entry_ok (entries ?t ! j)" if "j < length (entries ?t)" for j
      using that e(1) tok_repD(3) [OF rep, of j] by (cases "j = i") simp_all
    show "distinct fl'"
      using choice tok_repD(5) [OF rep] by auto
  qed (use t1(3) tok_repD(1) [OF rep] in simp_all)
  ultimately show thesis
    using ok [of i ?t fl'] i tok_repD(1) [OF rep] by (simp add: taken_set_def)
qed


lemma free_entry_rep:
  assumes rep: "tok_rep t fl" and i: "i \<in> taken_set (entries t)" and e: "e = entries t ! i"
  defines "es \<equiv> (entries t)[i := \<lparr>holder = Holder_next NONE, word = mk (cnt e) (is_dead e) False\<rparr>]"
  shows "taken_set es = taken_set (entries t) - {i}" and "i < used t" and "i \<notin> set fl"
    and "free_set es (used t) = (if cnt e = MAX_COUNT then set fl else insert i (set fl))"
    and "retired_set es (used t) = (if cnt e = MAX_COUNT then insert i (retired_set (entries t) (used t))
      else retired_set (entries t) (used t))"
    and "i \<notin> retired_set (entries t) (used t)"
    and "num_chain es (first_free t) fl"
    and "\<And>j. j < length es \<Longrightarrow> entry_ok (es ! j)"
    and "\<And>j. used t \<le> j \<Longrightarrow> j < length es \<Longrightarrow> word (es ! j) = 0"
proof -
  have len: "i < length (entries t)" "is_taken e"
    using i e by (simp_all add: taken_set_def)
  note ok = entry_word [OF tok_repD(3) [OF rep len(1), folded e]]
  let ?e = "\<lparr>holder = Holder_next NONE, word = mk (cnt e) (is_dead e) False\<rparr> :: 'a tok_entry"
  have new: "\<not> is_taken ?e" "cnt ?e = cnt e" "entry_ok ?e"
    using ok(2) by (simp_all add: entry_ok_mk)
  show u: "i < used t"
    using tok_repD(4) [OF rep, of i] len entry_fresh e by (metis not_le)
  show out: "i \<notin> set fl"
    using tok_repD(6) [OF rep] len(2) e by (simp add: free_set_def)
  show "i \<notin> retired_set (entries t) (used t)"
    using len(2) e by (simp add: retired_set_def)
  have same: "length es = length (entries t)"
    by (simp add: es_def)
  have nth: "es ! j = (if j = i then ?e else entries t ! j)" if "j < length (entries t)" for j
    using that len(1) by (simp add: es_def nth_list_update)
  show "taken_set es = taken_set (entries t) - {i}"
    using nth new(1) by (auto simp: taken_set_def same split: if_splits)
  have taken: "is_taken (entries t ! i)"
    using len(2) e by simp
  have below: "j < length (entries t)" if "j < used t" for j
    using that tok_repD(2) [OF rep] by simp
  show "free_set es (used t) = (if cnt e = MAX_COUNT then set fl else insert i (set fl))"
    unfolding tok_repD(6) [OF rep]
  proof (rule set_eqI)
    show "j \<in> free_set es (used t) \<longleftrightarrow> j \<in> (if cnt e = MAX_COUNT then free_set (entries t) (used t)
        else insert i (free_set (entries t) (used t)))" for j
      using nth [OF below, of j] new(1,2) u taken by (cases "j = i") (simp_all add: free_set_def cong: conj_cong)
  qed
  show "retired_set es (used t) = (if cnt e = MAX_COUNT then insert i (retired_set (entries t) (used t))
      else retired_set (entries t) (used t))"
  proof (rule set_eqI)
    show "j \<in> retired_set es (used t) \<longleftrightarrow> j \<in> (if cnt e = MAX_COUNT then insert i (retired_set (entries t) (used t))
        else retired_set (entries t) (used t))" for j
      using nth [OF below, of j] new(1,2) u taken by (cases "j = i") (simp_all add: retired_set_def cong: conj_cong)
  qed
  show "num_chain es (first_free t) fl"
    unfolding es_def using out by (intro num_chain_update [OF tok_repD(7) [OF rep]]) simp
  show "entry_ok (es ! j)" if "j < length es" for j
    using that nth [of j] new(3) tok_repD(3) [OF rep, of j] by (simp add: same)
  show "word (es ! j) = 0" if "used t \<le> j" "j < length es" for j
    using that nth [of j] u tok_repD(4) [OF rep, of j] by (auto simp: same)
qed


lemma sets_same_words:
  assumes "length es' = length es" and "\<And>j. j < length es \<Longrightarrow> word (es' ! j) = word (es ! j)" and "u \<le> length es"
  shows "taken_set es' = taken_set es" and "free_set es' u = free_set es u" and "retired_set es' u = retired_set es u"
proof -
  have same: "is_taken (es' ! j) = is_taken (es ! j)" "cnt (es' ! j) = cnt (es ! j)" if "j < length es" for j
    using assms(2) [OF that] by (simp_all add: is_taken_def cnt_def)
  show "taken_set es' = taken_set es"
    using same assms(1) by (auto simp: taken_set_def)
  have "j < length es" if "j < u" for j
    using that assms(3) by simp
  then show "free_set es' u = free_set es u" "retired_set es' u = retired_set es u"
    using same by (auto simp: free_set_def retired_set_def)
qed

definition freed :: "'p tok_table \<Rightarrow> nat \<Rightarrow> 'p tok_table \<Rightarrow> bool" where
  "freed t i t' \<longleftrightarrow>
     length (entries t') = length (entries t)
     \<and> (\<forall>j<length (entries t). word (entries t' ! j) =
          (if j = i then mk (cnt (entries t ! i)) (is_dead (entries t ! i)) False else word (entries t ! j)))
     \<and> (\<forall>j\<in>taken_set (entries t'). holder (entries t' ! j) = holder (entries t ! j))"

text \<open>The link of a number behind the last one given back.\<close>

lemma append_number:
  assumes t: "length (entries t) \<le> 65536" "used t \<le> length (entries t)"
      "\<And>j. j < length (entries t) \<Longrightarrow> entry_ok (entries t ! j)"
      "\<And>j. used t \<le> j \<Longrightarrow> j < length (entries t) \<Longrightarrow> word (entries t ! j) = 0"
      "taken t = card (taken_set (entries t))" "retired t = card (retired_set (entries t) (used t))"
    and fl: "fl \<noteq> []" "distinct fl" "i \<notin> set fl" "free_set (entries t) (used t) = insert i (set fl)"
      "num_chain (entries t) (first_free t) fl" "last_free t = Suc (last fl)"
    and i: "i < length (entries t)" "holder (entries t ! i) = Holder_next NONE"
  defines "es' \<equiv> (entries t)[last fl := (entries t ! last fl)\<lparr>holder := Holder_next (Suc i)\<rparr>]"
  shows "tok_rep (t\<lparr>entries := es', last_free := i + 1\<rparr>) (fl @ [i])" and "last fl < length (entries t)"
    and "\<And>j. j < length (entries t) \<Longrightarrow> word (es' ! j) = word (entries t ! j)"
    and "taken_set es' = taken_set (entries t)"
    and "\<And>j. j \<in> taken_set es' \<Longrightarrow> holder (es' ! j) = holder (entries t ! j)"
proof -
  let ?l = "last fl" and ?es = "entries t"
  show l: "?l < length ?es"
    by (rule chain_last(1) [OF fl(5,1)])
  have free: "\<not> is_taken (?es ! ?l)"
    using fl(1,4) by (metis (mono_tags, lifting) free_set_def insertI2 last_in_set mem_Collect_eq)
  have len': "length es' = length ?es"
    by (simp add: es'_def)
  show word': "word (es' ! j) = word (?es ! j)" if "j < length ?es" for j
    using that by (cases "j = ?l") (simp_all add: es'_def)
  have sets: "taken_set es' = taken_set ?es" "free_set es' (used t) = free_set ?es (used t)"
      "retired_set es' (used t) = retired_set ?es (used t)"
    using sets_same_words [OF len' word' t(2)] by simp_all
  show "taken_set es' = taken_set ?es"
    by (rule sets(1))
  show "holder (es' ! j) = holder (?es ! j)" if "j \<in> taken_set es'" for j
  proof (cases "j = ?l")
    case True
    have "j \<in> taken_set ?es"
      using that sets(1) by metis
    then show ?thesis
      using True free by (simp add: taken_set_def)
  qed (simp add: es'_def)
  have "entry_ok (es' ! ?l)"
    using t(3) [OF l] free l by (simp add: entry_ok_def es'_def is_taken_def)
  then have "entry_ok (es' ! j)" if "j < length es'" for j
    using that t(3) [of j] len' by (cases "j = ?l") (simp_all add: es'_def)
  moreover have "num_chain es' (first_free t) (fl @ [i])"
    unfolding es'_def by (rule num_chain_snoc [OF fl(5,1,2) i(1) fl(3) i(2)])
  moreover have "set (fl @ [i]) = free_set es' (used t)"
    unfolding sets fl(4) by simp
  ultimately show "tok_rep (t\<lparr>entries := es', last_free := i + 1\<rparr>) (fl @ [i])"
    using sets t word' len' fl(2,3) by (intro tok_repI) simp_all
qed

lemma free_rep:
  assumes rep: "tok_rep t fl" and i: "unat i \<in> taken_set (entries t)"
  obtains t' fl' where "tok_free t i = Some t'" and "tok_rep t' fl'" and "freed t (unat i) t'"
proof -
  define e where "e = entries t ! unat i"
  define e' :: "'a tok_entry" where "e' = \<lparr>holder = Holder_next NONE, word = mk (cnt e) (is_dead e) False\<rparr>"
  define es where "es = (entries t)[unat i := e']"
  note fe = free_entry_rep [OF rep i e_def, folded e'_def es_def]
  have len: "unat i < length (entries t)" "is_taken e" "length es = length (entries t)" "es ! unat i = e'"
    using i by (simp_all add: taken_set_def e_def es_def)
  note ok = entry_word [OF tok_repD(3) [OF rep len(1), folded e_def]]
  have e': "\<lparr>holder = Holder_next NONE, word = word e AND NOT TAKEN\<rparr> = e'" "(word e AND NOT TAKEN) AND MAX_COUNT = cnt e"
    using ok(1) mk_changes(2) [OF ok(2)] mk_parts(1) [OF ok(2)] by (simp_all add: e'_def)
  let ?t = "t\<lparr>entries := es, taken := taken t - 1\<rparr>"
  have taken: "taken t - 1 = card (taken_set es)"
    using fe(1) i tok_repD(9) [OF rep] by simp
  have u: "used t \<le> length es"
    using tok_repD(2) [OF rep] len(3) by simp
  have words: "word (es ! j) = (if j = unat i then mk (cnt e) (is_dead e) False else word (entries t ! j))"
      "j \<noteq> unat i \<Longrightarrow> es ! j = entries t ! j" if "j < length (entries t)" for j
    using that by (simp_all add: es_def e'_def nth_list_update)
  have freed: "freed t (unat i) t'" if "entries t' = es" for t'
    using that fe(1) words len(3) by (auto simp: freed_def e_def taken_set_def)
  have call: "tok_free t i =
      (if cnt e = MAX_COUNT then Some (?t\<lparr>retired := retired t + 1\<rparr>)
       else if last_free t = NONE then Some (?t\<lparr>first_free := unat i + 1, last_free := unat i + 1\<rparr>)
       else do {
         l \<leftarrow> at_index es (last_free t - 1);
         es \<leftarrow> set_index es (last_free t - 1) (l\<lparr>holder := Holder_next (unat i + 1)\<rparr>);
         Some (?t\<lparr>entries := es, last_free := unat i + 1\<rparr>) })"
    using i len(1) e' by (simp add: tok_free_def taken_entry_rep e_def [symmetric] es_def Let_def)
  show ?thesis
  proof (cases "cnt e = MAX_COUNT")
    case True
    let ?t' = "?t\<lparr>retired := retired t + 1\<rparr>"
    have "tok_rep ?t' fl"
      using True fe taken u len(3) tok_repD(1,5,8,10) [OF rep] by (intro tok_repI) simp_all
    then show ?thesis
      using that [of ?t' fl] call True freed [of ?t'] by simp
  next
    case live: False
    show ?thesis
    proof (cases "fl = []")
      case True
      let ?t' = "?t\<lparr>first_free := unat i + 1, last_free := unat i + 1\<rparr>"
      have "tok_rep ?t' [unat i]"
        using True live fe taken u len tok_repD(1,10) [OF rep] by (intro tok_repI) (simp_all add: e'_def)
      moreover have "last_free t = NONE"
        using True tok_repD(8) [OF rep] by simp
      ultimately show ?thesis
        using that [of ?t' "[unat i]"] call live freed [of ?t'] by simp
    next
      case some: False
      let ?l = "last fl"
      let ?es' = "es[?l := (es ! ?l)\<lparr>holder := Holder_next (Suc (unat i))\<rparr>]"
      let ?t' = "?t\<lparr>entries := ?es', last_free := unat i + 1\<rparr>"
      have last: "last_free t = Suc ?l"
        using tok_repD(8) [OF rep] some by simp
      have app: "tok_rep ?t' (fl @ [unat i])" "?l < length es"
          "\<And>j. j < length es \<Longrightarrow> word (?es' ! j) = word (es ! j)" "taken_set ?es' = taken_set es"
          "\<And>j. j \<in> taken_set ?es' \<Longrightarrow> holder (?es' ! j) = holder (es ! j)"
        using append_number [of ?t fl "unat i"] fe(3,4,5,7,8,9) live some taken u last len tok_repD(1,5,10) [OF rep]
        by (simp_all add: e'_def)
      have "tok_free t i = Some ?t'"
        using call live app(2) last by (simp add: NONE_def)
      moreover have "freed t (unat i) ?t'"
      proof -
        have "holder (?es' ! j) = holder (entries t ! j)" if "j \<in> taken_set ?es'" for j
          using app(5) [OF that] that words(2) [of j] unfolding app(4) fe(1) by (simp add: taken_set_def)
        then show ?thesis
          using words(1) app(3) len(3) by (simp add: freed_def e_def)
      qed
      ultimately show ?thesis
        using that [of ?t' "fl @ [unat i]"] app(1) by blast
    qed
  qed
qed

end
