(* ===== verification/Token_Life.thy ===== *)
theory Token_Life
  imports Token_Calls
begin

text \<open>
  The tokens of replies over the life of the table: every run of its calls gives each token out
  once, a token reaches the thread that made its request, and what becomes of a token that was
  abandoned.
\<close>

section \<open>Tokens\<close>

definition tok_index :: "u64 \<Rightarrow> nat" where
  "tok_index tk = unat (tk AND (push_bit tok_INDEX_BITS 1 - 1))"

definition tok_count :: "u64 \<Rightarrow> u64" where
  "tok_count tk = drop_bit tok_INDEX_BITS tk"

lemma token_parts:
  fixes i :: u16
  assumes "c \<le> MAX_COUNT"
  shows "tok_index (push_bit 16 c OR ucast i) = unat i" and "tok_count (push_bit 16 c OR ucast i) = c"
proof -
  have mask: "push_bit tok_INDEX_BITS 1 - 1 = (mask 16 :: u64)"
    by (simp add: tok_INDEX_BITS_def mask_eq_exp_minus_1 push_bit_eq_mult)
  define x :: u64 where "x = push_bit 16 c OR ucast i"
  have bits: "bit x n \<longleftrightarrow> 16 \<le> n \<and> bit c (n - 16) \<or> n < 16 \<and> bit i n" for n
    using count_bits [OF assms, of "n - 16"]
    by (auto simp: x_def bit_or_iff bit_push_bit_iff bit_ucast_iff dest: bit_imp_le_length)
  have "x AND mask 16 = (ucast i :: u64)"
    by (rule bit_word_eqI) (auto simp: bits bit_and_iff bit_mask_iff bit_ucast_iff dest: bit_imp_le_length)
  moreover have "unat (ucast i :: u64) = unat i"
    using unat_below [of i] by (simp add: unsigned_ucast_eq take_bit_nat_eq_self)
  ultimately show "tok_index (push_bit 16 c OR ucast i) = unat i"
    unfolding tok_index_def mask x_def by simp
  have "drop_bit 16 x = c"
    by (rule bit_word_eqI) (simp add: bit_drop_bit_eq bits)
  then show "tok_count (push_bit 16 c OR ucast i) = c"
    by (simp only: tok_count_def tok_INDEX_BITS_def x_def)
qed

section \<open>The life of a table\<close>

text \<open>A table and the tokens it gave out so far, oldest first.\<close>

inductive tok_reachable :: "nat \<Rightarrow> 'p tok_table \<Rightarrow> u64 list \<Rightarrow> bool" for n where
  boot: "tok_new n = Some t \<Longrightarrow> tok_reachable n t []"
| alloc: "tok_reachable n t L \<Longrightarrow> tok_alloc t p = Some (r, t') \<Longrightarrow> tok_reachable n t' L"
| free: "tok_reachable n t L \<Longrightarrow> tok_free t i = Some t' \<Longrightarrow> tok_reachable n t' L"
| accept: "tok_reachable n t L \<Longrightarrow> accept t i = Some (tk, t') \<Longrightarrow> tok_reachable n t' (L @ [tk])"
| mark: "tok_reachable n t L \<Longrightarrow> mark_dead t i = Some t' \<Longrightarrow> tok_reachable n t' L"
| skip: "tok_reachable n t L \<Longrightarrow> skip_to t i c = Some t' \<Longrightarrow> tok_reachable n t' L"

definition counts_grow :: "'p tok_table \<Rightarrow> 'p tok_table \<Rightarrow> bool" where
  "counts_grow t t' \<longleftrightarrow> length (entries t') = length (entries t)
     \<and> (\<forall>j<length (entries t). cnt (entries t ! j) \<le> cnt (entries t' ! j))"

definition tok_log :: "'p tok_table \<Rightarrow> u64 list \<Rightarrow> bool" where
  "tok_log t L \<longleftrightarrow>
     (\<forall>tk\<in>set L. tok_index tk < length (entries t) \<and> 1 \<le> tok_count tk
        \<and> tok_count tk \<le> cnt (entries t ! tok_index tk))
     \<and> sorted_wrt (\<lambda>a b. tok_index a = tok_index b \<longrightarrow> tok_count a < tok_count b) L"

lemma tok_log_grow: "tok_log t L \<Longrightarrow> counts_grow t t' \<Longrightarrow> tok_log t' L"
  unfolding tok_log_def counts_grow_def by (auto intro: order_trans)

lemma grow_update:
  assumes "i < length (entries t)" and "cnt (entries t ! i) \<le> cnt e" and "entries t' = (entries t)[i := e]"
  shows "counts_grow t t'"
  using assms unfolding counts_grow_def by (auto simp: nth_list_update)

text \<open>Only a taken number takes the calls of a thread.\<close>

lemma taken_calls:
  shows "tok_free t i = Some t' \<Longrightarrow> unat i \<in> taken_set (entries t)"
    and "mark_dead t i = Some t' \<Longrightarrow> unat i \<in> taken_set (entries t)"
    and "skip_to t i c = Some t' \<Longrightarrow> unat i \<in> taken_set (entries t) \<and> cnt (entries t ! unat i) \<le> c \<and> c \<le> MAX_COUNT"
    and "accept t i = Some (tk, t') \<Longrightarrow> unat i \<in> taken_set (entries t) \<and> cnt (entries t ! unat i) \<noteq> MAX_COUNT"
proof -
  have some: "unat i \<in> taken_set (entries t)" if "taken_entry t i = Some e" for e
    using that by (simp add: taken_entry_rep split: if_splits)
  show "tok_free t i = Some t' \<Longrightarrow> unat i \<in> taken_set (entries t)" "mark_dead t i = Some t' \<Longrightarrow> unat i \<in> taken_set (entries t)"
    using some by (auto simp: tok_free_def mark_dead_def bind_eq_Some_conv)
  show "skip_to t i c = Some t' \<Longrightarrow> unat i \<in> taken_set (entries t) \<and> cnt (entries t ! unat i) \<le> c \<and> c \<le> MAX_COUNT"
    by (auto simp: skip_to_def taken_entry_rep cnt_def split: if_splits bind_splits)
  show "accept t i = Some (tk, t') \<Longrightarrow> unat i \<in> taken_set (entries t) \<and> cnt (entries t ! unat i) \<noteq> MAX_COUNT"
    by (auto simp: accept_def check_count_def taken_entry_rep cnt_def Let_def bind_eq_Some_conv split: if_splits)
qed

lemma skip_grow:
  assumes rep: "tok_rep t fl" and call: "skip_to t i c = Some t'"
  shows "tok_rep t' fl" and "counts_grow t t'"
proof -
  note pre = taken_calls(3) [OF call]
  then have i: "unat i \<in> taken_set (entries t)" "cnt (entries t ! unat i) \<le> c" "c \<le> MAX_COUNT"
    by simp_all
  note skip = skip_to_rep [OF rep i]
  have t': "t' = t\<lparr>entries := (entries t)[unat i := (entries t ! unat i)\<lparr>word := mk c False True\<rparr>]\<rparr>"
    using call skip(1) by simp
  show "tok_rep t' fl"
    unfolding t' by (rule skip(2))
  have "cnt ((entries t ! unat i)\<lparr>word := mk c False True\<rparr>) = c"
    using mk_parts(1) [OF i(3)] by (simp add: cnt_def)
  then show "counts_grow t t'"
    using i unfolding t' by (intro grow_update) (auto simp: taken_set_def)
qed

lemma mark_grow:
  assumes rep: "tok_rep t fl" and call: "mark_dead t i = Some t'"
  shows "tok_rep t' fl" and "counts_grow t t'"
proof -
  note i = taken_calls(2) [OF call]
  note mark = mark_dead_rep [OF rep i]
  let ?e = "entries t ! unat i"
  have t': "t' = t\<lparr>entries := (entries t)[unat i := ?e\<lparr>word := mk (cnt ?e) True True\<rparr>]\<rparr>"
    using call mark(1) by simp
  show "tok_rep t' fl"
    unfolding t' by (rule mark(2))
  have len: "unat i < length (entries t)"
    using i by (simp add: taken_set_def)
  have "cnt (?e\<lparr>word := mk (cnt ?e) True True\<rparr>) = cnt ?e"
    using mk_parts(1) [OF entry_word(2) [OF tok_repD(3) [OF rep len]]] by (simp add: cnt_def)
  then show "counts_grow t t'"
    using len unfolding t' by (intro grow_update) auto
qed

lemma free_grow:
  assumes rep: "tok_rep t fl" and call: "tok_free t i = Some t'"
  obtains fl' where "tok_rep t' fl'" and "counts_grow t t'"
proof -
  note i = taken_calls(1) [OF call]
  obtain fl' where rep': "tok_rep t' fl'" and freed: "freed t (unat i) t'"
    using free_rep [OF rep i] call by (metis option.inject)
  have "cnt (entries t' ! j) = cnt (entries t ! j)" if "j < length (entries t)" for j
    using freed that mk_parts(1) [OF entry_word(2) [OF tok_repD(3) [OF rep that]]]
    by (auto simp: freed_def cnt_def)
  then show ?thesis
    using that [OF rep'] freed by (simp add: counts_grow_def freed_def)
qed

lemma alloc_grow:
  assumes rep: "tok_rep t fl" and call: "tok_alloc t p = Some (r, t')"
  obtains fl' where "tok_rep t' fl'" and "counts_grow t t'"
proof (rule alloc_rep [OF rep, of p])
  assume "tok_alloc t p = Some (Inl LimitReached, t)"
  then show ?thesis
    using that [of fl] call rep by (simp add: counts_grow_def)
next
  fix i t1 fl'
  assume ok: "tok_alloc t p = Some (Inr (of_nat i), t1)" "tok_rep t1 fl'" "i < length (entries t)"
    "entries t1 = (entries t)[i := \<lparr>holder = Holder_thread p, word = mk (cnt (entries t ! i)) False True\<rparr>]"
  have "counts_grow t t1"
    using ok(3,4) entry_word(2) [OF tok_repD(3) [OF rep ok(3)]] by (intro grow_update) auto
  then show ?thesis
    using that [of fl'] ok(1,2) call by simp
qed

lemma accept_grow:
  assumes rep: "tok_rep t fl" and call: "accept t i = Some (tk, t')" and log: "tok_log t L"
  shows "tok_rep t' fl" and "tok_log t' (L @ [tk])" and "tok_index tk = unat i"
    and "tok_count tk = cnt (entries t' ! unat i)"
    and "entries t' = (entries t)[unat i := (entries t ! unat i)\<lparr>word := mk (cnt (entries t ! unat i) + 1) False True\<rparr>]"
    and "cnt (entries t' ! unat i) \<le> MAX_COUNT" and "unat i \<in> taken_set (entries t)"
proof -
  let ?e = "entries t ! unat i"
  have i: "unat i \<in> taken_set (entries t)" "cnt ?e \<noteq> MAX_COUNT"
    using taken_calls(4) [OF call] by simp_all
  then show "unat i \<in> taken_set (entries t)"
    by simp
  have len: "unat i < length (entries t)"
    using i(1) by (simp add: taken_set_def)
  note acc = accept_rep [OF rep i] and inc = mk_inc [OF entry_word(2) [OF tok_repD(3) [OF rep len]] i(2)]
  have t': "tk = push_bit 16 (cnt ?e + 1) OR ucast i" "t' = t\<lparr>entries := (entries t)[unat i := ?e\<lparr>word := mk (cnt ?e + 1) False True\<rparr>]\<rparr>"
    using call acc(1) by simp_all
  show "tok_rep t' fl" and "entries t' = (entries t)[unat i := ?e\<lparr>word := mk (cnt ?e + 1) False True\<rparr>]"
    unfolding t' using acc(2) by simp_all
  show index: "tok_index tk = unat i"
    unfolding t' by (rule token_parts(1) [OF inc(2)])
  have new: "cnt (entries t' ! unat i) = cnt ?e + 1"
    using len mk_parts(1) [OF inc(2)] unfolding t' by (simp add: cnt_def)
  then show count: "tok_count tk = cnt (entries t' ! unat i)" and "cnt (entries t' ! unat i) \<le> MAX_COUNT"
    unfolding new using token_parts(2) [OF inc(2)] inc(2) by (simp_all add: t'(1))
  have less: "cnt ?e < cnt ?e + 1"
    using inc(3) by (simp add: word_less_nat_alt)
  then have "counts_grow t t'"
    using len new by (intro grow_update [of "unat i" t "?e\<lparr>word := mk (cnt ?e + 1) False True\<rparr>"]) (auto simp: t'(2))
  then have log': "tok_log t' L"
    by (rule tok_log_grow [OF log])
  have older: "tok_count a < tok_count tk" if "a \<in> set L" "tok_index a = tok_index tk" for a
  proof -
    have "tok_count a \<le> cnt (entries t ! tok_index a)"
      using log that(1) by (simp only: tok_log_def)
    then have "tok_count a \<le> cnt ?e"
      unfolding that(2) index .
    then show ?thesis
      using less unfolding count new by (rule le_less_trans)
  qed
  have one: "1 \<le> cnt ?e + 1"
    using inc(3) by (simp add: word_le_nat_alt)
  have "tok_index tk < length (entries t')"
    using len by (simp add: index t'(2))
  moreover have "1 \<le> tok_count tk" "tok_count tk \<le> cnt (entries t' ! tok_index tk)"
    using one by (simp_all add: count index new)
  ultimately show "tok_log t' (L @ [tk])"
    using log' older by (simp add: tok_log_def sorted_wrt_append)
qed

lemma reachable_inv:
  assumes "tok_reachable n t L"
  shows "(\<exists>fl. tok_rep t fl) \<and> tok_log t L \<and> length (entries t) = n"
  using assms
proof (induction rule: tok_reachable.induct)
  case (boot t)
  then show ?case
    using tok_new_rep [OF boot] by (auto simp: tok_log_def)
next
  case (alloc t L p r t')
  then show ?case
    by (metis alloc_grow tok_log_grow counts_grow_def)
next
  case (free t L i t')
  then show ?case
    by (metis free_grow tok_log_grow counts_grow_def)
next
  case (accept t L i tk t')
  then show ?case
    using accept_grow by (metis length_list_update)
next
  case (mark t L i t')
  then show ?case
    by (metis mark_grow tok_log_grow counts_grow_def)
next
  case (skip t L i c t')
  then show ?case
    by (metis skip_grow tok_log_grow counts_grow_def)
qed


lemma tok_check_entry:
  assumes "tok_rep t fl" and "tok_index tk < length (entries t)"
  defines "e \<equiv> entries t ! tok_index tk"
  shows "tok_check t tk =
    (if tok_count tk = 0 \<or> cnt e \<noteq> tok_count tk then Some (Inl BadState)
     else if is_dead e then Some (Inl PeerClosed)
     else if \<not> is_taken e then Some (Inl BadState)
     else map_option Inr (holder_thread (holder e)))"
  using assms(2) unfolding tok_check_def tok_index_def [symmetric] tok_count_def [symmetric] Let_def
  by (simp add: e_def cnt_def is_dead_def is_taken_def)

lemma tok_thread_entry:
  "tok_thread t i = (if unat i \<in> taken_set (entries t)
     then map_option Some (holder_thread (holder (entries t ! unat i))) else Some None)"
  by (auto simp: tok_thread_def taken_set_def is_taken_def Let_def)

lemma tok_thread_taken:
  "tok_thread t i = Some (Some p) \<longleftrightarrow>
     unat i \<in> taken_set (entries t) \<and> holder (entries t ! unat i) = Holder_thread p"
  by (cases "holder (entries t ! unat i)") (auto simp: tok_thread_entry)

lemma numbers_add_up:
  assumes rep: "tok_rep t fl"
  shows "taken t + retired t + length fl = used t"
proof -
  let ?es = "entries t" and ?u = "used t"
  have low: "taken_set ?es \<subseteq> {..<?u}"
  proof
    fix j
    assume "j \<in> taken_set ?es"
    then show "j \<in> {..<?u}"
      using tok_repD(4) [OF rep, of j] entry_fresh [of "?es ! j"] by (auto simp: taken_set_def not_le [symmetric])
  qed
  have "{..<?u} = taken_set ?es \<union> (retired_set ?es ?u \<union> free_set ?es ?u)"
    using low tok_repD(2) [OF rep] by (auto simp: taken_set_def retired_set_def free_set_def)
  moreover have "taken_set ?es \<inter> (retired_set ?es ?u \<union> free_set ?es ?u) = {}" "retired_set ?es ?u \<inter> free_set ?es ?u = {}"
    by (auto simp: taken_set_def retired_set_def free_set_def)
  ultimately have "?u = card (taken_set ?es) + (card (retired_set ?es ?u) + card (free_set ?es ?u))"
    by (metis card_Un_disjoint card_lessThan finite_UnI finite_sets)
  moreover have "card (free_set ?es ?u) = length fl"
    using tok_repD(5,6) [OF rep] by (metis distinct_card)
  ultimately show ?thesis
    using tok_repD(9,10) [OF rep] by simp
qed

lemma available_refusal:
  assumes rep: "tok_rep t fl"
  shows "\<exists>r t'. tok_alloc t p = Some (r, t') \<and> (r = Inl LimitReached \<longleftrightarrow> available t = 0)"
proof (rule alloc_rep [OF rep, of p])
  assume full: "fl = []" "used t = length (entries t)" "tok_alloc t p = Some (Inl LimitReached, t)"
  then show ?thesis
    using numbers_add_up [OF rep] by (simp add: available_def)
next
  fix i t' fl'
  assume ok: "tok_alloc t p = Some (Inr (of_nat i), t')" "tok_rep t' fl'"
    "entries t' = (entries t)[i := \<lparr>holder = Holder_thread p, word = mk (cnt (entries t ! i)) False True\<rparr>]"
  have "taken t' = Suc (taken t)"
    using ok(1) by (auto simp: tok_alloc_def alloc_index_def Let_def split: bind_splits if_splits sum.splits)
  moreover have "retired t' = retired t"
    using ok(1) by (auto simp: tok_alloc_def alloc_index_def Let_def split: bind_splits if_splits sum.splits)
  ultimately have "available t \<noteq> 0"
    using numbers_add_up [OF ok(2)] tok_repD(2) [OF ok(2)] ok(3) by (simp add: available_def)
  then show ?thesis
    using ok(1) by auto
qed

lemma taken_served:
  assumes rep: "tok_rep t fl" and q: "tok_thread t i = Some (Some q)"
  shows "\<exists>t'. tok_free t i = Some t'" and "\<exists>t'. mark_dead t i = Some t'"
    and "\<exists>r. check_count t i = Some r \<and> (r = Inr () \<longleftrightarrow> accept t i \<noteq> None)"
proof -
  have i: "unat i \<in> taken_set (entries t)"
    using q by (simp add: tok_thread_taken)
  show "\<exists>t'. tok_free t i = Some t'" "\<exists>t'. mark_dead t i = Some t'"
    using free_rep [OF rep i] mark_dead_rep(1) [OF rep i] by blast+
  show "\<exists>r. check_count t i = Some r \<and> (r = Inr () \<longleftrightarrow> accept t i \<noteq> None)"
    using i accept_rep(1) [OF rep i] taken_calls(4) [of t i]
    by (auto simp: check_count_def taken_entry_rep cnt_def)
qed

lemma log_distinct: "tok_log t L \<Longrightarrow> distinct L \<and> 0 \<notin> set L"
proof
  assume log: "tok_log t L"
  have "sorted_wrt (\<noteq>) L"
    using log unfolding tok_log_def by (auto elim: sorted_wrt_mono_rel [rotated])
  then show "distinct L"
    by (induction L) auto
  show "0 \<notin> set L"
    using log by (auto simp: tok_log_def tok_count_def)
qed

section \<open>The properties\<close>

text \<open>
  C24. A token is given out once in the life of the system and none is 0, over any calls on the
  table, and the table serves every call it should: a number is refused exactly when none is
  available, and a taken number takes each call of its thread, with one more request accepted
  exactly when the check of its count lets it in.
\<close>

theorem tokens_never_repeat:
  assumes "tok_reachable n t L"
  shows "distinct L \<and> 0 \<notin> set L
    \<and> (\<exists>r t'. tok_alloc t p = Some (r, t') \<and> (r = Inl LimitReached \<longleftrightarrow> available t = 0))
    \<and> (tok_thread t i = Some (Some q) \<longrightarrow>
         (\<exists>t'. tok_free t i = Some t') \<and> (\<exists>t'. mark_dead t i = Some t')
         \<and> (\<exists>r. check_count t i = Some r \<and> (r = Inr () \<longleftrightarrow> accept t i \<noteq> None)))"
proof -
  obtain fl where rep: "tok_rep t fl" and log: "tok_log t L"
    using reachable_inv [OF assms] by blast
  show ?thesis
    using log_distinct [OF log] available_refusal [OF rep] taken_served [OF rep] by blast
qed

text \<open>A table of one number, taken.\<close>

definition demo_taken :: "nat \<Rightarrow> u64 \<Rightarrow> nat tok_table" where
  "demo_taken p w = \<lparr>entries = [\<lparr>holder = Holder_thread p, word = w\<rparr>], used = 1, first_free = NONE,
     last_free = NONE, taken = 1, retired = 0\<rparr>"

definition demo_table :: "nat tok_table" where
  "demo_table = demo_taken 7 (TAKEN OR 1)"

lemma demo_steps:
  defines "t0 \<equiv> \<lparr>entries = [\<lparr>holder = Holder_next NONE, word = 0\<rparr>], used = 0, first_free = NONE,
     last_free = NONE, taken = 0, retired = 0\<rparr> :: nat tok_table"
  defines "t1 \<equiv> demo_taken 7 TAKEN"
  shows "tok_new 1 = Some t0" and "tok_alloc t0 7 = Some (Inr 0, t1)" and "accept t1 0 = Some (65536, demo_table)"
    and "tok_thread t1 0 = Some (Some 7)" and "tok_check demo_table 65536 = Some (Inr 7)"
    and "tok_reachable 1 t1 []" and "tok_reachable 1 demo_table [65536]" and "tok_thread demo_table 0 = Some (Some 7)"
proof -
  show new: "tok_new 1 = Some t0"
    by (simp add: tok_new_def t0_def tok_INDEX_BITS_def)
  show alloc: "tok_alloc t0 7 = Some (Inr 0, t1)"
    by (simp add: tok_alloc_def alloc_index_def t0_def t1_def demo_taken_def at_index_def set_index_def)
  show acc: "accept t1 0 = Some (65536, demo_table)"
    by (simp add: accept_def check_count_def taken_entry_def t1_def demo_table_def demo_taken_def at_index_def set_index_def
        TAKEN_def DEAD_def MAX_COUNT_def tok_INDEX_BITS_def)
  show "tok_thread t1 0 = Some (Some 7)" "tok_thread demo_table 0 = Some (Some 7)" "tok_check demo_table 65536 = Some (Inr 7)"
    by (simp_all add: tok_thread_def tok_check_def t1_def demo_table_def demo_taken_def TAKEN_def DEAD_def MAX_COUNT_def
        tok_INDEX_BITS_def)
  show "tok_reachable 1 t1 []" "tok_reachable 1 demo_table [65536]"
    using tok_reachable.intros(1) [OF new] tok_reachable.intros(2) [OF _ alloc] tok_reachable.intros(4) [OF _ acc]
    by fastforce+
qed

theorem tokens_never_repeat_witness:
  "tok_reachable 1 demo_table [65536] \<and> tok_thread demo_table 0 = Some (Some 7)
    \<and> distinct [65536 :: u64] \<and> (\<exists>t'. tok_free demo_table 0 = Some t')"
  using demo_steps(7,8) tokens_never_repeat [OF demo_steps(7), of 9 0 7] by simp

lemma checks:
  assumes "tok_rep t fl" and "tok_index tk < length (entries t)" and "1 \<le> tok_count tk"
  defines "e \<equiv> entries t ! tok_index tk"
  shows "cnt e \<noteq> tok_count tk \<Longrightarrow> tok_check t tk = Some (Inl BadState)"
    and "cnt e = tok_count tk \<Longrightarrow> is_dead e \<Longrightarrow> tok_check t tk = Some (Inl PeerClosed)"
    and "cnt e = tok_count tk \<Longrightarrow> \<not> is_dead e \<Longrightarrow> is_taken e \<Longrightarrow> holder e = Holder_thread p \<Longrightarrow>
      tok_check t tk = Some (Inr p)"
  using assms(3) by (auto simp: tok_check_entry [OF assms(1,2)] e_def)

text \<open>A thread that abandons a request, and goes.\<close>

lemma abandoned:
  assumes rep: "tok_rep t fl" and i: "unat i \<in> taken_set (entries t)" and tk: "tok_index tk = unat i" "1 \<le> tok_count tk"
    "tok_count tk = cnt (entries t ! unat i)"
  shows "\<exists>t2 t3. mark_dead t i = Some t2 \<and> tok_check t2 tk = Some (Inl PeerClosed)
         \<and> tok_free t2 i = Some t3 \<and> tok_check t3 tk = Some (Inl PeerClosed)"
proof -
  let ?e = "entries t ! unat i"
  note mark = mark_dead_rep [OF rep i]
  obtain p where p: "holder ?e = Holder_thread p"
    by (rule taken_holder [OF rep i])
  have len: "unat i < length (entries t)"
    using i by (simp add: taken_set_def)
  note c = entry_word(2) [OF tok_repD(3) [OF rep len]]
  let ?e2 = "\<lparr>holder = Holder_thread p, word = mk (cnt ?e) True True\<rparr>"
  have upd: "?e\<lparr>word := mk (cnt ?e) True True\<rparr> = ?e2"
    using p by simp
  define t2 where "t2 = t\<lparr>entries := (entries t)[unat i := ?e2]\<rparr>"
  have rep2: "mark_dead t i = Some t2" "tok_rep t2 fl"
    using mark unfolding upd t2_def by simp_all
  have e2: "entries t2 ! unat i = ?e2" "unat i < length (entries t2)"
    using len by (simp_all add: t2_def)
  then have i2: "unat i \<in> taken_set (entries t2)"
    using c by (simp add: taken_set_def)
  obtain t3 fl3 where t3: "tok_free t2 i = Some t3" "tok_rep t3 fl3" "freed t2 (unat i) t3"
    using free_rep [OF rep2(2) i2] by blast
  have e3: "word (entries t3 ! unat i) = mk (cnt ?e) True False" "unat i < length (entries t3)"
    using t3(3) e2 c by (auto simp: freed_def)
  have "tok_check t2 tk = Some (Inl PeerClosed)"
    using e2 c tk by (intro checks(2) [OF rep2(2)]) simp_all
  moreover have "tok_check t3 tk = Some (Inl PeerClosed)"
    using e3 mk_parts [OF c] tk by (intro checks(2) [OF t3(2)]) (simp_all add: cnt_def is_dead_def)
  ultimately show ?thesis
    using rep2(1) t3(1) by blast
qed

text \<open>
  C25. The token of a request names the thread that made it while that request is the last one
  its number gave; the tokens accepted before it on the number are \<open>BAD_STATE\<close>, and once the
  thread abandons the request the token is \<open>PEER_CLOSED\<close>, also after the number came back.
\<close>

theorem reply_names_requester:
  assumes "tok_reachable n t L" and "accept t i = Some (tk, t')"
  shows "\<exists>p. tok_thread t i = Some (Some p) \<and> tok_check t' tk = Some (Inr p) \<and> last_token t' i = Some tk
    \<and> (\<forall>old\<in>set L. tok_index old = unat i \<longrightarrow> tok_check t' old = Some (Inl BadState))
    \<and> (\<exists>t2 t3. mark_dead t' i = Some t2 \<and> tok_check t2 tk = Some (Inl PeerClosed)
         \<and> tok_free t2 i = Some t3 \<and> tok_check t3 tk = Some (Inl PeerClosed))"
proof -
  obtain fl where rep: "tok_rep t fl" and log: "tok_log t L"
    using reachable_inv [OF assms(1)] by blast
  note acc = accept_grow [OF rep assms(2) log]
  let ?c = "cnt (entries t ! unat i) + 1"
  obtain p where p: "holder (entries t ! unat i) = Holder_thread p"
    by (rule taken_holder [OF rep acc(7)])
  have len: "unat i < length (entries t)" "length (entries t') = length (entries t)"
    using acc(5,7) by (simp_all add: taken_set_def)
  have e: "entries t' ! unat i = \<lparr>holder = Holder_thread p, word = mk ?c False True\<rparr>"
    using acc(5) len p by simp
  have c: "?c \<le> MAX_COUNT"
    using mk_inc(2) [OF entry_word(2) [OF tok_repD(3) [OF rep len(1)]]] taken_calls(4) [OF assms(2)] by simp
  have tk: "tok_count tk = ?c" "1 \<le> tok_count tk" "tok_index tk < length (entries t')"
    using acc(2,3,4) e c len by (simp_all add: tok_log_def)
  have i': "unat i \<in> taken_set (entries t')"
    using len e c by (simp add: taken_set_def)
  have "tok_thread t i = Some (Some p)"
    using acc(7) p by (simp add: tok_thread_taken)
  moreover have "tok_check t' tk = Some (Inr p)"
    using tk e c acc(3) by (intro checks(3) [OF acc(1)]) simp_all
  moreover have "last_token t' i = Some tk"
  proof -
    have "tk = push_bit 16 ?c OR ucast i"
      using accept_rep(1) [OF rep acc(7)] taken_calls(4) [OF assms(2)] assms(2) by simp
    moreover have "?c \<noteq> 0"
      using tk(1,2) by auto
    ultimately show ?thesis
      using i' e mk_parts(1) [OF c] by (simp add: last_token_def taken_entry_rep tok_INDEX_BITS_def)
  qed
  moreover have "tok_check t' old = Some (Inl BadState)" if "old \<in> set L" "tok_index old = unat i" for old
  proof (rule checks(1) [OF acc(1)])
    have "tok_count old < tok_count tk" "1 \<le> tok_count old"
      using acc(2,3) that by (auto simp: tok_log_def sorted_wrt_append)
    then show "1 \<le> tok_count old" "cnt (entries t' ! tok_index old) \<noteq> tok_count old" "tok_index old < length (entries t')"
      using that tk(1) e c len by simp_all
  qed
  moreover note abandoned [OF acc(1) i' acc(3) tk(2) acc(4)]
  ultimately show ?thesis
    by blast
qed

theorem reply_names_requester_witness:
  "\<exists>t p. accept t 0 = Some (65536, demo_table) \<and> tok_thread t 0 = Some (Some p)
    \<and> tok_check demo_table 65536 = Some (Inr p)"
  using demo_steps(3) reply_names_requester [OF demo_steps(6) demo_steps(3)] by (elim exE conjE) (intro exI conjI)

text \<open>
  C26. A reused number brings an abandoned token back to life: after the thread that abandoned the
  request went and the next thread took the number, the token of the abandoned request is not
  \<open>BAD_STATE\<close> but names the new thread, which made no request.
\<close>

theorem reused_number_revives_token:
  assumes "tok_reachable n t L" and "accept t i = Some (tk, t1)" and "mark_dead t1 i = Some t2"
    and "tok_free t2 i = Some t3" and "tok_alloc t3 q = Some (Inr i, t4)"
  shows "tok_check t4 tk = Some (Inr q)"
proof -
  obtain fl where rep: "tok_rep t fl" and log: "tok_log t L"
    using reachable_inv [OF assms(1)] by blast
  note acc = accept_grow [OF rep assms(2) log]
  note rep2 = mark_grow(1) [OF acc(1) assms(3)]
  have len: "unat i < length (entries t1)" "1 \<le> tok_count tk"
    using acc(2,3) by (simp_all add: tok_log_def)
  have "cnt (entries t2 ! unat i) = cnt (entries t1 ! unat i)" "length (entries t2) = length (entries t1)"
    using mark_dead_rep(1) [OF acc(1) taken_calls(2) [OF assms(3)]] assms(3) len mk_parts(1) [OF acc(6)]
    by (auto simp: cnt_def)
  moreover obtain fl3 where rep3: "tok_rep t3 fl3" and freed: "freed t2 (unat i) t3"
    using free_rep [OF rep2 taken_calls(1) [OF assms(4)]] assms(4) by (metis option.inject)
  ultimately have c3: "cnt (entries t3 ! unat i) = tok_count tk" and len3: "length (entries t3) = length (entries t1)"
    using mk_parts(1) [OF acc(6)] acc(4) len(1) by (simp_all add: freed_def cnt_def)
  show ?thesis
  proof (rule alloc_rep [OF rep3, of q])
    assume "tok_alloc t3 q = Some (Inl LimitReached, t3)"
    then show ?thesis
      using assms(5) by simp
  next
    fix j t' fl'
    assume ok: "tok_alloc t3 q = Some (Inr (of_nat j), t')" "tok_rep t' fl'" "j < length (entries t3)" "j < 65536"
      "entries t' = (entries t3)[j := \<lparr>holder = Holder_thread q, word = mk (cnt (entries t3 ! j)) False True\<rparr>]"
    have t4: "t' = t4" "j = unat i"
      using ok(1,4) assms(5) by (auto simp: unat_of_nat take_bit_nat_eq_self)
    have e: "entries t4 ! unat i = \<lparr>holder = Holder_thread q, word = mk (tok_count tk) False True\<rparr>"
        "length (entries t4) = length (entries t1)"
      using ok(3,5) t4 c3 len3 by simp_all
    have c: "tok_count tk \<le> MAX_COUNT"
      using acc(4,6) by simp
    show ?thesis
      using ok(2) t4(1) e c len acc(3) by (intro checks(3) [of t4 fl']) simp_all
  qed
qed

theorem reused_number_revives_token_witness:
  "mark_dead demo_table 0 = Some (demo_taken 7 (TAKEN OR DEAD OR 1))
    \<and> tok_check (demo_taken 8 (TAKEN OR 1)) 65536 = Some (Inr 8)"
proof
  let ?t2 = "demo_taken 7 (TAKEN OR DEAD OR 1)"
  let ?t3 = "\<lparr>entries = [\<lparr>holder = Holder_next NONE, word = DEAD OR 1\<rparr>], used = 1, first_free = 1, last_free = 1,
    taken = 0, retired = 0\<rparr> :: nat tok_table"
  show mark: "mark_dead demo_table 0 = Some ?t2"
    by (simp add: mark_dead_def taken_entry_def demo_table_def demo_taken_def at_index_def set_index_def TAKEN_def DEAD_def)
  have free: "tok_free ?t2 0 = Some ?t3"
    by (simp add: tok_free_def taken_entry_def demo_taken_def at_index_def set_index_def TAKEN_def DEAD_def MAX_COUNT_def
        tok_INDEX_BITS_def NONE_def)
  have alloc: "tok_alloc ?t3 8 = Some (Inr 0, demo_taken 8 (TAKEN OR 1))"
    by (simp add: tok_alloc_def alloc_index_def demo_taken_def at_index_def set_index_def TAKEN_def DEAD_def MAX_COUNT_def
        tok_INDEX_BITS_def NONE_def)
  show "tok_check (demo_taken 8 (TAKEN OR 1)) 65536 = Some (Inr 8)"
    by (rule reused_number_revives_token [OF demo_steps(6) demo_steps(3) mark free alloc])
qed

end
