(* ===== verification/Grace_Period.thy ===== *)
theory Grace_Period
  imports Prelude
begin

text \<open>
  Quiescent-state reclamation, \<open>kcore/src/qsbr.rs\<close>.

  The number \<open>N\<close> of CPUs is the length of the list of marks. Every load and store of the
  source is sequentially consistent, so a run is an interleaving of them. \<open>quiesce\<close> loads the
  epoch and then stores the mark, and \<open>passed\<close> loads the marks one after another; other CPUs may
  act in between, so each load and each store is a step of its own below, between which the CPUs
  take, hold and drop pointers as the protocol of the module allows. The lemmas show that no CPU
  ever holds what was given back.
\<close>

section \<open>State and operations\<close>

definition IDLE :: u64 where "IDLE = - 1"

record grace =
  epoch :: u64
  seen :: "u64 list"

definition grace_new :: "nat \<Rightarrow> grace" where
  "grace_new n = \<lparr>epoch = 1, seen = replicate n 0\<rparr>"

definition retire :: "grace \<Rightarrow> u64 \<times> grace" where
  "retire g = (epoch g + 1, g\<lparr>epoch := epoch g + 1\<rparr>)"

text \<open>The store of a mark, by which \<open>quiesce\<close> and \<open>idle\<close> end.\<close>

definition store_mark :: "grace \<Rightarrow> nat \<Rightarrow> u64 \<Rightarrow> grace option" where
  "store_mark g cpu e = do {
     marks \<leftarrow> set_index (seen g) cpu e;
     Some (g\<lparr>seen := marks\<rparr>) }"


definition idle :: "grace \<Rightarrow> nat \<Rightarrow> grace option" where
  "idle g cpu = store_mark g cpu IDLE"

definition cpu_passed :: "grace \<Rightarrow> nat \<Rightarrow> u64 \<Rightarrow> bool option" where
  "cpu_passed g cpu e = do {
     s \<leftarrow> at_index (seen g) cpu;
     Some (s \<ge> e) }"

text \<open>
  The loop of \<open>passed\<close>: \<open>passed_load\<close> is its turn for the mark \<open>k\<close>, one load, which goes on with the
  next mark or ends the loop with the answer; \<open>passed\<close> is the loop with nothing in between.
\<close>

definition passed_load :: "grace \<Rightarrow> u64 \<Rightarrow> nat \<Rightarrow> nat \<Rightarrow> (nat + bool) option" where
  "passed_load g e cpus k =
     (if k < cpus then do {
        s \<leftarrow> at_index (seen g) k;
        Some (if s \<ge> e then Inl (k + 1) else Inr False) }
      else Some (Inr True))"






section \<open>CPUs that follow the protocol\<close>

text \<open>
  A CPU runs and may hold pointers, or is between the two halves of \<open>quiesce\<close>, with the epoch
  it loaded, or idles. For each object that was retired, \<open>scan\<close> is the mark a \<open>passed\<close> under way for its
  epoch comes to next.
\<close>

datatype mode = Running | Marking u64 | Idling

record 'o world =
  grace :: grace
  mode :: "nat \<Rightarrow> mode"
  held :: "nat \<Rightarrow> 'o set"
  linked :: "'o set"
  unlinked :: "'o set"
  retired_at :: "'o \<Rightarrow> u64 option"
  scan :: "'o \<Rightarrow> nat option"
  retires :: nat

definition boot :: "nat \<Rightarrow> 'o world" where
  "boot n = \<lparr>grace = grace_new n, mode = (\<lambda>_. Running), held = (\<lambda>_. {}), linked = {}, unlinked = {},
     retired_at = (\<lambda>_. None), scan = (\<lambda>_. None), retires = 0\<rparr>"

text \<open>An object is alive from when it is linked until it is given back.\<close>

definition alive :: "'o world \<Rightarrow> 'o set" where
  "alive w = linked w \<union> unlinked w \<union> dom (retired_at w)"

inductive world_step :: "nat \<Rightarrow> 'o world \<Rightarrow> 'o world \<Rightarrow> bool" for cpus where
  link: "ob \<notin> alive w \<Longrightarrow> world_step cpus w (w\<lparr>linked := insert ob (linked w)\<rparr>)"
| read: "cpu < cpus \<Longrightarrow> mode w cpu = Running \<Longrightarrow> ob \<in> linked w \<Longrightarrow>
    world_step cpus w (w\<lparr>held := (held w)(cpu := insert ob (held w cpu))\<rparr>)"
| unlink: "ob \<in> linked w \<Longrightarrow>
    world_step cpus w (w\<lparr>linked := linked w - {ob}, unlinked := insert ob (unlinked w)\<rparr>)"
| retire: "ob \<in> unlinked w \<Longrightarrow> retire (grace w) = (e, g) \<Longrightarrow>
    world_step cpus w (w\<lparr>grace := g, unlinked := unlinked w - {ob}, retired_at := (retired_at w)(ob \<mapsto> e),
      retires := Suc (retires w)\<rparr>)"
| quiesce_load: "cpu < cpus \<Longrightarrow> mode w cpu \<in> {Running, Idling} \<Longrightarrow>
    world_step cpus w (w\<lparr>held := (held w)(cpu := {}), mode := (mode w)(cpu := Marking (epoch (grace w)))\<rparr>)"
| quiesce_store: "cpu < cpus \<Longrightarrow> mode w cpu = Marking e \<Longrightarrow> store_mark (grace w) cpu e = Some g \<Longrightarrow>
    world_step cpus w (w\<lparr>grace := g, mode := (mode w)(cpu := Running)\<rparr>)"
| idle: "cpu < cpus \<Longrightarrow> mode w cpu = Running \<Longrightarrow> idle (grace w) cpu = Some g \<Longrightarrow>
    world_step cpus w (w\<lparr>grace := g, held := (held w)(cpu := {}), mode := (mode w)(cpu := Idling)\<rparr>)"
| scan_begin: "retired_at w ob = Some e \<Longrightarrow> cpus \<le> length (seen (grace w)) \<Longrightarrow>
    world_step cpus w (w\<lparr>scan := (scan w)(ob \<mapsto> 0)\<rparr>)"
| scan_load: "retired_at w ob = Some e \<Longrightarrow> scan w ob = Some k \<Longrightarrow> passed_load (grace w) e cpus k = Some (Inl k') \<Longrightarrow>
    world_step cpus w (w\<lparr>scan := (scan w)(ob \<mapsto> k')\<rparr>)"
| scan_fails: "retired_at w ob = Some e \<Longrightarrow> scan w ob = Some k \<Longrightarrow> passed_load (grace w) e cpus k = Some (Inr False) \<Longrightarrow>
    world_step cpus w (w\<lparr>scan := (scan w)(ob := None)\<rparr>)"
| give_back: "retired_at w ob = Some e \<Longrightarrow> scan w ob = Some k \<Longrightarrow> passed_load (grace w) e cpus k = Some (Inr True) \<Longrightarrow>
    world_step cpus w (w\<lparr>retired_at := (retired_at w)(ob := None), scan := (scan w)(ob := None)\<rparr>)"

text \<open>
  What a running CPU holds is still linked or not retired yet, or was retired at an epoch past
  the CPU's mark.
\<close>

definition cpu_ok :: "'o world \<Rightarrow> nat \<Rightarrow> bool" where
  "cpu_ok w cpu \<longleftrightarrow>
     (case mode w cpu of
        Running \<Rightarrow> seen (grace w) ! cpu \<le> epoch (grace w)
          \<and> (\<forall>ob\<in>held w cpu. ob \<in> linked w \<union> unlinked w
               \<or> (\<exists>e. retired_at w ob = Some e \<and> seen (grace w) ! cpu < e))
      | Marking e \<Rightarrow> held w cpu = {} \<and> e \<le> epoch (grace w)
      | Idling \<Rightarrow> held w cpu = {})"

text \<open>
  A retired object is neither linked nor unlinked, and no CPU whose mark a scan for it has passed holds it.
  The mark may fall behind again, when the CPU was idle and ends a \<open>quiesce\<close> it began before the
  retirement; what the CPU reads from then on is linked.
\<close>

definition scan_ok :: "'o world \<Rightarrow> 'o \<Rightarrow> bool" where
  "scan_ok w ob \<longleftrightarrow>
     (ob \<in> dom (retired_at w) \<longrightarrow> ob \<notin> linked w \<union> unlinked w)
     \<and> (case scan w ob of None \<Rightarrow> True | Some k \<Rightarrow> ob \<in> dom (retired_at w) \<and> (\<forall>cpu<k. ob \<notin> held w cpu))"

definition world_ok :: "nat \<Rightarrow> 'o world \<Rightarrow> bool" where
  "world_ok cpus w \<longleftrightarrow> unat (epoch (grace w)) = retires w + 1 \<and> cpus \<le> length (seen (grace w))
     \<and> (\<forall>cpu<cpus. cpu_ok w cpu) \<and> (\<forall>ob. scan_ok w ob) \<and> linked w \<inter> unlinked w = {}"

lemma cpu_ok_mono:
  assumes "cpu_ok w cpu" and "mode w' cpu = mode w cpu" and "held w' cpu = held w cpu"
    and "seen (grace w') ! cpu = seen (grace w) ! cpu" and "epoch (grace w) \<le> epoch (grace w')"
    and "\<And>ob. mode w cpu = Running \<Longrightarrow> ob \<in> held w cpu \<Longrightarrow>
        ob \<in> linked w \<union> unlinked w \<or> (\<exists>e. retired_at w ob = Some e \<and> seen (grace w) ! cpu < e) \<Longrightarrow>
        ob \<in> linked w' \<union> unlinked w' \<or> (\<exists>e. retired_at w' ob = Some e \<and> seen (grace w) ! cpu < e)"
  shows "cpu_ok w' cpu"
  using assms by (auto simp: cpu_ok_def split: mode.splits)

lemma not_held:
  assumes "cpu_ok w cpu" and "retired_at w ob = Some e" and "ob \<notin> linked w \<union> unlinked w" and "e \<le> seen (grace w) ! cpu"
  shows "ob \<notin> held w cpu"
  using assms by (auto simp: cpu_ok_def split: mode.splits)

lemma passed_load_result:
  assumes "passed_load g e cpus k = Some r"
  shows "r = Inl k' \<Longrightarrow> k < cpus \<and> k' = Suc k \<and> e \<le> seen g ! k" and "r = Inr True \<Longrightarrow> cpus \<le> k"
  using assms by (auto simp: passed_load_def stop_simps split: if_splits)

lemma epoch_grows:
  assumes "unat (e :: u64) = n + 1" and "Suc n < 2 ^ 64 - 2"
  shows "unat (e + 1) = Suc n + 1" and "e \<le> e + 1" and "e < e + 1"
  using assms unat_add_no_wrap [of e 1] by (simp_all add: word_le_nat_alt word_less_nat_alt)

text \<open>A step that leaves the objects as they are, and what the CPUs hold at most smaller, leaves the scans.\<close>

lemma scan_ok_mono:
  assumes "scan_ok w ob" and "linked w' = linked w" and "unlinked w' = unlinked w" and "retired_at w' = retired_at w"
    and "scan w' = scan w" and "\<And>cpu. held w' cpu \<subseteq> held w cpu"
  shows "scan_ok w' ob"
  using assms by (fastforce simp: scan_ok_def split: option.splits)

lemma world_okD:
  assumes "world_ok cpus w"
  shows "cpu < cpus \<Longrightarrow> cpu_ok w cpu" "scan_ok w ob" "unat (epoch (grace w)) = retires w + 1"
  using assms by (simp_all add: world_ok_def)

text \<open>Steps on the links.\<close>

lemma world_ok_link:
  assumes "world_ok cpus w" and "ob \<notin> alive w"
  shows "world_ok cpus (w\<lparr>linked := insert ob (linked w)\<rparr>)"
proof -
  have "scan_ok (w\<lparr>linked := insert ob (linked w)\<rparr>) x" if "scan_ok w x" for x
    using that assms(2) by (auto simp: scan_ok_def alive_def split: option.splits)
  then show ?thesis
    using assms unfolding world_ok_def by (auto simp: alive_def intro: cpu_ok_mono [of w])
qed

lemma world_ok_read:
  assumes "world_ok cpus w" and "mode w cpu = Running" and "ob \<in> linked w"
  shows "world_ok cpus (w\<lparr>held := (held w)(cpu := insert ob (held w cpu))\<rparr>)"
proof -
  have "cpu_ok (w\<lparr>held := (held w)(cpu := insert ob (held w cpu))\<rparr>) c" if "cpu_ok w c" for c
    using that assms(2,3) by (cases "c = cpu") (auto simp: cpu_ok_def split: mode.splits)
  moreover have "scan_ok (w\<lparr>held := (held w)(cpu := insert ob (held w cpu))\<rparr>) x" if "scan_ok w x" for x
    using that assms(3) by (auto simp: scan_ok_def split: option.splits)
  ultimately show ?thesis
    using assms by (auto simp: world_ok_def)
qed

lemma world_ok_unlink:
  assumes "world_ok cpus w" and "ob \<in> linked w"
  shows "world_ok cpus (w\<lparr>linked := linked w - {ob}, unlinked := insert ob (unlinked w)\<rparr>)"
proof -
  have "scan_ok (w\<lparr>linked := linked w - {ob}, unlinked := insert ob (unlinked w)\<rparr>) x" if "scan_ok w x" for x
    using that assms(2) by (auto simp: scan_ok_def split: option.splits)
  then show ?thesis
    using assms unfolding world_ok_def by (auto intro: cpu_ok_mono [of w])
qed

lemma world_ok_retire:
  assumes ok: "world_ok cpus w" and ob: "ob \<in> unlinked w" and r: "retire (grace w) = (e, g)" and n: "Suc (retires w) < 2 ^ 64 - 2"
  shows "world_ok cpus (w\<lparr>grace := g, unlinked := unlinked w - {ob}, retired_at := (retired_at w)(ob \<mapsto> e), retires := Suc (retires w)\<rparr>)"
    (is "world_ok cpus ?w")
proof -
  have e: "e = epoch (grace w) + 1" "g = (grace w)\<lparr>epoch := epoch (grace w) + 1\<rparr>"
    using r by (auto simp: retire_def)
  have up: "epoch (grace w) \<le> e" "epoch (grace w) < e" "unat e = Suc (retires w) + 1"
    using epoch_grows [OF world_okD(3) [OF ok] n] by (simp_all add: e)
  have "cpu_ok ?w c" if "c < cpus" for c
  proof (rule cpu_ok_mono [of w])
    show c: "cpu_ok w c"
      using that world_okD(1) [OF ok] by simp
    show "x \<in> linked ?w \<union> unlinked ?w \<or> (\<exists>e'. retired_at ?w x = Some e' \<and> seen (grace w) ! c < e')"
      if "mode w c = Running" "x \<in> linked w \<union> unlinked w \<or> (\<exists>e. retired_at w x = Some e \<and> seen (grace w) ! c < e)" for x
      using that c up(2) by (auto simp: cpu_ok_def)
  qed (use up(1) e in simp_all)
  moreover have "scan_ok ?w x" for x
    using ok ob by (auto simp: world_ok_def scan_ok_def split: option.splits)
  ultimately show ?thesis
    using ok up(3) e by (auto simp: world_ok_def)
qed

text \<open>Steps on the marks.\<close>

lemma world_ok_quiesce_load:
  assumes "world_ok cpus w"
  shows "world_ok cpus (w\<lparr>held := (held w)(cpu := {}), mode := (mode w)(cpu := Marking (epoch (grace w)))\<rparr>)"
    (is "world_ok cpus ?w")
proof -
  have "cpu_ok ?w c" if "cpu_ok w c" for c
    using that by (cases "c = cpu") (auto simp: cpu_ok_def split: mode.splits)
  moreover have "scan_ok ?w x" if "scan_ok w x" for x
    by (rule scan_ok_mono [OF that]) simp_all
  ultimately show ?thesis
    using assms by (auto simp: world_ok_def)
qed

lemma world_ok_quiesce_store:
  assumes "world_ok cpus w" and "mode w cpu = Marking e" and "store_mark (grace w) cpu e = Some g"
  shows "world_ok cpus (w\<lparr>grace := g, mode := (mode w)(cpu := Running)\<rparr>)" (is "world_ok cpus ?w")
proof -
  have g: "cpu < length (seen (grace w))" "g = (grace w)\<lparr>seen := (seen (grace w))[cpu := e]\<rparr>"
    using assms(3) by (auto simp: store_mark_def stop_simps)
  have "cpu_ok ?w c" if "cpu_ok w c" for c
    using that assms(2) g by (cases "c = cpu") (auto simp: cpu_ok_def split: mode.splits)
  moreover have "scan_ok ?w x" if "scan_ok w x" for x
    by (rule scan_ok_mono [OF that]) simp_all
  ultimately show ?thesis
    using assms(1) g by (auto simp: world_ok_def)
qed

lemma world_ok_idle:
  assumes "world_ok cpus w" and "idle (grace w) cpu = Some g"
  shows "world_ok cpus (w\<lparr>grace := g, held := (held w)(cpu := {}), mode := (mode w)(cpu := Idling)\<rparr>)" (is "world_ok cpus ?w")
proof -
  have g: "cpu < length (seen (grace w))" "g = (grace w)\<lparr>seen := (seen (grace w))[cpu := IDLE]\<rparr>"
    using assms(2) by (auto simp: idle_def store_mark_def stop_simps)
  have "cpu_ok ?w c" if "cpu_ok w c" for c
    using that g by (cases "c = cpu") (auto simp: cpu_ok_def split: mode.splits)
  moreover have "scan_ok ?w x" if "scan_ok w x" for x
    by (rule scan_ok_mono [OF that]) simp_all
  ultimately show ?thesis
    using assms(1) g by (auto simp: world_ok_def)
qed

text \<open>Steps of a scan.\<close>

lemma world_ok_scan:
  assumes "world_ok cpus w" and "\<And>x. scan_ok (w\<lparr>scan := c\<rparr>) x"
  shows "world_ok cpus (w\<lparr>scan := c\<rparr>)"
  using assms by (auto simp: world_ok_def intro: cpu_ok_mono [of w])

lemma scan_ok_load:
  assumes ok: "world_ok cpus w" and ob: "retired_at w ob = Some e" "scan w ob = Some k"
    and l: "passed_load (grace w) e cpus k = Some (Inl k')"
  shows "scan_ok (w\<lparr>scan := (scan w)(ob \<mapsto> k')\<rparr>) x"
proof -
  note load = passed_load_result(1) [OF l refl]
  have "ob \<notin> linked w \<union> unlinked w"
    using world_okD(2) [OF ok, of ob] ob(1) by (auto simp: scan_ok_def)
  then have "ob \<notin> held w k"
    using not_held [OF world_okD(1) [OF ok] ob(1)] load by blast
  then show ?thesis
    using world_okD(2) [OF ok, of x] ob(2) load by (auto simp: scan_ok_def less_Suc_eq split: option.splits)
qed

lemma world_ok_give_back:
  assumes ok: "world_ok cpus w" and ob: "scan w ob = Some k" and l: "passed_load (grace w) e cpus k = Some (Inr True)"
  shows "world_ok cpus (w\<lparr>retired_at := (retired_at w)(ob := None), scan := (scan w)(ob := None)\<rparr>)" (is "world_ok cpus ?w")
proof -
  have free: "ob \<notin> held w c" if "c < cpus" for c
    using world_okD(2) [OF ok, of ob] ob passed_load_result(2) [OF l refl] that by (auto simp: scan_ok_def)
  have "cpu_ok ?w c" if "c < cpus" for c
  proof (rule cpu_ok_mono [of w])
    show "cpu_ok w c"
      by (rule world_okD(1) [OF ok that])
  qed (use free [OF that] in auto)
  moreover have "scan_ok ?w x" for x
    using world_okD(2) [OF ok, of x] by (auto simp: scan_ok_def split: option.splits)
  ultimately show ?thesis
    using ok by (auto simp: world_ok_def)
qed

lemma world_ok_step:
  assumes "world_step cpus w w'" and "world_ok cpus w" and "retires w' < 2 ^ 64 - 2"
  shows "world_ok cpus w'"
  using assms
proof (induction rule: world_step.induct)
  case (scan_begin w ob e)
  have "scan_ok (w\<lparr>scan := (scan w)(ob \<mapsto> 0)\<rparr>) x" for x
    using world_okD(2) [OF scan_begin(3), of x] scan_begin(1) by (auto simp: scan_ok_def split: option.splits)
  then show ?case
    by (rule world_ok_scan [OF scan_begin(3)])
next
  case (scan_load w ob e k k')
  then show ?case
    by (intro world_ok_scan scan_ok_load)
next
  case (scan_fails w ob e k)
  have "scan_ok (w\<lparr>scan := (scan w)(ob := None)\<rparr>) x" for x
    using world_okD(2) [OF scan_fails(4), of x] by (auto simp: scan_ok_def split: option.splits)
  then show ?case
    by (rule world_ok_scan [OF scan_fails(4)])
qed (simp_all add: world_ok_link world_ok_read world_ok_unlink world_ok_retire world_ok_quiesce_load
    world_ok_quiesce_store world_ok_idle world_ok_give_back)

lemma retires_grow: "world_step cpus w w' \<Longrightarrow> retires w \<le> retires w'"
  by (induction rule: world_step.induct) auto

lemma world_ok_reachable:
  assumes "(world_step cpus)\<^sup>*\<^sup>* (boot n) w" and "cpus \<le> n" and "retires w < 2 ^ 64 - 2"
  shows "world_ok cpus w"
  using assms
proof (induction rule: rtranclp_induct)
  case base
  then show ?case
    by (simp add: world_ok_def cpu_ok_def scan_ok_def boot_def grace_new_def)
next
  case (step w w')
  then show ?case
    using retires_grow [OF step(2)] world_ok_step [OF step(2)] by simp
qed

section \<open>The properties\<close>

text \<open>
  C27. However the CPUs link, read, unlink and retire objects, become quiescent and idle, and give back
  what \<open>passed\<close> said they may, no CPU ever holds a pointer to an object that was given back, as long as
  fewer than 2^64 - 2 objects were retired. Any steps of other CPUs may come between the load and the store
  of \<open>quiesce\<close> and between the loads of the marks by \<open>passed\<close>.
\<close>

theorem grace_no_use_after_free:
  assumes "(world_step cpus)\<^sup>*\<^sup>* (boot n) w" and "cpus \<le> n" and "cpu < cpus" and "retires w < 2 ^ 64 - 2"
  shows "held w cpu \<subseteq> alive w"
proof -
  have "cpu_ok w cpu"
    using world_ok_reachable [OF assms(1,2,4)] assms(3) by (simp add: world_ok_def)
  then show ?thesis
    by (auto simp: cpu_ok_def alive_def split: mode.splits)
qed

text \<open>
  A run of two CPUs: CPU 1 reads object 0, which is unlinked and retired; CPU 0 is past it, and its mark is
  loaded while CPU 1 is between the halves of its \<open>quiesce\<close>; then CPU 1 reads object 5, its mark is loaded,
  and object 0 goes back.
\<close>

definition demo :: "u64 \<Rightarrow> u64 \<Rightarrow> u64 \<Rightarrow> mode \<Rightarrow> mode \<Rightarrow> nat set \<Rightarrow> nat set \<Rightarrow> nat set \<Rightarrow> u64 option \<Rightarrow> nat option \<Rightarrow> nat \<Rightarrow> nat world" where
  "demo e i j m0 m1 h l u r c n = \<lparr>grace = \<lparr>epoch = e, seen = [i, j]\<rparr>, mode = (\<lambda>x. if x = 0 then m0 else if x = 1 then m1 else Running),
     held = (\<lambda>x. if x = 1 then h else {}), linked = l, unlinked = u, retired_at = (\<lambda>x. if x = 0 then r else None),
     scan = (\<lambda>x. if x = 0 then c else None), retires = n\<rparr>"

definition demo_world :: "nat world" where
  "demo_world = demo 2 IDLE 2 Idling Running {5} {5} {} None None 1"

lemma world_step_eq: "world_step cpus w w' \<Longrightarrow> w' = w'' \<Longrightarrow> world_step cpus w w''"
  by simp

lemmas demo_eval = demo_def alive_def idle_def store_mark_def set_index_def retire_def passed_load_def IDLE_def fun_eq_iff domIff

lemma demo_run: "(world_step 2)\<^sup>*\<^sup>* (boot 2) demo_world"
proof -
  note go = converse_rtranclp_into_rtranclp [where r = "world_step 2"]
  have boot: "boot 2 = demo 1 0 0 Running Running {} {} {} None None 0"
    by (simp add: boot_def demo_def grace_new_def numeral_2_eq_2 fun_eq_iff)
  have s1: "world_step 2 (demo 1 0 0 Running Running {} {} {} None None 0) (demo 1 0 0 Running Running {} {0} {} None None 0)"
    by (rule world_step_eq [OF world_step.link [of 0]]) (simp_all add: demo_eval)
  have s2: "world_step 2 (demo 1 0 0 Running Running {} {0} {} None None 0) (demo 1 0 0 Running Running {0} {0} {} None None 0)"
    by (rule world_step_eq [OF world_step.read [of 1 _ _ 0]]) (simp_all add: demo_eval)
  have s3: "world_step 2 (demo 1 0 0 Running Running {0} {0} {} None None 0) (demo 1 IDLE 0 Idling Running {0} {0} {} None None 0)"
    by (rule world_step_eq [OF world_step.idle [of 0]]) (simp_all add: demo_eval)
  have s4: "world_step 2 (demo 1 IDLE 0 Idling Running {0} {0} {} None None 0) (demo 1 IDLE 0 Idling Running {0} {} {0} None None 0)"
    by (rule world_step_eq [OF world_step.unlink [of 0]]) (simp_all add: demo_eval)
  have s5: "world_step 2 (demo 1 IDLE 0 Idling Running {0} {} {0} None None 0) (demo 2 IDLE 0 Idling Running {0} {} {} (Some 2) None 1)"
    by (rule world_step_eq [OF world_step.retire [of 0 _ 2]]) (simp_all add: demo_eval)
  have s6: "world_step 2 (demo 2 IDLE 0 Idling Running {0} {} {} (Some 2) None 1) (demo 2 IDLE 0 Idling (Marking 2) {} {} {} (Some 2) None 1)"
    by (rule world_step_eq [OF world_step.quiesce_load [of 1]]) (simp_all add: demo_eval)
  have s7: "world_step 2 (demo 2 IDLE 0 Idling (Marking 2) {} {} {} (Some 2) None 1) (demo 2 IDLE 0 Idling (Marking 2) {} {} {} (Some 2) (Some 0) 1)"
    by (rule world_step_eq [OF world_step.scan_begin [of _ 0 2]]) (simp_all add: demo_eval)
  have s8: "world_step 2 (demo 2 IDLE 0 Idling (Marking 2) {} {} {} (Some 2) (Some 0) 1) (demo 2 IDLE 0 Idling (Marking 2) {} {} {} (Some 2) (Some 1) 1)"
    by (rule world_step_eq [OF world_step.scan_load [of _ 0 2 0 _ 1]]) (simp_all add: demo_eval)
  have s9: "world_step 2 (demo 2 IDLE 0 Idling (Marking 2) {} {} {} (Some 2) (Some 1) 1) (demo 2 IDLE 2 Idling Running {} {} {} (Some 2) (Some 1) 1)"
    by (rule world_step_eq [OF world_step.quiesce_store [of 1 _ _ 2]]) (simp_all add: demo_eval)
  have s10: "world_step 2 (demo 2 IDLE 2 Idling Running {} {} {} (Some 2) (Some 1) 1) (demo 2 IDLE 2 Idling Running {} {5} {} (Some 2) (Some 1) 1)"
    by (rule world_step_eq [OF world_step.link [of 5]]) (simp_all add: demo_eval)
  have s11: "world_step 2 (demo 2 IDLE 2 Idling Running {} {5} {} (Some 2) (Some 1) 1) (demo 2 IDLE 2 Idling Running {5} {5} {} (Some 2) (Some 1) 1)"
    by (rule world_step_eq [OF world_step.read [of 1 _ _ 5]]) (simp_all add: demo_eval)
  have s12: "world_step 2 (demo 2 IDLE 2 Idling Running {5} {5} {} (Some 2) (Some 1) 1) (demo 2 IDLE 2 Idling Running {5} {5} {} (Some 2) (Some 2) 1)"
    by (rule world_step_eq [OF world_step.scan_load [of _ 0 2 1 _ 2]]) (simp_all add: demo_eval)
  have s13: "world_step 2 (demo 2 IDLE 2 Idling Running {5} {5} {} (Some 2) (Some 2) 1) (demo 2 IDLE 2 Idling Running {5} {5} {} None None 1)"
    by (rule world_step_eq [OF world_step.give_back [of _ 0 2 2]]) (simp_all add: demo_eval)
  show ?thesis
    unfolding boot demo_world_def
    by (rule go [OF s1], rule go [OF s2], rule go [OF s3], rule go [OF s4], rule go [OF s5], rule go [OF s6], rule go [OF s7],
      rule go [OF s8], rule go [OF s9], rule go [OF s10], rule go [OF s11], rule go [OF s12], rule go [OF s13], rule rtranclp.rtrancl_refl)
qed

theorem grace_no_use_after_free_witness:
  "(world_step 2)\<^sup>*\<^sup>* (boot 2) demo_world \<and> held demo_world 1 = {5} \<and> held demo_world 1 \<subseteq> alive demo_world \<and> 0 \<notin> alive demo_world"
proof -
  have "retires demo_world < 2 ^ 64 - 2" "held demo_world 1 = {5}" "0 \<notin> alive demo_world"
    by (auto simp: demo_world_def demo_def alive_def)
  then show ?thesis
    using demo_run grace_no_use_after_free [OF demo_run, of 1] by simp
qed









end
