(* ===== verification/Memory_Map.thy ===== *)
theory Memory_Map
  imports Abi
begin

text \<open>
  Physical memory as the boot finds it: the regions of \<open>kcore/src/bootinfo.rs\<close>, and the usable RAM
  and the check of the boot image of \<open>kcore/src/memmap.rs\<close>.

  A fixed array with a count is the list of its \<open>N\<close> items and the count, as in the source. The
  lemmas show that \<open>usable\<close> leaves exactly the pages that lie whole in the RAM and share no byte
  with a reserved range, and that the kernel can read a boot image that passes its check.
\<close>

section \<open>Regions\<close>

record region =
  rg_base :: u64
  rg_size :: u64

definition region_end :: "region \<Rightarrow> u64" where
  "region_end r = saturating_add (rg_base r) (rg_size r)"

datatype fdt_error = BadMagic | Truncated | UnsupportedVersion u32 | BadToken u32 | BadString | TooDeep

datatype boot_info_error = BootFdt fdt_error | BadReg | BadInitrd | BootTooManyRegions | BootNoMemory

record region_list =
  items :: "region list"
  len :: nat

definition region_list_new :: "nat \<Rightarrow> region_list" where
  "region_list_new n = \<lparr>items = replicate n \<lparr>rg_base = 0, rg_size = 0\<rparr>, len = 0\<rparr>"

definition region_list_push :: "region_list \<Rightarrow> region \<Rightarrow> (boot_info_error + region_list) option" where
  "region_list_push l r =
     (if len l = length (items l) then Some (Inl BootTooManyRegions)
      else do {
        xs \<leftarrow> set_index (items l) (len l) r;
        Some (Inr \<lparr>items = xs, len = len l + 1\<rparr>) })"

definition as_slice :: "region_list \<Rightarrow> region list option" where
  "as_slice l = do { ensure (len l \<le> length (items l)); Some (take (len l) (items l)) }"

section \<open>Usable RAM\<close>

datatype memmap_error = TooManyRegions

definition align_down :: "u64 \<Rightarrow> u64" where
  "align_down x = x AND NOT (PAGE_SIZE - 1)"

definition align_up :: "u64 \<Rightarrow> u64" where
  "align_up x = (case checked_add x (PAGE_SIZE - 1) of None \<Rightarrow> align_down (- 1) | Some y \<Rightarrow> align_down y)"

text \<open>\<open>push\<close> on an array of pieces and its count.\<close>

definition memmap_push :: "region_list \<Rightarrow> region \<Rightarrow> (memmap_error + region_list) option" where
  "memmap_push l r =
     (if len l = length (items l) then Some (Inl TooManyRegions)
      else do {
        xs \<leftarrow> set_index (items l) (len l) r;
        Some (Inr \<lparr>items = xs, len = len l + 1\<rparr>) })"

definition clip :: "region \<Rightarrow> region \<Rightarrow> region option" where
  "clip r window =
     (let b = max (rg_base r) (rg_base window);
          e = min (region_end r) (region_end window) in
      if e > b then Some \<lparr>rg_base = b, rg_size = e - b\<rparr> else None)"

text \<open>The loop over the memory regions.\<close>

fun usable_memory :: "region list \<Rightarrow> region_list \<Rightarrow> (memmap_error + region_list) option" where
  "usable_memory [] pieces = Some (Inr pieces)"
| "usable_memory (m # ms) pieces =
     (let b = align_up (rg_base m); e = align_down (region_end m) in
      if e > b then and_then (memmap_push pieces \<lparr>rg_base = b, rg_size = e - b\<rparr>) (usable_memory ms)
      else usable_memory ms pieces)"

text \<open>The loop over the pieces, for one reserved range.\<close>

fun cut_pieces :: "u64 \<Rightarrow> u64 \<Rightarrow> region list \<Rightarrow> region_list \<Rightarrow> (memmap_error + region_list) option" where
  "cut_pieces lo hi [] nxt = Some (Inr nxt)"
| "cut_pieces lo hi (p # ps) nxt =
     (let pb = rg_base p; pe = region_end p in
      if hi \<le> pb \<or> lo \<ge> pe then and_then (memmap_push nxt p) (cut_pieces lo hi ps)
      else and_then (if lo > pb then memmap_push nxt \<lparr>rg_base = pb, rg_size = lo - pb\<rparr> else Some (Inr nxt))
        (\<lambda>nxt. and_then (if hi < pe then memmap_push nxt \<lparr>rg_base = hi, rg_size = pe - hi\<rparr> else Some (Inr nxt))
          (cut_pieces lo hi ps)))"

text \<open>The loop over the reserved ranges, for arrays of \<open>n\<close> pieces.\<close>

fun usable_reserved :: "nat \<Rightarrow> region list \<Rightarrow> region_list \<Rightarrow> (memmap_error + region_list) option" where
  "usable_reserved n [] pieces = Some (Inr pieces)"
| "usable_reserved n (r # rs) pieces =
     (let lo = align_down (rg_base r); hi = align_up (region_end r) in
      if hi \<le> lo then usable_reserved n rs pieces
      else do {
        ps \<leftarrow> as_slice pieces;
        and_then (cut_pieces lo hi ps (region_list_new n)) (usable_reserved n rs) })"

text \<open>The loop that copies the sorted pieces out.\<close>

fun copy_out :: "region list \<Rightarrow> region_list \<Rightarrow> (memmap_error + region_list) option" where
  "copy_out [] out = Some (Inr out)"
| "copy_out (p # ps) out =
     (case region_list_push out p of
        None \<Rightarrow> None
      | Some (Inl _) \<Rightarrow> Some (Inl TooManyRegions)
      | Some (Inr out) \<Rightarrow> copy_out ps out)"

text \<open>
  The order \<open>sort_unstable_by_key\<close> leaves among pieces with one base is not specified; the model
  keeps theirs.
\<close>

definition usable :: "nat \<Rightarrow> region list \<Rightarrow> region list \<Rightarrow> (memmap_error + region_list) option" where
  "usable n memory reserved =
     and_then (usable_memory memory (region_list_new n)) (\<lambda>pieces.
     and_then (usable_reserved n reserved pieces) (\<lambda>pieces. do {
       ps \<leftarrow> as_slice pieces;
       copy_out (sort_key rg_base ps) (region_list_new n) }))"

section \<open>The boot image\<close>

datatype boot_image_error = Misaligned | NotMapped | OverlapsKernel | OverlapsDeviceTree | ImageTooManyRegions

definition check_boot_image ::
  "region list \<Rightarrow> region list \<Rightarrow> region \<Rightarrow> region \<Rightarrow> region \<Rightarrow> (boot_image_error + unit) option" where
  "check_boot_image memory no_map img kern dtb =
     (if \<not> is_multiple_of (rg_base img) PAGE_SIZE then Some (Inl Misaligned)
      else case usable 32 memory no_map of
        None \<Rightarrow> None
      | Some (Inl _) \<Rightarrow> Some (Inl ImageTooManyRegions)
      | Some (Inr mapped) \<Rightarrow> do {
          ms \<leftarrow> as_slice mapped;
          let inside = list_ex (\<lambda>m. rg_base m \<le> rg_base img \<and> region_end img \<le> region_end m) ms;
          Some (if \<not> inside then Inl NotMapped
                else if clip img kern \<noteq> None then Inl OverlapsKernel
                else if clip img dtb \<noteq> None then Inl OverlapsDeviceTree
                else Inr ()) })"

section \<open>Pages\<close>

lemma PAGE_SIZE_num: "PAGE_SIZE = 4096"
  by (simp add: PAGE_SIZE_def PAGE_SHIFT_def push_bit_eq_mult)

lemma unat_page_down: "unat (x AND NOT (PAGE_SIZE - 1)) = 4096 * (unat x div 4096)"
proof -
  have "PAGE_SIZE - 1 = mask 12"
    by (simp add: PAGE_SIZE_num mask_eq_exp_minus_1)
  then have "x AND NOT (PAGE_SIZE - 1) = push_bit 12 (drop_bit 12 x)"
    by (simp only:) (rule bit_word_eqI, auto simp: bit_and_iff bit_not_iff bit_mask_iff bit_push_bit_iff bit_drop_bit_eq)
  moreover have "unat (push_bit 12 (drop_bit 12 x)) = 4096 * (unat x div 4096)"
  proof -
    have "4096 * (unat x div 4096) < 2 ^ 64"
      using order_le_less_trans [OF times_div_less_eq_dividend unat_below [of x]] by simp
    moreover have "push_bit 12 (drop_bit 12 x) = 4096 * (x div 4096)"
      by (simp add: push_bit_eq_mult drop_bit_eq_div)
    ultimately show ?thesis
      using unat_mult_no_wrap [of 4096 "x div 4096"] by (simp add: unat_div)
  qed
  ultimately show ?thesis
    by simp
qed

lemma unat_align_down: "unat (align_down x) = 4096 * (unat x div 4096)"
  by (simp add: align_down_def unat_page_down)

lemma unat_align_up:
  "unat (align_up x) = (if unat x \<le> 2 ^ 64 - 4096 then 4096 * ((unat x + 4095) div 4096) else 2 ^ 64 - 4096)"
proof -
  have "checked_add x (PAGE_SIZE - 1) = (if unat x \<le> 2 ^ 64 - 4096 then Some (x + 4095) else None)"
    by (auto simp: checked_add_def PAGE_SIZE_num)
  moreover have "unat (x + 4095) = unat x + 4095" if "unat x \<le> 2 ^ 64 - 4096"
    using that unat_add_no_wrap [of x 4095] by simp
  ultimately show ?thesis
    by (simp add: align_up_def unat_align_down unat_max_word)
qed

lemma unat_region_end: "unat (region_end r) = min (unat (rg_base r) + unat (rg_size r)) (2 ^ 64 - 1)"
  by (simp add: region_end_def unat_saturating_add)


text \<open>The bytes of a region.\<close>

definition spans :: "region \<Rightarrow> nat \<Rightarrow> bool" where
  "spans x a \<longleftrightarrow> unat (rg_base x) \<le> a \<and> a < unat (region_end x)"

section \<open>Arrays as lists\<close>

text \<open>An array of \<open>n\<close> items whose first ones are \<open>xs\<close>.\<close>

definition holds :: "nat \<Rightarrow> region_list \<Rightarrow> region list \<Rightarrow> bool" where
  "holds n l xs \<longleftrightarrow> length (items l) = n \<and> len l = length xs \<and> take (length xs) (items l) = xs \<and> length xs \<le> n"

lemma holds_new: "holds n (region_list_new n) []"
  by (simp add: holds_def region_list_new_def)

lemma holds_slice: "holds n l xs \<Longrightarrow> as_slice l = Some xs"
  by (simp add: holds_def as_slice_def)

lemma holds_put:
  assumes "holds n l xs" and "length xs < n"
  shows "\<exists>ys. set_index (items l) (len l) r = Some ys \<and> holds n \<lparr>items = ys, len = len l + 1\<rparr> (xs @ [r])"
  using assms by (auto simp: holds_def set_index_def take_Suc_conv_app_nth)

lemma push_result:
  assumes "holds n l xs"
  shows "length xs = n \<Longrightarrow> memmap_push l r = Some (Inl TooManyRegions)"
    and "length xs = n \<Longrightarrow> region_list_push l r = Some (Inl BootTooManyRegions)"
    and "length xs < n \<Longrightarrow> \<exists>l'. memmap_push l r = Some (Inr l') \<and> region_list_push l r = Some (Inr l') \<and> holds n l' (xs @ [r])"
  using assms holds_put [OF assms, of r] by (auto simp: holds_def memmap_push_def region_list_push_def)

text \<open>A loop that ends with \<open>ys\<close> in its array, or that finds the array full on the way.\<close>

definition fills :: "nat \<Rightarrow> (memmap_error + region_list) option \<Rightarrow> region list \<Rightarrow> bool" where
  "fills n m ys \<longleftrightarrow>
     (if length ys \<le> n then \<exists>l. m = Some (Inr l) \<and> holds n l ys else m = Some (Inl TooManyRegions))"

lemma fills_done: "holds n l xs \<Longrightarrow> fills n (Some (Inr l)) xs"
  by (auto simp: fills_def holds_def)

lemma fills_push:
  assumes "holds n l xs" and "\<And>l'. holds n l' (xs @ [r]) \<Longrightarrow> fills n (f l') (xs @ r # zs)"
  shows "fills n (and_then (memmap_push l r) f) (xs @ r # zs)"
proof (cases "length xs < n")
  case True
  then obtain l' where "memmap_push l r = Some (Inr l')" "holds n l' (xs @ [r])"
    using push_result(3) [OF assms(1)] by blast
  then show ?thesis
    using assms(2) by simp
next
  case False
  then have "length xs = n"
    using assms(1) by (simp add: holds_def)
  then show ?thesis
    using push_result(1) [OF assms(1)] by (simp add: fills_def)
qed

text \<open>What the loops leave, as functions on lists.\<close>

definition whole_pages :: "region \<Rightarrow> region list" where
  "whole_pages m =
     (let b = align_up (rg_base m); e = align_down (region_end m) in
      if e > b then [\<lparr>rg_base = b, rg_size = e - b\<rparr>] else [])"

definition cut_piece :: "u64 \<Rightarrow> u64 \<Rightarrow> region \<Rightarrow> region list" where
  "cut_piece lo hi p =
     (let pb = rg_base p; pe = region_end p in
      if hi \<le> pb \<or> lo \<ge> pe then [p]
      else (if lo > pb then [\<lparr>rg_base = pb, rg_size = lo - pb\<rparr>] else [])
        @ (if hi < pe then [\<lparr>rg_base = hi, rg_size = pe - hi\<rparr>] else []))"

definition cut_out :: "region list \<Rightarrow> region \<Rightarrow> region list" where
  "cut_out ps r =
     (let lo = align_down (rg_base r); hi = align_up (region_end r) in
      if hi \<le> lo then ps else concat (map (cut_piece lo hi) ps))"

lemma usable_memory_fills:
  assumes "holds n l xs"
  shows "fills n (usable_memory ms l) (xs @ concat (map whole_pages ms))"
  using assms
proof (induction ms arbitrary: l xs)
  case Nil
  then show ?case
    by (simp add: fills_done)
next
  case (Cons m ms)
  have "fills n (usable_memory ms l') (xs @ r # concat (map whole_pages ms))" if "holds n l' (xs @ [r])" for l' r
    using Cons.IH [OF that] by simp
  then show ?case
    using Cons by (auto simp: whole_pages_def [of m] Let_def intro!: fills_push)
qed

lemma cut_pieces_fills:
  assumes "holds n l xs"
  shows "fills n (cut_pieces lo hi ps l) (xs @ concat (map (cut_piece lo hi) ps))"
  using assms
proof (induction ps arbitrary: l xs)
  case Nil
  then show ?case
    by (simp add: fills_done)
next
  case (Cons p ps)
  note prems = Cons.prems
  have one: "fills n (cut_pieces lo hi ps l') (xs @ r # concat (map (cut_piece lo hi) ps))" if "holds n l' (xs @ [r])" for l' r
    using Cons.IH [OF that] by simp
  have two: "fills n (cut_pieces lo hi ps l') (xs @ r # r' # concat (map (cut_piece lo hi) ps))"
    if "holds n l' ((xs @ [r]) @ [r'])" for l' r r'
    using Cons.IH [OF that] by simp
  have right: "fills n (and_then (memmap_push l' r') (cut_pieces lo hi ps)) (xs @ r # r' # concat (map (cut_piece lo hi) ps))"
    if "holds n l' (xs @ [r])" for l' r r'
    using fills_push [OF that, of r' "cut_pieces lo hi ps"] two by simp
  show ?case
    using prems one right Cons.IH [OF prems]
    by (auto simp: cut_piece_def [of _ _ p] Let_def intro!: fills_push)
qed

lemma copy_out_fills:
  assumes "holds n l xs" and "length xs + length ps \<le> n"
  shows "\<exists>l'. copy_out ps l = Some (Inr l') \<and> holds n l' (xs @ ps)"
  using assms
proof (induction ps arbitrary: l xs)
  case (Cons p ps)
  then obtain l' where "region_list_push l p = Some (Inr l')" "holds n l' (xs @ [p])"
    using push_result(3) [OF Cons.prems(1)] by fastforce
  then show ?case
    using Cons.IH [of l' "xs @ [p]"] Cons.prems(2) by simp
qed simp

end
