(* ===== verification/Usable_Memory.thy ===== *)
theory Usable_Memory
  imports Memory_Map
begin

text \<open>
  What \<open>usable\<close> and \<open>check_boot_image\<close> of \<open>kcore/src/memmap.rs\<close> promise: each loop on an array
  of regions is a function on lists, and a byte is in as many of the pieces as the memory and the
  reserved ranges leave it.
\<close>

section \<open>The pages of a list of pieces\<close>

text \<open>A piece of whole pages, away from the last page of the address space.\<close>

definition piece_ok :: "region \<Rightarrow> bool" where
  "piece_ok x \<longleftrightarrow> 4096 dvd unat (rg_base x) \<and> 4096 dvd unat (rg_size x) \<and> 0 < rg_size x
     \<and> unat (rg_base x) + unat (rg_size x) \<le> 2 ^ 64 - 4096"

lemma piece_end: "piece_ok x \<Longrightarrow> unat (region_end x) = unat (rg_base x) + unat (rg_size x)"
  by (simp add: piece_ok_def unat_region_end)

lemma piece_between:
  assumes "b < e" and "4096 dvd unat b" and "4096 dvd unat e" and "unat e \<le> 2 ^ 64 - 4096"
  shows "piece_ok \<lparr>rg_base = b, rg_size = e - b\<rparr>" and "unat (region_end \<lparr>rg_base = b, rg_size = e - b\<rparr>) = unat e"
    and "spans \<lparr>rg_base = b, rg_size = e - b\<rparr> a \<longleftrightarrow> unat b \<le> a \<and> a < unat e"
proof -
  have size: "unat (e - b) = unat e - unat b" "unat b < unat e"
    using unat_sub_no_wrap [OF less_imp_le [OF assms(1)]] assms(1) by (simp_all add: word_less_nat_alt)
  then show ok: "piece_ok \<lparr>rg_base = b, rg_size = e - b\<rparr>"
    using assms by (simp add: piece_ok_def word_less_nat_alt)
  then show "unat (region_end \<lparr>rg_base = b, rg_size = e - b\<rparr>) = unat e"
    using piece_end [OF ok] size by simp
  then show "spans \<lparr>rg_base = b, rg_size = e - b\<rparr> a \<longleftrightarrow> unat b \<le> a \<and> a < unat e"
    by (simp add: spans_def)
qed

lemma align_facts:
  shows "4096 dvd unat (align_down x)" and "4096 dvd unat (align_up x)"
    and "unat (align_down x) \<le> 2 ^ 64 - 4096" and "unat (align_up x) \<le> 2 ^ 64 - 4096"
proof -
  have "unat x div 4096 \<le> (2 ^ 64 - 1) div 4096"
    using unat_below [of x] by (intro div_le_mono) simp
  then show "unat (align_down x) \<le> 2 ^ 64 - 4096"
    by (simp add: unat_align_down)
  show "4096 dvd unat (align_down x)" "4096 dvd unat (align_up x)"
    by (simp_all add: unat_align_down unat_align_up)
  have "unat x \<le> 2 ^ 64 - 4096 \<Longrightarrow> (unat x + 4095) div 4096 \<le> (2 ^ 64 - 1) div 4096"
    by (intro div_le_mono) simp
  then show "unat (align_up x) \<le> 2 ^ 64 - 4096"
    by (simp add: unat_align_up)
qed

lemma page_align:
  assumes "4096 dvd p"
  shows "p < unat (align_down x) \<longleftrightarrow> p + 4096 \<le> unat x" and "unat (align_down x) \<le> p \<longleftrightarrow> unat x < p + 4096"
    and "p < 2 ^ 64 - 4096 \<Longrightarrow> p < unat (align_up x) \<longleftrightarrow> p < unat x"
    and "p < 2 ^ 64 - 4096 \<Longrightarrow> unat (align_up x) \<le> p \<longleftrightarrow> unat x \<le> p"
proof -
  obtain k where k: "p = 4096 * k"
    using assms by (elim dvdE)
  show down: "p < unat (align_down x) \<longleftrightarrow> p + 4096 \<le> unat x"
    using less_eq_div_iff_mult_less_eq [of 4096 "Suc k" "unat x"] by (simp add: unat_align_down k Suc_le_eq ac_simps)
  then show "unat (align_down x) \<le> p \<longleftrightarrow> unat x < p + 4096"
    by linarith
  show up: "p < unat (align_up x) \<longleftrightarrow> p < unat x" if "p < 2 ^ 64 - 4096"
  proof (cases "unat x \<le> 2 ^ 64 - 4096")
    case True
    then have "unat (align_up x) = 4096 * ((unat x + 4095) div 4096)"
      by (simp add: unat_align_up)
    then show ?thesis
      using less_eq_div_iff_mult_less_eq [of 4096 "Suc k" "unat x + 4095"] by (auto simp: k Suc_le_eq)
  qed (use that in \<open>simp add: unat_align_up\<close>)
  then show "unat (align_up x) \<le> p \<longleftrightarrow> unat x \<le> p" if "p < 2 ^ 64 - 4096"
    using that by (simp add: not_less [symmetric])
qed

text \<open>How many pieces span a byte.\<close>

definition cover :: "region list \<Rightarrow> nat \<Rightarrow> nat" where
  "cover ps a = length (filter (\<lambda>x. spans x a) ps)"

lemma cover_simps [simp]:
  "cover [] a = 0" "cover (p # ps) a = (if spans p a then 1 else 0) + cover ps a" "cover (ps @ qs) a = cover ps a + cover qs a"
  by (simp_all add: cover_def)

lemma cover_pos: "0 < cover ps a \<longleftrightarrow> (\<exists>x\<in>set ps. spans x a)"
  by (induction ps) auto

lemma whole_pages_ok: "x \<in> set (whole_pages m) \<Longrightarrow> piece_ok x"
  using piece_between(1) align_facts by (auto simp: whole_pages_def Let_def split: if_splits)

lemma whole_pages_cover:
  "cover (whole_pages m) a =
    (if unat (align_up (rg_base m)) \<le> a \<and> a < unat (align_down (region_end m)) then 1 else 0)"
  using piece_between(3) [OF _ align_facts(2,1,3), of "rg_base m" "region_end m" a]
  by (auto simp: whole_pages_def Let_def word_less_nat_alt)

lemma cut_piece_ok:
  assumes "piece_ok p" and "4096 dvd unat lo" and "4096 dvd unat hi" and "x \<in> set (cut_piece lo hi p)"
  shows "piece_ok x"
proof -
  have e: "4096 dvd unat (region_end p)" "unat (region_end p) \<le> 2 ^ 64 - 4096" "4096 dvd unat (rg_base p)"
    using assms(1) piece_end [OF assms(1)] by (simp_all add: piece_ok_def)
  have "lo < region_end p \<Longrightarrow> unat lo \<le> 2 ^ 64 - 4096"
    using e(2) by (simp add: word_less_nat_alt)
  then show ?thesis
    using assms e piece_between(1) by (auto simp: cut_piece_def Let_def not_le split: if_splits)
qed

lemma cut_piece_cover:
  assumes "piece_ok p" and "4096 dvd unat lo" and "4096 dvd unat hi" and "lo < hi"
  shows "cover (cut_piece lo hi p) a = (if spans p a \<and> \<not> (unat lo \<le> a \<and> a < unat hi) then 1 else 0)"
proof -
  have e: "4096 dvd unat (region_end p)" "unat (region_end p) \<le> 2 ^ 64 - 4096" "4096 dvd unat (rg_base p)"
    using assms(1) piece_end [OF assms(1)] by (simp_all add: piece_ok_def)
  have left: "spans \<lparr>rg_base = rg_base p, rg_size = lo - rg_base p\<rparr> a \<longleftrightarrow> unat (rg_base p) \<le> a \<and> a < unat lo"
    if "rg_base p < lo" "lo < region_end p"
    using piece_between(3) [OF that(1) e(3) assms(2)] e(2) that(2) by (simp add: word_less_nat_alt)
  have right: "spans \<lparr>rg_base = hi, rg_size = region_end p - hi\<rparr> a \<longleftrightarrow> unat hi \<le> a \<and> a < unat (region_end p)"
    if "hi < region_end p"
    using piece_between(3) [OF that assms(3) e(1,2)] .
  have "spans p a \<longleftrightarrow> unat (rg_base p) \<le> a \<and> a < unat (region_end p)"
    by (simp add: spans_def)
  moreover have "unat lo < unat hi"
    using assms(4) by (simp add: word_less_nat_alt)
  ultimately show ?thesis
    using left right by (auto simp: cut_piece_def Let_def not_le word_le_nat_alt word_less_nat_alt)
qed

abbreviation "reserves r a \<equiv> unat (align_down (rg_base r)) \<le> a \<and> a < unat (align_up (region_end r))"

lemma cut_out_ok: "(\<forall>x\<in>set ps. piece_ok x) \<Longrightarrow> \<forall>x\<in>set (cut_out ps r). piece_ok x"
  by (auto simp: cut_out_def Let_def intro: cut_piece_ok [OF _ align_facts(1,2)])

lemma cut_out_cover:
  assumes "\<forall>x\<in>set ps. piece_ok x"
  shows "cover (cut_out ps r) a = (if reserves r a then 0 else cover ps a)"
proof (cases "align_up (region_end r) \<le> align_down (rg_base r)")
  case True
  then show ?thesis
    by (auto simp: cut_out_def word_le_nat_alt)
next
  case False
  let ?lo = "align_down (rg_base r)" and ?hi = "align_up (region_end r)"
  have "cover (concat (map (cut_piece ?lo ?hi) ps)) a = (if reserves r a then 0 else cover ps a)"
    using assms
  proof (induction ps)
    case (Cons p ps)
    then have "cover (cut_piece ?lo ?hi p) a = (if spans p a \<and> \<not> reserves r a then 1 else 0)"
      using cut_piece_cover [OF _ align_facts(1,2), of p] False by (simp add: not_le)
    then show ?case
      using Cons by simp
  qed simp
  then show ?thesis
    using False by (simp add: cut_out_def Let_def)
qed

text \<open>All the pieces: the whole pages of the memory without those that a reserved range touches.\<close>

definition pieces_of :: "region list \<Rightarrow> region list \<Rightarrow> region list" where
  "pieces_of memory reserved = foldl cut_out (concat (map whole_pages memory)) reserved"

lemma foldl_cut_out:
  assumes "\<forall>x\<in>set ps. piece_ok x"
  shows "(\<forall>x\<in>set (foldl cut_out ps rs). piece_ok x)
    \<and> cover (foldl cut_out ps rs) a = (if \<exists>r\<in>set rs. reserves r a then 0 else cover ps a)"
  using assms
proof (induction rs arbitrary: ps)
  case (Cons r rs)
  show ?case
    using Cons.IH [OF cut_out_ok [OF Cons.prems, of r]] cut_out_cover [OF Cons.prems, of r a] by auto
qed simp

lemma pieces_of_cover:
  shows "x \<in> set (pieces_of memory reserved) \<Longrightarrow> piece_ok x"
    and "cover (pieces_of memory reserved) a =
      (if \<exists>r\<in>set reserved. reserves r a then 0
       else length (filter (\<lambda>m. unat (align_up (rg_base m)) \<le> a \<and> a < unat (align_down (region_end m))) memory))"
proof -
  let ?ps = "concat (map whole_pages memory)"
  have ok: "\<forall>x\<in>set ?ps. piece_ok x"
    using whole_pages_ok by auto
  note fold = foldl_cut_out [OF ok, of reserved, folded pieces_of_def]
  show "x \<in> set (pieces_of memory reserved) \<Longrightarrow> piece_ok x"
    using fold by blast
  have cov: "cover ?ps a = length (filter (\<lambda>m. unat (align_up (rg_base m)) \<le> a \<and> a < unat (align_down (region_end m))) memory)"
    by (induction memory) (simp_all add: whole_pages_cover)
  show "cover (pieces_of memory reserved) a =
      (if \<exists>r\<in>set reserved. reserves r a then 0
       else length (filter (\<lambda>m. unat (align_up (rg_base m)) \<le> a \<and> a < unat (align_down (region_end m))) memory))"
    unfolding cov [symmetric] by (rule fold [THEN conjunct2])
qed

lemma pieces_of_pages:
  assumes "4096 dvd p"
  shows "(\<exists>x\<in>set (pieces_of memory reserved). spans x p) \<longleftrightarrow>
      (\<exists>m\<in>set memory. unat (rg_base m) \<le> p \<and> p + 4096 \<le> unat (rg_base m) + unat (rg_size m)) \<and> p + 4096 < 2 ^ 64
      \<and> \<not> (\<exists>r\<in>set reserved. p < unat (rg_base r) + unat (rg_size r) \<and> unat (rg_base r) < p + 4096)"
proof -
  have mem: "unat (align_up (rg_base m)) \<le> p \<and> p < unat (align_down (region_end m)) \<longleftrightarrow>
      unat (rg_base m) \<le> p \<and> p + 4096 \<le> unat (rg_base m) + unat (rg_size m) \<and> p + 4096 < 2 ^ 64" for m
  proof (cases "p < unat (align_down (region_end m))")
    case True
    then have "p < 2 ^ 64 - 4096"
      using align_facts(3) [of "region_end m"] by linarith
    then show ?thesis
      using True page_align(1) [OF assms, of "region_end m"] page_align(4) [OF assms, of "rg_base m"]
      by (auto simp: unat_region_end)
  next
    case False
    then show ?thesis
      using page_align(1) [OF assms, of "region_end m"] by (auto simp: unat_region_end)
  qed
  have res: "reserves r p \<longleftrightarrow> p < unat (rg_base r) + unat (rg_size r) \<and> unat (rg_base r) < p + 4096" if "p + 4096 < 2 ^ 64" for r
    using page_align(2,3) [OF assms] that by (auto simp: unat_region_end)
  show ?thesis
    using res unfolding cover_pos [symmetric] pieces_of_cover by (auto simp: mem filter_empty_conv)
qed

lemma pieces_of_disjoint:
  "cover (pieces_of memory reserved) a \<le> cover memory a"
proof -
  have up: "unat x \<le> unat (align_up x) \<or> unat (align_up x) = 2 ^ 64 - 4096" for x
    by (auto simp: unat_align_up)
  have down: "unat (align_down x) \<le> unat x" for x
    by (simp add: unat_align_down)
  have "spans m a" if "unat (align_up (rg_base m)) \<le> a" "a < unat (align_down (region_end m))" for m
    using that up [of "rg_base m"] down [of "region_end m"] align_facts(3) [of "region_end m"] by (auto simp: spans_def)
  then have "length (filter (\<lambda>m. unat (align_up (rg_base m)) \<le> a \<and> a < unat (align_down (region_end m))) memory) \<le> cover memory a"
    by (induction memory) auto
  then show ?thesis
    by (simp add: pieces_of_cover)
qed


section \<open>The result of \<open>usable\<close>\<close>

text \<open>No reserved range on the way leaves more than \<open>n\<close> pieces.\<close>

definition all_fit :: "nat \<Rightarrow> region list \<Rightarrow> region list \<Rightarrow> bool" where
  "all_fit n ps rs \<longleftrightarrow> (\<forall>k\<le>length rs. length (foldl cut_out ps (take k rs)) \<le> n)"

lemma all_fit_Cons: "all_fit n ps (r # rs) \<longleftrightarrow> length ps \<le> n \<and> all_fit n (cut_out ps r) rs"
proof -
  have "(\<forall>k\<le>Suc m. P k) \<longleftrightarrow> P 0 \<and> (\<forall>k\<le>m. P (Suc k))" for P m
    by (metis Suc_le_mono not0_implies_Suc zero_le)
  then show ?thesis
    by (simp add: all_fit_def)
qed

lemma usable_reserved_result:
  assumes "holds n l ps"
  shows "if all_fit n ps rs then \<exists>l'. usable_reserved n rs l = Some (Inr l') \<and> holds n l' (foldl cut_out ps rs)
    else usable_reserved n rs l = Some (Inl TooManyRegions)"
  using assms
proof (induction rs arbitrary: l ps)
  case Nil
  then show ?case
    by (simp add: all_fit_def holds_def)
next
  case (Cons r rs)
  let ?lo = "align_down (rg_base r)" and ?hi = "align_up (region_end r)"
  have fits: "length ps \<le> n"
    using Cons.prems by (simp add: holds_def)
  show ?case
  proof (cases "?hi \<le> ?lo")
    case True
    then show ?thesis
      using Cons.IH [OF Cons.prems] fits by (simp add: all_fit_Cons cut_out_def [of ps r])
  next
    case False
    then have out: "concat (map (cut_piece ?lo ?hi) ps) = cut_out ps r"
      by (simp add: cut_out_def [of ps r])
    note fill = cut_pieces_fills [OF holds_new, of n ?lo ?hi ps, unfolded append_Nil out]
    note slice = holds_slice [OF Cons.prems]
    show ?thesis
    proof (cases "length (cut_out ps r) \<le> n")
      case True
      then obtain l' where "cut_pieces ?lo ?hi ps (region_list_new n) = Some (Inr l')" "holds n l' (cut_out ps r)"
        using fill by (auto simp: fills_def)
      then show ?thesis
        using Cons.IH [of l' "cut_out ps r"] False slice fits by (simp add: all_fit_Cons Let_def)
    next
      case False: False
      have "\<not> all_fit n (cut_out ps r) rs"
        using False by (auto simp: all_fit_def)
      then show ?thesis
        using fill False \<open>\<not> ?hi \<le> ?lo\<close> slice by (simp add: all_fit_Cons Let_def fills_def)
    qed
  qed
qed

lemma usable_result:
  "if all_fit n (concat (map whole_pages memory)) reserved
   then \<exists>l. usable n memory reserved = Some (Inr l) \<and> as_slice l = Some (sort_key rg_base (pieces_of memory reserved))
   else usable n memory reserved = Some (Inl TooManyRegions)"
proof -
  let ?ps = "concat (map whole_pages memory)"
  note fill = usable_memory_fills [OF holds_new, of n memory, unfolded append_Nil]
  show ?thesis
  proof (cases "length ?ps \<le> n")
    case True
    then obtain l where l: "usable_memory memory (region_list_new n) = Some (Inr l)" "holds n l ?ps"
      using fill by (auto simp: fills_def)
    note rest = usable_reserved_result [OF l(2), of reserved, folded pieces_of_def]
    show ?thesis
    proof (cases "all_fit n ?ps reserved")
      case True
      then obtain l' where l': "usable_reserved n reserved l = Some (Inr l')" "holds n l' (pieces_of memory reserved)"
        using rest by auto
      then obtain l2 where "copy_out (sort_key rg_base (pieces_of memory reserved)) (region_list_new n) = Some (Inr l2)"
          "holds n l2 (sort_key rg_base (pieces_of memory reserved))"
        using copy_out_fills [OF holds_new, of "sort_key rg_base (pieces_of memory reserved)" n] by (auto simp: holds_def)
      then show ?thesis
        using True l(1) l' holds_slice by (simp add: usable_def)
    qed (use rest l in \<open>simp add: usable_def\<close>)
  next
    case False
    then have "\<not> all_fit n ?ps reserved"
      by (auto simp: all_fit_def)
    then show ?thesis
      using fill False by (simp add: usable_def fills_def)
  qed
qed

section \<open>The properties\<close>

text \<open>
  C29. The usable RAM is sorted and made of whole pages, and a page of it is exactly a page that
  lies whole in some memory region and that no reserved range, grown to whole pages, takes: none that
  shares a byte with the page, and no empty one inside it past its first byte (the last page of the
  address space is left out). No byte is in more of its regions than in memory regions, so regions
  that do not overlap stay apart. It fails, with \<open>TooManyRegions\<close>, exactly when the whole pages of the
  memory, or what the first reserved ranges leave of them, need more than \<open>n\<close> regions at some point of
  the way, even if the result would fit.
\<close>

theorem usable_exact:
  "if \<exists>k\<le>length reserved. n < length (pieces_of memory (take k reserved))
   then usable n memory reserved = Some (Inl TooManyRegions)
   else \<exists>l out. usable n memory reserved = Some (Inr l) \<and> as_slice l = Some out \<and> length out \<le> n
      \<and> sorted (map rg_base out) \<and> (\<forall>x\<in>set out. piece_ok x) \<and> (\<forall>a. cover out a \<le> cover memory a)
      \<and> (\<forall>p. 4096 dvd p \<longrightarrow> (\<exists>x\<in>set out. spans x p) \<longleftrightarrow>
          (\<exists>m\<in>set memory. unat (rg_base m) \<le> p \<and> p + 4096 \<le> unat (rg_base m) + unat (rg_size m)) \<and> p + 4096 < 2 ^ 64
          \<and> \<not> (\<exists>r\<in>set reserved. p < unat (rg_base r) + unat (rg_size r) \<and> unat (rg_base r) < p + 4096))"
proof (cases "all_fit n (concat (map whole_pages memory)) reserved")
  case True
  let ?out = "sort_key rg_base (pieces_of memory reserved)"
  have fits: "\<not> (\<exists>k\<le>length reserved. n < length (pieces_of memory (take k reserved)))"
    using True by (auto simp: all_fit_def pieces_of_def not_less)
  obtain l where l: "usable n memory reserved = Some (Inr l)" "as_slice l = Some ?out"
    using usable_result [of n memory reserved] True by auto
  have "length ?out \<le> n"
    using True by (auto simp: all_fit_def pieces_of_def)
  moreover have "cover ?out a \<le> cover memory a" for a
    using pieces_of_disjoint [of memory reserved a] by (simp add: cover_def filter_sort)
  ultimately show ?thesis
    unfolding if_not_P [OF fits] using l pieces_of_cover(1) pieces_of_pages by (intro exI [of _ l] exI [of _ ?out]) simp
next
  case False
  then show ?thesis
    using usable_result [of n memory reserved] by (auto simp: all_fit_def pieces_of_def not_le)
qed


lemma replicate_step: "replicate (numeral k) x = x # replicate (pred_numeral k) x"
  by (simp add: numeral_eq_Suc)

lemmas evaluate = replicate_step region_list_new_def align_down_def align_up_def region_end_def PAGE_SIZE_num
  saturating_add_def checked_add_def memmap_push_def region_list_push_def as_slice_def set_index_def usable_def

theorem usable_exact_witness:
  "\<exists>l out. usable 2 [\<lparr>rg_base = 0x40000000, rg_size = 0x4000\<rparr>] [\<lparr>rg_base = 0x40001000, rg_size = 1\<rparr>] = Some (Inr l)
    \<and> as_slice l = Some out \<and> sorted (map rg_base out) \<and> (\<forall>x\<in>set out. piece_ok x)
    \<and> (\<exists>x\<in>set out. spans x 0x40002000) \<and> \<not> (\<exists>x\<in>set out. spans x 0x40001000)"
proof -
  let ?m = "[\<lparr>rg_base = 0x40000000, rg_size = 0x4000\<rparr>]" and ?r = "[\<lparr>rg_base = 0x40001000, rg_size = 1\<rparr>]"
  have fits: "\<not> (\<exists>k\<le>length ?r. 2 < length (pieces_of ?m (take k ?r)))"
  proof
    assume "\<exists>k\<le>length ?r. 2 < length (pieces_of ?m (take k ?r))"
    from usable_exact [of ?r 2 ?m, unfolded if_P [OF this]] show False
      by (simp add: evaluate)
  qed
  from usable_exact [of ?r 2 ?m, unfolded if_not_P [OF fits]]
  obtain l out where out: "usable 2 ?m ?r = Some (Inr l)" "as_slice l = Some out" "sorted (map rg_base out)" "\<forall>x\<in>set out. piece_ok x"
    and page: "\<forall>p. 4096 dvd p \<longrightarrow> (\<exists>x\<in>set out. spans x p) \<longleftrightarrow>
      (\<exists>m\<in>set ?m. unat (rg_base m) \<le> p \<and> p + 4096 \<le> unat (rg_base m) + unat (rg_size m)) \<and> p + 4096 < 2 ^ 64
          \<and> \<not> (\<exists>r\<in>set ?r. p < unat (rg_base r) + unat (rg_size r) \<and> unat (rg_base r) < p + 4096)"
    by (elim exE conjE)
  have "\<exists>x\<in>set out. spans x 0x40002000" "\<not> (\<exists>x\<in>set out. spans x 0x40001000)"
    using page by simp_all
  then show ?thesis
    using out by blast
qed

lemma clip_apart: "clip r w = None \<Longrightarrow> spans r a \<Longrightarrow> \<not> spans w a"
  by (auto simp: clip_def Let_def spans_def word_less_nat_alt max_def min_def split: if_splits)

lemma usable_page:
  assumes "usable n memory reserved = Some (Inr l)" and "as_slice l = Some out" and "x \<in> set out" and "spans x a"
  shows "(\<exists>m\<in>set memory. spans m a)
    \<and> \<not> (\<exists>r\<in>set reserved. 4096 * (a div 4096) < unat (rg_base r) + unat (rg_size r)
          \<and> unat (rg_base r) < 4096 * (a div 4096) + 4096)"
proof -
  let ?p = "4096 * (a div 4096)"
  have out: "out = sort_key rg_base (pieces_of memory reserved)"
    using usable_result [of n memory reserved] assms(1,2) by (auto split: if_splits)
  then have x: "x \<in> set (pieces_of memory reserved)"
    using assms(3) by simp
  have "4096 dvd unat (rg_base x)"
    using pieces_of_cover(1) [OF x] by (simp add: piece_ok_def)
  then have "unat (rg_base x) \<le> ?p"
    using assms(4) by (auto simp: spans_def elim!: dvdE)
  moreover have "?p \<le> a"
    by simp
  ultimately have "spans x ?p"
    using assms(4) unfolding spans_def by linarith
  then have "(\<exists>m\<in>set memory. unat (rg_base m) \<le> ?p \<and> ?p + 4096 \<le> unat (rg_base m) + unat (rg_size m)) \<and> ?p + 4096 < 2 ^ 64
      \<and> \<not> (\<exists>r\<in>set reserved. ?p < unat (rg_base r) + unat (rg_size r) \<and> unat (rg_base r) < ?p + 4096)"
    using pieces_of_pages [of ?p memory reserved] x by auto
  moreover have "a < ?p + 4096"
    using div_mult_mod_eq [of a 4096] mod_less_divisor [of 4096 a] by linarith
  ultimately show ?thesis
    using \<open>?p \<le> a\<close> by (fastforce simp: spans_def unat_region_end)
qed

text \<open>
  C30. A boot image that passes its check starts at a page, and each of its bytes lies in RAM, in a
  page that shares no byte with a range that is not to be mapped, and outside the kernel and the
  device tree. The check always answers.
\<close>

theorem boot_image_safe:
  "(\<exists>r. check_boot_image memory no_map img kern dtb = Some r)
   \<and> (check_boot_image memory no_map img kern dtb = Some (Inr ()) \<longrightarrow>
      4096 dvd unat (rg_base img)
      \<and> (\<forall>a. spans img a \<longrightarrow> (\<exists>m\<in>set memory. spans m a) \<and> \<not> spans kern a \<and> \<not> spans dtb a
          \<and> \<not> (\<exists>r\<in>set no_map. 4096 * (a div 4096) < unat (rg_base r) + unat (rg_size r)
                \<and> unat (rg_base r) < 4096 * (a div 4096) + 4096)))"
proof (intro conjI impI)
  show "\<exists>r. check_boot_image memory no_map img kern dtb = Some r"
    using usable_result [of 32 memory no_map] by (auto simp: check_boot_image_def split: if_splits)
  assume ok: "check_boot_image memory no_map img kern dtb = Some (Inr ())"
  have "rg_base img mod 4096 = 0"
    using ok by (auto simp: check_boot_image_def is_multiple_of_def PAGE_SIZE_num split: if_splits)
  then have "unat (rg_base img mod 4096) = 0"
    by simp
  then show "4096 dvd unat (rg_base img)"
    by (simp add: unat_mod dvd_eq_mod_eq_0)
  obtain l out x where l: "usable 32 memory no_map = Some (Inr l)" "as_slice l = Some out" "x \<in> set out"
      "rg_base x \<le> rg_base img" "region_end img \<le> region_end x"
    and clips: "clip img kern = None" "clip img dtb = None"
    using ok by (auto simp: check_boot_image_def list_ex_iff Let_def stop_simps split: if_splits option.splits sum.splits)
  show "\<forall>a. spans img a \<longrightarrow> (\<exists>m\<in>set memory. spans m a) \<and> \<not> spans kern a \<and> \<not> spans dtb a
      \<and> \<not> (\<exists>r\<in>set no_map. 4096 * (a div 4096) < unat (rg_base r) + unat (rg_size r)
            \<and> unat (rg_base r) < 4096 * (a div 4096) + 4096)"
  proof (intro allI impI)
    fix a
    assume a: "spans img a"
    then have "spans x a"
      using l(4,5) by (auto simp: spans_def word_le_nat_alt)
    then show "(\<exists>m\<in>set memory. spans m a) \<and> \<not> spans kern a \<and> \<not> spans dtb a
      \<and> \<not> (\<exists>r\<in>set no_map. 4096 * (a div 4096) < unat (rg_base r) + unat (rg_size r)
            \<and> unat (rg_base r) < 4096 * (a div 4096) + 4096)"
      using usable_page [OF l(1-3)] clip_apart [OF clips(1) a] clip_apart [OF clips(2) a] by blast
  qed
qed

theorem boot_image_safe_witness:
  "4096 dvd unat (rg_base \<lparr>rg_base = 0x40002000, rg_size = 0x1800\<rparr>)"
proof -
  have "check_boot_image [\<lparr>rg_base = 0x40000000, rg_size = 0x8000\<rparr>] [] \<lparr>rg_base = 0x40002000, rg_size = 0x1800\<rparr>
      \<lparr>rg_base = 0x40000000, rg_size = 0x2000\<rparr> \<lparr>rg_base = 0x40004000, rg_size = 0x100\<rparr> = Some (Inr ())"
    by (simp add: evaluate check_boot_image_def is_multiple_of_def clip_def)
  then show ?thesis
    using boot_image_safe by blast
qed

end
