(* ===== verification/Device_Window.thy ===== *)
theory Device_Window
  imports Memory_Map
begin

text \<open>
  Device windows and the port of the console: \<open>kcore/src/window.rs\<close>, \<open>kcore/src/console.rs\<close> and
  the boot information they read, \<open>kcore/src/bootinfo.rs\<close>.
\<close>

section \<open>Boot information\<close>

definition MEMORY_REGIONS :: nat where "MEMORY_REGIONS = 8"
definition GIC_REGIONS :: nat where "GIC_REGIONS = 8"
definition MAX_CPUS :: nat where "MAX_CPUS = 8"

datatype psci_conduit = PsciNone | Hvc | Smc

datatype gic_version = V2 | V3

record gic =
  version :: gic_version
  regs :: region_list

record cpu_list =
  mpidr :: "u64 list"
  cpus_len :: nat

definition cpu_list_new :: cpu_list where
  "cpu_list_new = \<lparr>mpidr = replicate MAX_CPUS 0, cpus_len = 0\<rparr>"

definition cpus_as_slice :: "cpu_list \<Rightarrow> u64 list option" where
  "cpus_as_slice l = do { ensure (cpus_len l \<le> length (mpidr l)); Some (take (cpus_len l) (mpidr l)) }"

definition cpus_push :: "cpu_list \<Rightarrow> u64 \<Rightarrow> cpu_list option" where
  "cpus_push l m =
     (if cpus_len l < MAX_CPUS then do {
        ms \<leftarrow> cpus_as_slice l;
        if m \<in> set ms then Some l
        else do {
          xs \<leftarrow> set_index (mpidr l) (cpus_len l) m;
          Some \<lparr>mpidr = xs, cpus_len = cpus_len l + 1\<rparr> } }
      else Some l)"

record boot_info =
  memory :: region_list
  reserved :: region_list
  no_map :: region_list
  initrd :: "region option"
  uart_pl011 :: "region option"
  boot_gic :: "gic option"
  psci :: psci_conduit
  cpus :: cpu_list

section \<open>Windows\<close>

definition OUTPUT_END :: u64 where "OUTPUT_END = push_bit 48 1"

definition round_out :: "u64 \<Rightarrow> u64 \<Rightarrow> (u64 \<times> u64) result" where
  "round_out addr l =
     (let e = (if l > 0 then checked_add addr l else None);
          tp = Option.bind e (\<lambda>e. checked_next_multiple_of e PAGE_SIZE);
          b = addr AND NOT (PAGE_SIZE - 1) in
      case tp of
        Some tp \<Rightarrow>
          if tp \<le> OUTPUT_END \<and> tp - b \<le> MAX_MEMORY then Inr (b, (tp - b) div PAGE_SIZE) else Inl InvalidArgs
      | None \<Rightarrow> Inl InvalidArgs)"

fun push_all :: "region list \<Rightarrow> region_list \<Rightarrow> region_list option" where
  "push_all [] l = Some l"
| "push_all (r # rs) l =
     (case region_list_push l r of Some (Inr l) \<Rightarrow> push_all rs l | _ \<Rightarrow> None)"

definition forbidden :: "boot_info \<Rightarrow> region_list option" where
  "forbidden info = do {
     gic \<leftarrow> (case boot_gic info of None \<Rightarrow> Some [] | Some g \<Rightarrow> as_slice (regs g));
     ram \<leftarrow> as_slice (memory info);
     push_all (ram @ gic) (region_list_new (MEMORY_REGIONS + GIC_REGIONS)) }"

definition window_check :: "u64 \<Rightarrow> u64 \<Rightarrow> region list \<Rightarrow> unit result" where
  "window_check b pages rs =
     (let e = b + pages * PAGE_SIZE;
          touches = list_ex (\<lambda>r.
            let first = rg_base r AND NOT (PAGE_SIZE - 1);
                last = next_multiple_of (saturating_add (rg_base r) (rg_size r)) PAGE_SIZE in
            rg_size r > 0 \<and> first < e \<and> b < last) rs in
      if touches then Inl InvalidArgs else Inr ())"

section \<open>The port of the console\<close>

definition FR_BUSY :: u32 where "FR_BUSY = push_bit 3 1"
definition FR_TXFF :: u32 where "FR_TXFF = push_bit 5 1"

definition covers :: "region \<Rightarrow> u64 \<Rightarrow> u64 \<Rightarrow> bool" where
  "covers port b pages =
     (let first = rg_base port AND NOT (PAGE_SIZE - 1);
          last = next_multiple_of (region_end port) PAGE_SIZE;
          e = saturating_add b (saturating_mul pages PAGE_SIZE) in
      rg_size port > 0 \<and> first < e \<and> b < last)"

text \<open>The \<open>n\<close>-th read of the flag register and the \<open>n\<close>-th question whether the time is up.\<close>

partial_function (option) drain :: "(nat \<Rightarrow> u32) \<Rightarrow> (nat \<Rightarrow> bool) \<Rightarrow> nat \<Rightarrow> bool option" where
  "drain fr expired n =
     (if fr n AND FR_BUSY = 0 then Some True
      else if expired n then Some False
      else drain fr expired (n + 1))"

section \<open>Pages\<close>

lemma round_up:
  fixes n :: nat
  shows "4096 * ((n + 4095) div 4096) = (if n mod 4096 = 0 then n else n + (4096 - n mod 4096))"
proof -
  define q r where "q = n div 4096" and "r = n mod 4096"
  have n: "n = 4096 * q + r" and r: "r < 4096"
    by (simp_all add: q_def r_def)
  have "(4096 * q + r + 4095) div 4096 = q + (r + 4095) div 4096"
    by (simp add: add.assoc)
  moreover have "(r + 4095) div 4096 = (if r = 0 then 0 else 1)"
    using r by (auto simp: div_nat_eqI)
  ultimately have "4096 * ((n + 4095) div 4096) = (if r = 0 then n else n + (4096 - r))"
    using r by (simp add: n)
  then show ?thesis
    by (simp add: r_def)
qed

lemma page_up:
  fixes x :: u64
  assumes "unat x \<le> 2 ^ 64 - 4096"
  shows "unat (next_multiple_of x PAGE_SIZE) = 4096 * ((unat x + 4095) div 4096)"
    and "checked_next_multiple_of x PAGE_SIZE = Some (next_multiple_of x PAGE_SIZE)"
proof -
  have rest: "unat (x mod 4096) = unat x mod 4096" "unat (4096 - x mod 4096) = 4096 - unat x mod 4096"
    using unat_sub_no_wrap [of "x mod 4096" 4096] by (simp_all add: unat_mod word_le_nat_alt less_imp_le)
  have zero: "x mod 4096 = 0 \<longleftrightarrow> unat x mod 4096 = 0"
    using rest(1) by (metis unat_0 unsigned_eq_0_iff)
  have fits: "unat x + (4096 - unat x mod 4096) < 2 ^ 64" if "unat x mod 4096 \<noteq> 0"
    using that assms by linarith
  then show "unat (next_multiple_of x PAGE_SIZE) = 4096 * ((unat x + 4095) div 4096)"
    using unat_add_no_wrap [of x "4096 - x mod 4096"]
    unfolding round_up next_multiple_of_def PAGE_SIZE_num zero rest(2) by simp
  show "checked_next_multiple_of x PAGE_SIZE = Some (next_multiple_of x PAGE_SIZE)"
    using fits unfolding checked_next_multiple_of_def next_multiple_of_def checked_add_def PAGE_SIZE_num zero rest(2) by simp
qed

lemma page_up_wraps:
  fixes x :: u64
  assumes "2 ^ 64 - 4096 < unat x"
  shows "next_multiple_of x PAGE_SIZE = 0" and "checked_next_multiple_of x PAGE_SIZE = None"
proof -
  have rest: "unat (x mod 4096) = unat x mod 4096" "unat (4096 - x mod 4096) = 4096 - unat x mod 4096"
    using unat_sub_no_wrap [of "x mod 4096" 4096] by (simp_all add: unat_mod word_le_nat_alt less_imp_le)
  define d where "d = unat x - (2 ^ 64 - 4096)"
  have d: "unat x = d + 4096 * 4503599627370495" "0 < d" "d < 4096"
    using assms unat_below [of x] by (simp_all add: d_def)
  then have m: "unat x mod 4096 = d"
    by (simp only: mod_mult_self2 mod_less)
  have nz: "x mod 4096 \<noteq> 0"
    using rest(1) m d(2) by (metis less_not_refl unat_0)
  have sum: "unat x + unat (4096 - x mod 4096) = 2 ^ 64"
    using d unfolding rest m by simp
  then have "x + (4096 - x mod 4096) = 0"
    by (simp add: word_unat_eq_iff unat_word_ariths)
  then show "next_multiple_of x PAGE_SIZE = 0" "checked_next_multiple_of x PAGE_SIZE = None"
    using nz sum by (simp_all add: next_multiple_of_def checked_next_multiple_of_def checked_add_def PAGE_SIZE_num)
qed

lemma drain_returns:
  assumes "fr n AND FR_BUSY = 0 \<or> expired n" and "m \<le> n"
  shows "\<exists>r. drain fr expired m = Some r"
  using assms(2)
proof (induction rule: inc_induct)
  case base
  then show ?case
    using assms(1) by (subst drain.simps) auto
next
  case (step k)
  then show ?case
    by (subst drain.simps) auto
qed

section \<open>The properties\<close>

text \<open>
  What is forbidden is the RAM and the regions of the interrupt controller, and there is room for
  them.
\<close>

lemma push_all_room:
  assumes "holds n l xs" and "length xs + length rs \<le> n"
  shows "\<exists>l'. push_all rs l = Some l' \<and> holds n l' (xs @ rs)"
  using assms
proof (induction rs arbitrary: l xs)
  case (Cons r rs)
  then obtain l' where "region_list_push l r = Some (Inr l')" "holds n l' (xs @ [r])"
    using push_result(3) [OF Cons.prems(1)] by fastforce
  then show ?case
    using Cons.IH [of l' "xs @ [r]"] Cons.prems(2) by simp
qed simp

lemma forbidden_lists_all:
  assumes "holds MEMORY_REGIONS (memory info) ram" and "boot_gic info = Some g" and "holds GIC_REGIONS (regs g) rs"
  shows "\<exists>l. forbidden info = Some l \<and> as_slice l = Some (ram @ rs)"
proof -
  have "length ram \<le> MEMORY_REGIONS" "length rs \<le> GIC_REGIONS"
    using assms(1,3) by (simp_all add: holds_def)
  then obtain l where "push_all (ram @ rs) (region_list_new (MEMORY_REGIONS + GIC_REGIONS)) = Some l"
      "holds (MEMORY_REGIONS + GIC_REGIONS) l (ram @ rs)"
    using push_all_room [OF holds_new, of "ram @ rs" "MEMORY_REGIONS + GIC_REGIONS"] by auto
  then show ?thesis
    using assms holds_slice by (auto simp: forbidden_def)
qed

text \<open>A region of the forbidden list shares a page with the window.\<close>

definition shares_page :: "nat \<Rightarrow> nat \<Rightarrow> region \<Rightarrow> bool" where
  "shares_page b e r \<longleftrightarrow>
     (\<exists>p. 4096 dvd p \<and> b \<le> p \<and> p < e \<and> p < unat (rg_base r) + unat (rg_size r) \<and> unat (rg_base r) < p + 4096)"

lemma shares_page_iff:
  assumes "4096 dvd b" and "4096 dvd e" and "0 < rg_size r"
  shows "shares_page b e r \<longleftrightarrow>
    4096 * (unat (rg_base r) div 4096) < e \<and> b < 4096 * ((unat (rg_base r) + unat (rg_size r) + 4095) div 4096) \<and> b < e"
proof -
  let ?f = "4096 * (unat (rg_base r) div 4096)" and ?stop = "unat (rg_base r) + unat (rg_size r)"
  have size: "0 < unat (rg_size r)"
    using assms(3) by (simp add: word_less_nat_alt)
  have f: "?f \<le> unat (rg_base r)" "unat (rg_base r) < ?f + 4096"
    using div_mult_mod_eq [of "unat (rg_base r)" 4096] mod_less_divisor [of 4096 "unat (rg_base r)"] by linarith+
  obtain j where j: "b = 4096 * j"
    using assms(1) by (elim dvdE)
  have last: "b < 4096 * ((?stop + 4095) div 4096) \<longleftrightarrow> b < ?stop"
    using less_eq_div_iff_mult_less_eq [of 4096 "Suc j" "?stop + 4095"] by (auto simp: j Suc_le_eq)
  show ?thesis
    unfolding last
  proof
    assume "shares_page b e r"
    then obtain p where p: "4096 dvd p" "b \<le> p" "p < e" "p < ?stop" "unat (rg_base r) < p + 4096"
      by (auto simp: shares_page_def)
    then have "?f \<le> p"
      using f by (auto elim!: dvdE)
    then show "?f < e \<and> b < ?stop \<and> b < e"
      using p by linarith
  next
    assume touch: "?f < e \<and> b < ?stop \<and> b < e"
    have "4096 dvd max b ?f" "max b ?f < e" "max b ?f < ?stop" "unat (rg_base r) < max b ?f + 4096"
      using assms(1) touch f size by (auto simp: max_def)
    then show "shares_page b e r"
      unfolding shares_page_def by (intro exI [of _ "max b ?f"]) simp
  qed
qed


lemma round_out_cases:
  defines "f \<equiv> \<lambda>addr :: u64. 4096 * (unat addr div 4096)"
    and "t \<equiv> \<lambda>(addr :: u64) (l :: u64). 4096 * ((unat addr + unat l + 4095) div 4096)"
  shows "if l = 0 \<or> 2 ^ 48 < unat addr + unat l \<or> 2 ^ 30 < t addr l - f addr then round_out addr l = Inl InvalidArgs
    else \<exists>b n. round_out addr l = Inr (b, n) \<and> unat b = f addr \<and> unat b + 4096 * unat n = t addr l \<and> t addr l \<le> 2 ^ 48"
proof (cases "l = 0 \<or> 2 ^ 64 - 4096 < unat addr + unat l")
  case True
  have "round_out addr l = Inl InvalidArgs"
  proof (cases "l = 0 \<or> 2 ^ 64 \<le> unat addr + unat l")
    case True
    then show ?thesis
      by (auto simp: round_out_def Let_def checked_add_def word_gt_0)
  next
    case no_wrap: False
    then have "checked_next_multiple_of (addr + l) PAGE_SIZE = None"
      using True unat_add_no_wrap [of addr l] by (intro page_up_wraps) simp
    then show ?thesis
      using no_wrap by (simp add: round_out_def checked_add_def word_gt_0)
  qed
  then show ?thesis
    using True by auto
next
  case False
  let ?b = "addr AND NOT (PAGE_SIZE - 1)" and ?t = "next_multiple_of (addr + l) PAGE_SIZE"
  have sum: "unat (addr + l) = unat addr + unat l" "unat addr + unat l < 2 ^ 64"
    using False unat_add_no_wrap [of addr l] by simp_all
  have b: "unat ?b = f addr"
    by (simp only: f_def unat_page_down)
  have t: "unat ?t = t addr l" "checked_next_multiple_of (addr + l) PAGE_SIZE = Some ?t"
    using False page_up [of "addr + l"] sum by (simp_all add: t_def)
  have up: "t addr l \<le> 2 ^ 48 \<longleftrightarrow> unat addr + unat l \<le> 2 ^ 48"
    using less_eq_div_iff_mult_less_eq [of 4096 "2 ^ 36 + 1" "unat addr + unat l + 4095"]
    unfolding t_def by (auto simp: not_less [symmetric])
  have le: "?b \<le> ?t"
  proof -
    have "f addr \<le> t addr l"
      unfolding f_def t_def by (intro mult_le_mono2 div_le_mono) simp
    then show ?thesis
      by (simp add: word_le_nat_alt b t)
  qed
  have diff: "unat (?t - ?b) = t addr l - f addr"
    using unat_sub_no_wrap [OF le] b t by simp
  have call: "round_out addr l =
      (if ?t \<le> OUTPUT_END \<and> ?t - ?b \<le> MAX_MEMORY then Inr (?b, (?t - ?b) div PAGE_SIZE) else Inl InvalidArgs)"
    using False sum t(2) by (simp add: round_out_def Let_def checked_add_def word_gt_0)
  have bounds: "?t \<le> OUTPUT_END \<longleftrightarrow> unat addr + unat l \<le> 2 ^ 48" "?t - ?b \<le> MAX_MEMORY \<longleftrightarrow> t addr l - f addr \<le> 2 ^ 30"
    using t(1) diff up by (simp_all add: word_le_nat_alt OUTPUT_END_def MAX_MEMORY_def push_bit_eq_mult)
  have "unat ?b + 4096 * unat ((?t - ?b) div PAGE_SIZE) = t addr l"
  proof -
    have "4096 dvd t addr l - f addr"
      unfolding t_def f_def by simp
    moreover have "f addr \<le> t addr l"
      using le b t(1) by (simp add: word_le_nat_alt)
    moreover have "unat PAGE_SIZE = 4096"
      by (simp add: PAGE_SIZE_num)
    ultimately show ?thesis
      unfolding unat_div b diff by simp
  qed
  then show ?thesis
    using False b up unfolding call bounds by auto
qed

text \<open>
  C31. A window is exactly the pages of the range asked for: \<open>round_out\<close> refuses an empty range,
  one that ends past 2^48 and one of more than 1 GiB, and gives the first page and the count of the
  pages otherwise; the check then lets a window through exactly when no forbidden region shares a
  page with it, for regions that end before the last page of the address space.
\<close>

theorem device_window_exact:
  assumes "\<forall>r\<in>set rs. unat (rg_base r) + unat (rg_size r) \<le> 2 ^ 64 - 4096"
  shows "case round_out addr l of
      Inl err \<Rightarrow> err = InvalidArgs \<and> (l = 0 \<or> 2 ^ 48 < unat addr + unat l
        \<or> 2 ^ 30 < 4096 * ((unat addr + unat l + 4095) div 4096) - 4096 * (unat addr div 4096))
    | Inr (b, n) \<Rightarrow> l \<noteq> 0 \<and> unat b = 4096 * (unat addr div 4096)
        \<and> unat b + 4096 * unat n = 4096 * ((unat addr + unat l + 4095) div 4096)
        \<and> unat b + 4096 * unat n \<le> 2 ^ 48 \<and> 4096 * unat n \<le> 2 ^ 30
        \<and> window_check b n rs =
            (if \<exists>r\<in>set rs. 0 < rg_size r \<and> shares_page (unat b) (unat b + 4096 * unat n) r then Inl InvalidArgs else Inr ())"
proof (cases "round_out addr l")
  case (Inl err)
  then show ?thesis
    using round_out_cases [of l addr] by (auto split: if_splits)
next
  case (Inr bn)
  obtain b n where bn: "bn = (b, n)"
    by (cases bn)
  note out = round_out_cases [of l addr, unfolded Inr bn]
  have facts: "l \<noteq> 0" "unat b = 4096 * (unat addr div 4096)"
      "unat b + 4096 * unat n = 4096 * ((unat addr + unat l + 4095) div 4096)" "unat b + 4096 * unat n \<le> 2 ^ 48"
      "4096 * unat n \<le> 2 ^ 30"
    using out by (auto split: if_splits)
  have e: "unat (b + n * PAGE_SIZE) = unat b + 4096 * unat n"
    using facts(4) unat_mult_no_wrap [of n 4096] unat_add_no_wrap [of b "n * 4096"] by (simp add: PAGE_SIZE_num mult.commute)
  have less: "unat b < unat b + 4096 * unat n"
  proof -
    have "0 < unat l"
      using facts(1) by (simp add: unat_gt_0)
    then have "unat addr div 4096 < (unat addr + unat l + 4095) div 4096"
      by linarith
    then show ?thesis
      using facts(2,3) by simp
  qed
  have "(let first = rg_base r AND NOT (PAGE_SIZE - 1);
            last = next_multiple_of (saturating_add (rg_base r) (rg_size r)) PAGE_SIZE in
            rg_size r > 0 \<and> first < b + n * PAGE_SIZE \<and> b < last)
      \<longleftrightarrow> 0 < rg_size r \<and> shares_page (unat b) (unat b + 4096 * unat n) r" if r: "r \<in> set rs" for r
  proof (cases "0 < rg_size r")
    case True
    have "unat (saturating_add (rg_base r) (rg_size r)) = unat (rg_base r) + unat (rg_size r)"
      using assms r by (fastforce simp: unat_saturating_add)
    then show ?thesis
      using True shares_page_iff [of "unat b" "unat b + 4096 * unat n" r] facts(2) less assms r
        page_up(1) [of "saturating_add (rg_base r) (rg_size r)"]
      unfolding Let_def word_less_nat_alt [of "_ AND _"] word_less_nat_alt [of b] e unat_page_down by simp
  qed simp
  then show ?thesis
    using facts Inr bn by (simp add: window_check_def list_ex_iff Let_def cong: bex_cong)
qed

theorem device_window_exact_witness:
  "round_out 0x9000100 0x20 = Inr (0x9000000, 1) \<and>
   window_check 0x9000000 1 [\<lparr>rg_base = 0x40000000, rg_size = 0x8000000\<rparr>] =
    (if \<exists>r\<in>set [\<lparr>rg_base = 0x40000000, rg_size = 0x8000000\<rparr>]. 0 < rg_size r \<and> shares_page 0x9000000 (0x9000000 + 4096) r
     then Inl InvalidArgs else Inr ())"
proof
  show out: "round_out 0x9000100 0x20 = Inr (0x9000000, 1)"
    by (simp add: round_out_def checked_add_def checked_next_multiple_of_def PAGE_SIZE_num OUTPUT_END_def MAX_MEMORY_def)
  show "window_check 0x9000000 1 [\<lparr>rg_base = 0x40000000, rg_size = 0x8000000\<rparr>] =
    (if \<exists>r\<in>set [\<lparr>rg_base = 0x40000000, rg_size = 0x8000000\<rparr>]. 0 < rg_size r \<and> shares_page 0x9000000 (0x9000000 + 4096) r
     then Inl InvalidArgs else Inr ())"
    using device_window_exact [of "[\<lparr>rg_base = 0x40000000, rg_size = 0x8000000\<rparr>]" "0x20" "0x9000100"] by (simp add: out)
qed

text \<open>
  C32. A forbidden region that reaches into the last page of the address space is not seen at all:
  its end, rounded up to a page, wraps around to 0, so every window over it passes the check.
\<close>

theorem window_check_wraps:
  assumes "2 ^ 64 - 4096 < unat (rg_base r) + unat (rg_size r)"
  shows "window_check b n [r] = Inr ()"
proof -
  have "2 ^ 64 - 4096 < unat (saturating_add (rg_base r) (rg_size r))"
    using assms by (simp add: unat_saturating_add)
  then show ?thesis
    using page_up_wraps(1) by (simp add: window_check_def Let_def)
qed

theorem window_check_wraps_witness:
  "window_check 0x40000000 1 [\<lparr>rg_base = 0x40000000, rg_size = - 1\<rparr>] = Inr ()"
  using window_check_wraps [of "\<lparr>rg_base = 0x40000000, rg_size = - 1\<rparr>"] by (simp add: unat_max_word)

end
