(* ===== verification/Timer_Heap.thy ===== *)
theory Timer_Heap
  imports Prelude
begin

text \<open>
  The heap of timers of \<open>kcore/src/timer.rs\<close>: a binary min-heap by deadline whose links are in the
  timers.

  The timers are a store of links: a function from pointers to \<open>heap_link\<close>. A pointer in the heap is
  alive by the contract of \<open>insert\<close>, so a read of its link never stops. The loops of \<open>sift_up\<close> and
  \<open>sift_down\<close> are partial functions: that they end is part of what is proved. A position is a
  \<open>usize\<close> and stays below twice the number of timers, so it is a \<open>nat\<close>.
\<close>

section \<open>State\<close>

record 'p heap_link =
  hl_deadline :: u64
  hl_linked :: bool
  hl_parent :: "'p option"
  hl_left :: "'p option"
  hl_right :: "'p option"

type_synonym 'p hlinks = "'p \<Rightarrow> 'p heap_link"

record 'p theap =
  th_root :: "'p option"
  th_len :: nat

definition heap_link_new :: "'p heap_link" where
  "heap_link_new = \<lparr>hl_deadline = 0, hl_linked = False, hl_parent = None, hl_left = None, hl_right = None\<rparr>"

definition heap_new :: "'p theap" where
  "heap_new = \<lparr>th_root = None, th_len = 0\<rparr>"

definition heap_is_empty :: "'p theap \<Rightarrow> bool" where
  "heap_is_empty h \<longleftrightarrow> th_len h = 0"

section \<open>Operations\<close>

definition heap_first :: "'p theap \<Rightarrow> 'p hlinks \<Rightarrow> u64 option" where
  "heap_first h ls = map_option (\<lambda>r. hl_deadline (ls r)) (th_root h)"

definition earlier :: "'p hlinks \<Rightarrow> 'p \<Rightarrow> 'p \<Rightarrow> bool" where
  "earlier ls a b \<longleftrightarrow> hl_deadline (ls a) < hl_deadline (ls b)"

text \<open>\<open>ilog2\<close> of a position that is not 0.\<close>

fun ilog2 :: "nat \<Rightarrow> nat" where
  "ilog2 n = (if n < 2 then 0 else Suc (ilog2 (n div 2)))"

declare ilog2.simps [simp del]

text \<open>The walk of \<open>at\<close> down the bits of the position.\<close>

fun heap_walk :: "'p hlinks \<Rightarrow> nat \<Rightarrow> nat list \<Rightarrow> 'p \<Rightarrow> 'p option" where
  "heap_walk ls position [] t = Some t"
| "heap_walk ls position (b # bs) t = do {
     nxt \<leftarrow> (if position div 2 ^ b mod 2 = 0 then hl_left (ls t) else hl_right (ls t));
     heap_walk ls position bs nxt }"

text \<open>The inner option is the answer, the outer one the stop of the walk.\<close>

definition heap_at :: "'p theap \<Rightarrow> 'p hlinks \<Rightarrow> nat \<Rightarrow> 'p option option" where
  "heap_at h ls position =
     (if position = 0 \<or> position > th_len h then Some None
      else case th_root h of
        None \<Rightarrow> Some None
      | Some r \<Rightarrow> map_option Some (heap_walk ls position (rev [0..<ilog2 position]) r))"

text \<open>A link changed through a pointer that may be absent.\<close>

definition upd_opt :: "'p hlinks \<Rightarrow> 'p option \<Rightarrow> ('p heap_link \<Rightarrow> 'p heap_link) \<Rightarrow> 'p hlinks" where
  "upd_opt ls q f = (case q of None \<Rightarrow> ls | Some u \<Rightarrow> ls(u := f (ls u)))"

definition replace_child ::
  "'p theap \<Rightarrow> 'p hlinks \<Rightarrow> 'p option \<Rightarrow> 'p \<Rightarrow> 'p \<Rightarrow> 'p theap \<times> 'p hlinks" where
  "replace_child h ls parent old new =
     (case parent of
        None \<Rightarrow> (h\<lparr>th_root := Some new\<rparr>, ls)
      | Some p \<Rightarrow>
          (h, ls(p := if hl_left (ls p) = Some old then (ls p)\<lparr>hl_left := Some new\<rparr>
                      else (ls p)\<lparr>hl_right := Some new\<rparr>)))"

definition swap_with_parent :: "'p theap \<Rightarrow> 'p hlinks \<Rightarrow> 'p \<Rightarrow> ('p theap \<times> 'p hlinks) option" where
  "swap_with_parent h ls t = do {
     parent \<leftarrow> hl_parent (ls t);
     let left = hl_left (ls t);
     let right = hl_right (ls t);
     let grandparent = hl_parent (ls parent);
     let p_left = hl_left (ls parent);
     let p_right = hl_right (ls parent);
     let (h, ls) = replace_child h ls grandparent parent t;
     let (new_left, new_right, sibling) =
       (if p_left = Some t then (Some parent, p_right, p_right) else (p_left, Some parent, p_left));
     let ls = ls(t := (ls t)\<lparr>hl_parent := grandparent, hl_left := new_left, hl_right := new_right\<rparr>);
     let ls = upd_opt ls sibling (\<lambda>l. l\<lparr>hl_parent := Some t\<rparr>);
     let ls = ls(parent := (ls parent)\<lparr>hl_parent := Some t, hl_left := left, hl_right := right\<rparr>);
     let ls = upd_opt ls left (\<lambda>l. l\<lparr>hl_parent := Some parent\<rparr>);
     let ls = upd_opt ls right (\<lambda>l. l\<lparr>hl_parent := Some parent\<rparr>);
     Some (h, ls) }"

partial_function (option) sift_up :: "'p theap \<Rightarrow> 'p hlinks \<Rightarrow> 'p \<Rightarrow> ('p theap \<times> 'p hlinks) option" where
  "sift_up h ls t =
     (case hl_parent (ls t) of
        None \<Rightarrow> Some (h, ls)
      | Some p \<Rightarrow>
          if earlier ls t p then do {
            (h, ls) \<leftarrow> swap_with_parent h ls t;
            sift_up h ls t }
          else Some (h, ls))"

text \<open>The child \<open>sift_down\<close> compares with.\<close>

definition sift_child :: "'p hlinks \<Rightarrow> 'p \<Rightarrow> 'p option" where
  "sift_child ls t =
     (case (hl_left (ls t), hl_right (ls t)) of
        (Some l, Some r) \<Rightarrow> Some (if earlier ls r l then r else l)
      | (Some l, None) \<Rightarrow> Some l
      | (None, _) \<Rightarrow> None)"

partial_function (option) sift_down :: "'p theap \<Rightarrow> 'p hlinks \<Rightarrow> 'p \<Rightarrow> ('p theap \<times> 'p hlinks) option" where
  "sift_down h ls t =
     (case sift_child ls t of
        None \<Rightarrow> Some (h, ls)
      | Some child \<Rightarrow>
          if \<not> earlier ls child t then Some (h, ls)
          else do {
            (h, ls) \<leftarrow> swap_with_parent h ls child;
            sift_down h ls t })"

definition heap_insert :: "'p theap \<Rightarrow> 'p hlinks \<Rightarrow> 'p \<Rightarrow> u64 \<Rightarrow> ('p theap \<times> 'p hlinks) option" where
  "heap_insert h ls t deadline = do {
     ensure (\<not> hl_linked (ls t));
     let ls = ls(t := heap_link_new\<lparr>hl_deadline := deadline, hl_linked := True\<rparr>);
     let position = th_len h + 1;
     (h, ls) \<leftarrow>
       (if position = 1 then Some (h\<lparr>th_root := Some t\<rparr>, ls)
        else do {
          at \<leftarrow> heap_at h ls (position div 2);
          parent \<leftarrow> at;
          let ls = ls(t := (ls t)\<lparr>hl_parent := Some parent\<rparr>);
          Some (h, ls(parent := if position mod 2 = 0 then (ls parent)\<lparr>hl_left := Some t\<rparr>
                                else (ls parent)\<lparr>hl_right := Some t\<rparr>)) });
     sift_up (h\<lparr>th_len := position\<rparr>) ls t }"

text \<open>The part of \<open>remove\<close> that takes the last node out of its place.\<close>

definition unlink_last :: "'p theap \<Rightarrow> 'p hlinks \<Rightarrow> 'p \<Rightarrow> 'p theap \<times> 'p hlinks" where
  "unlink_last h ls final =
     (case hl_parent (ls final) of
        None \<Rightarrow> (h\<lparr>th_root := None, th_len := th_len h - 1\<rparr>, ls)
      | Some p \<Rightarrow>
          (h\<lparr>th_len := th_len h - 1\<rparr>,
           ls(p := if hl_right (ls p) = Some final then (ls p)\<lparr>hl_right := None\<rparr>
                   else (ls p)\<lparr>hl_left := None\<rparr>)))"

text \<open>The part of \<open>remove\<close> that puts the last node in the place of \<open>t\<close>.\<close>

definition fill_place :: "'p theap \<Rightarrow> 'p hlinks \<Rightarrow> 'p \<Rightarrow> 'p \<Rightarrow> ('p theap \<times> 'p hlinks) option" where
  "fill_place h ls t final = do {
     let parent = hl_parent (ls t);
     let left = hl_left (ls t);
     let right = hl_right (ls t);
     let (h, ls) = replace_child h ls parent t final;
     let ls = ls(final := (ls final)\<lparr>hl_parent := parent, hl_left := left, hl_right := right\<rparr>);
     let ls = upd_opt ls left (\<lambda>l. l\<lparr>hl_parent := Some final\<rparr>);
     let ls = upd_opt ls right (\<lambda>l. l\<lparr>hl_parent := Some final\<rparr>);
     if (case parent of None \<Rightarrow> False | Some p \<Rightarrow> earlier ls final p) then do {
       (h, ls) \<leftarrow> swap_with_parent h ls final;
       sift_up h ls final }
     else sift_down h ls final }"

definition heap_remove :: "'p theap \<Rightarrow> 'p hlinks \<Rightarrow> 'p \<Rightarrow> ('p theap \<times> 'p hlinks) option" where
  "heap_remove h ls t = do {
     ensure (hl_linked (ls t));
     at \<leftarrow> heap_at h ls (th_len h);
     final \<leftarrow> at;
     let (h, ls) = unlink_last h ls final;
     (h, ls) \<leftarrow> (if final \<noteq> t then fill_place h ls t final else Some (h, ls));
     Some (h, ls(t := (ls t)\<lparr>hl_linked := False, hl_parent := None, hl_left := None, hl_right := None\<rparr>)) }"

definition heap_pop_expired :: "'p theap \<Rightarrow> 'p hlinks \<Rightarrow> u64 \<Rightarrow> ('p option \<times> 'p theap \<times> 'p hlinks) option" where
  "heap_pop_expired h ls now =
     (case th_root h of
        None \<Rightarrow> Some (None, h, ls)
      | Some root \<Rightarrow>
          if hl_deadline (ls root) > now then Some (None, h, ls)
          else do {
            (h, ls) \<leftarrow> heap_remove h ls root;
            Some (Some root, h, ls) })"

end
