(* ===== verification/Timer_Rep.thy ===== *)
theory Timer_Rep
  imports Timer_Heap
begin

text \<open>
  The heap of timers as the list of its timers by position: which links a list of timers has, the
  walk to a position, and the change of places of a timer and its parent.
\<close>

section \<open>Positions\<close>

text \<open>The heap as the list of its timers by position, from position 1 on.\<close>

definition nd :: "'p list \<Rightarrow> nat \<Rightarrow> 'p" where
  "nd ts k = ts ! (k - 1)"

definition place :: "'p list \<Rightarrow> nat \<Rightarrow> 'p option" where
  "place ts k = (if 1 \<le> k \<and> k \<le> length ts then Some (nd ts k) else None)"

lemma place_in [simp]: "1 \<le> k \<Longrightarrow> k \<le> length ts \<Longrightarrow> place ts k = Some (nd ts k)"
  by (simp add: place_def)

lemma place_out [simp]: "k = 0 \<or> length ts < k \<Longrightarrow> place ts k = None"
  by (auto simp: place_def)

lemma nd_inj:
  assumes "distinct ts" and "1 \<le> j" "j \<le> length ts" and "1 \<le> k" "k \<le> length ts"
  shows "nd ts j = nd ts k \<longleftrightarrow> j = k"
proof -
  have "nd ts j = nd ts k \<longleftrightarrow> j - 1 = k - 1"
    using assms by (simp add: nd_def nth_eq_iff_index_eq)
  then show ?thesis
    using assms(2,4) by linarith
qed

lemma place_eq:
  assumes "distinct ts" and "1 \<le> k" "k \<le> length ts"
  shows "place ts j = Some (nd ts k) \<longleftrightarrow> j = k"
  using assms nd_inj [OF assms(1), of j k] by (auto simp: place_def)

lemma nd_set: "1 \<le> k \<Longrightarrow> k \<le> length ts \<Longrightarrow> nd ts k \<in> set ts"
  by (simp add: nd_def)

lemma place_set: "place ts k = Some t \<Longrightarrow> t \<in> set ts"
  using nd_set [of k ts] by (auto simp: place_def split: if_splits)

lemma nd_of_set: "t \<in> set ts \<Longrightarrow> \<exists>k. 1 \<le> k \<and> k \<le> length ts \<and> t = nd ts k"
  by (metis Suc_leI diff_Suc_1 in_set_conv_nth le_add1 nd_def plus_1_eq_Suc)

section \<open>The representation\<close>

definition link_ok :: "'p hlinks \<Rightarrow> 'p list \<Rightarrow> nat \<Rightarrow> bool" where
  "link_ok ls ts k \<longleftrightarrow> hl_linked (ls (nd ts k)) \<and> hl_parent (ls (nd ts k)) = place ts (k div 2)
     \<and> hl_left (ls (nd ts k)) = place ts (2 * k) \<and> hl_right (ls (nd ts k)) = place ts (2 * k + 1)"

definition heap_rep :: "'p theap \<Rightarrow> 'p hlinks \<Rightarrow> 'p list \<Rightarrow> bool" where
  "heap_rep h ls ts \<longleftrightarrow> distinct ts \<and> th_len h = length ts \<and> th_root h = place ts 1
     \<and> (\<forall>k. 1 \<le> k \<longrightarrow> k \<le> length ts \<longrightarrow> link_ok ls ts k)"

lemma heap_repD:
  assumes "heap_rep h ls ts"
  shows "distinct ts" and "th_len h = length ts" and "th_root h = place ts 1"
    and "1 \<le> k \<Longrightarrow> k \<le> length ts \<Longrightarrow> hl_linked (ls (nd ts k))"
    and "1 \<le> k \<Longrightarrow> k \<le> length ts \<Longrightarrow> hl_parent (ls (nd ts k)) = place ts (k div 2)"
    and "1 \<le> k \<Longrightarrow> k \<le> length ts \<Longrightarrow> hl_left (ls (nd ts k)) = place ts (2 * k)"
    and "1 \<le> k \<Longrightarrow> k \<le> length ts \<Longrightarrow> hl_right (ls (nd ts k)) = place ts (2 * k + 1)"
  using assms by (auto simp: heap_rep_def link_ok_def)

text \<open>The deadlines and the links outside a set of timers stay.\<close>

definition same_deadlines :: "'p hlinks \<Rightarrow> 'p hlinks \<Rightarrow> bool" where
  "same_deadlines ls ls' \<longleftrightarrow> (\<forall>u. hl_deadline (ls' u) = hl_deadline (ls u))"

definition same_outside :: "'p set \<Rightarrow> 'p hlinks \<Rightarrow> 'p hlinks \<Rightarrow> bool" where
  "same_outside S ls ls' \<longleftrightarrow> (\<forall>u. u \<notin> S \<longrightarrow> ls' u = ls u)"

lemma upd_opt_at: "upd_opt ls q f v = (if q = Some v then f (ls v) else ls v)"
  by (auto simp: upd_opt_def split: option.splits)

section \<open>The walk to a position\<close>

lemma ilog2_bounds:
  assumes "0 < n"
  shows "2 ^ ilog2 n \<le> n \<and> n < 2 ^ Suc (ilog2 n)"
  using assms
proof (induction n rule: ilog2.induct)
  case (1 n)
  show ?case
  proof (cases "n < 2")
    case True
    then show ?thesis
      using 1(2) by (simp add: ilog2.simps [of n])
  next
    case False
    then have "2 ^ ilog2 (n div 2) \<le> n div 2 \<and> n div 2 < 2 ^ Suc (ilog2 (n div 2))"
      using 1(1) by simp
    then show ?thesis
      using False by (simp add: ilog2.simps [of n]) linarith
  qed
qed

lemma even_half: "(n :: nat) mod 2 = 0 \<Longrightarrow> 2 * (n div 2) = n" and odd_half: "(n :: nat) mod 2 \<noteq> 0 \<Longrightarrow> 2 * (n div 2) + 1 = n"
  by presburger+

lemma heap_walk_rep:
  assumes rep: "heap_rep h ls ts" and "n \<le> length ts" and "1 \<le> n div 2 ^ b"
  shows "heap_walk ls n (rev [0..<b]) (nd ts (n div 2 ^ b)) = Some (nd ts n)"
  using assms(2,3)
proof (induction b)
  case 0
  then show ?case
    by simp
next
  case (Suc b)
  let ?k = "n div 2 ^ Suc b"
  have half: "?k = n div 2 ^ b div 2"
    by (simp add: power_Suc2 div_mult2_eq del: power_Suc)
  have le: "?k \<le> length ts" "n div 2 ^ b \<le> length ts" "1 \<le> n div 2 ^ b"
    using Suc.prems div_le_dividend [of n "2 ^ Suc b"] div_le_dividend [of n "2 ^ b"] half by linarith+
  have "(if n div 2 ^ b mod 2 = 0 then hl_left (ls (nd ts ?k)) else hl_right (ls (nd ts ?k))) = Some (nd ts (n div 2 ^ b))"
  proof (cases "n div 2 ^ b mod 2 = 0")
    case True
    then have "2 * ?k = n div 2 ^ b"
      unfolding half by (rule even_half)
    then show ?thesis
      using True le heap_repD(6) [OF rep Suc.prems(2) le(1)] by simp
  next
    case False
    then have "2 * ?k + 1 = n div 2 ^ b"
      unfolding half by (rule odd_half)
    then show ?thesis
      using False le heap_repD(7) [OF rep Suc.prems(2) le(1)] by simp
  qed
  then show ?case
    using Suc.IH Suc.prems(1) le(3) by (simp del: power_Suc)
qed

lemma heap_at_rep:
  assumes rep: "heap_rep h ls ts"
  shows "heap_at h ls n = Some (place ts n)"
proof (cases "1 \<le> n \<and> n \<le> length ts")
  case True
  have log: "n div 2 ^ ilog2 n = 1"
    using ilog2_bounds [of n] True by (intro div_nat_eqI) simp_all
  have "th_root h = Some (nd ts 1)"
    using heap_repD(3) [OF rep] True by simp
  then show ?thesis
    using heap_walk_rep [OF rep, of n "ilog2 n"] True log heap_repD(2) [OF rep] by (simp add: heap_at_def)
next
  case False
  then show ?thesis
    using heap_repD(2) [OF rep] by (auto simp: heap_at_def place_def)
qed

section \<open>Two neighbours change places\<close>

definition swap_nd :: "'p list \<Rightarrow> nat \<Rightarrow> nat \<Rightarrow> 'p list" where
  "swap_nd ts j k = ts[j - 1 := nd ts k, k - 1 := nd ts j]"

lemma length_swap_nd [simp]: "length (swap_nd ts j k) = length ts"
  by (simp add: swap_nd_def)

lemma nd_swap_nd:
  assumes "1 \<le> j" "j \<le> length ts" "1 \<le> k" "k \<le> length ts" "1 \<le> i" "i \<le> length ts"
  shows "nd (swap_nd ts j k) i = nd ts (if i = j then k else if i = k then j else i)"
  using assms by (auto simp: swap_nd_def nd_def nth_list_update)

lemma mset_swap_nd:
  assumes "1 \<le> j" "j \<le> length ts" "1 \<le> k" "k \<le> length ts"
  shows "set (swap_nd ts j k) = set ts" and "distinct (swap_nd ts j k) = distinct ts"
  using assms by (simp_all add: swap_nd_def nd_def set_swap distinct_swap)


lemma place_swap_nd:
  assumes "1 \<le> j" "j \<le> length ts" "1 \<le> k" "k \<le> length ts"
  shows "place (swap_nd ts j k) i = place ts (if i = j then k else if i = k then j else i)"
  using assms nd_swap_nd [OF assms, of i] by (auto simp: place_def)

text \<open>
  The links after \<open>t\<close> and its parent \<open>p\<close> changed places, once the grandparent \<open>g\<close> points at
  \<open>t\<close>: \<open>s\<close> is the sibling of \<open>t\<close>, \<open>l\<close> and \<open>r\<close> are its children.
\<close>

definition relink ::
  "'p hlinks \<Rightarrow> 'p \<Rightarrow> 'p \<Rightarrow> 'p option \<Rightarrow> 'p option \<Rightarrow> 'p option \<Rightarrow> 'p option \<Rightarrow> 'p option \<Rightarrow> 'p option \<Rightarrow> 'p hlinks" where
  "relink ls t p g nl nr s l r =
     (let ls = ls(t := (ls t)\<lparr>hl_parent := g, hl_left := nl, hl_right := nr\<rparr>);
          ls = upd_opt ls s (\<lambda>l. l\<lparr>hl_parent := Some t\<rparr>);
          ls = ls(p := (ls p)\<lparr>hl_parent := Some t, hl_left := l, hl_right := r\<rparr>);
          ls = upd_opt ls l (\<lambda>l. l\<lparr>hl_parent := Some p\<rparr>) in
      upd_opt ls r (\<lambda>l. l\<lparr>hl_parent := Some p\<rparr>))"

lemma relink_at:
  fixes ls t p g nl nr s l r v
  defines "ls' \<equiv> relink ls t p g nl nr s l r"
  shows "hl_left (ls' v) = (if v = p then l else if v = t then nl else hl_left (ls v))"
    and "hl_right (ls' v) = (if v = p then r else if v = t then nr else hl_right (ls v))"
    and "hl_parent (ls' v) = (if l = Some v \<or> r = Some v then Some p else if v = p \<or> s = Some v then Some t
      else if v = t then g else hl_parent (ls v))"
    and "hl_deadline (ls' v) = hl_deadline (ls v)" and "hl_linked (ls' v) = hl_linked (ls v)"
    and "l \<noteq> Some v \<Longrightarrow> r \<noteq> Some v \<Longrightarrow> s \<noteq> Some v \<Longrightarrow> v \<noteq> t \<Longrightarrow> v \<noteq> p \<Longrightarrow> ls' v = ls v"
proof -
  define ls2 where "ls2 = ls(t := (ls t)\<lparr>hl_parent := g, hl_left := nl, hl_right := nr\<rparr>)"
  define ls3 where "ls3 = upd_opt ls2 s (\<lambda>l. l\<lparr>hl_parent := Some t\<rparr>)"
  define ls4 where "ls4 = ls3(p := (ls3 p)\<lparr>hl_parent := Some t, hl_left := l, hl_right := r\<rparr>)"
  have ls': "ls' v = (if l = Some v \<or> r = Some v then (ls4 v)\<lparr>hl_parent := Some p\<rparr> else ls4 v)" for v
    unfolding ls'_def relink_def Let_def ls4_def [symmetric] ls3_def [symmetric] ls2_def [symmetric]
    by (simp add: upd_opt_at)
  have ls4: "ls4 v = (if v = p then (ls3 v)\<lparr>hl_parent := Some t, hl_left := l, hl_right := r\<rparr> else ls3 v)"
      "ls3 v = (if s = Some v then (ls2 v)\<lparr>hl_parent := Some t\<rparr> else ls2 v)"
      "ls2 v = (if v = t then (ls v)\<lparr>hl_parent := g, hl_left := nl, hl_right := nr\<rparr> else ls v)" for v
    by (simp_all add: ls4_def ls3_def ls2_def upd_opt_at)
  have left: "hl_left (ls' v) = hl_left (ls4 v)" "hl_left (ls3 v) = hl_left (ls2 v)"
    by (simp_all add: ls' ls4(2))
  then show "hl_left (ls' v) = (if v = p then l else if v = t then nl else hl_left (ls v))"
    by (simp add: ls4(1,3))
  have right: "hl_right (ls' v) = hl_right (ls4 v)" "hl_right (ls3 v) = hl_right (ls2 v)"
    by (simp_all add: ls' ls4(2))
  then show "hl_right (ls' v) = (if v = p then r else if v = t then nr else hl_right (ls v))"
    by (simp add: ls4(1,3))
  have "hl_parent (ls4 v) = (if v = p \<or> s = Some v then Some t else hl_parent (ls2 v))"
    by (simp add: ls4(1,2))
  then show "hl_parent (ls' v) = (if l = Some v \<or> r = Some v then Some p else if v = p \<or> s = Some v then Some t
      else if v = t then g else hl_parent (ls v))"
    by (simp add: ls' ls4(3))
  have "hl_deadline (ls' v) = hl_deadline (ls3 v)" "hl_linked (ls' v) = hl_linked (ls3 v)"
    by (simp_all add: ls' ls4(1))
  then show "hl_deadline (ls' v) = hl_deadline (ls v)" "hl_linked (ls' v) = hl_linked (ls v)"
    by (simp_all add: ls4(2,3))
  show "ls' v = ls v" if "l \<noteq> Some v" "r \<noteq> Some v" "s \<noteq> Some v" "v \<noteq> t" "v \<noteq> p"
    using that by (simp add: ls' ls4)
qed

lemma swap_with_parent_relink:
  assumes "hl_parent (ls t) = Some p" and "replace_child h ls (hl_parent (ls p)) p t = (h1, ls1)"
  shows "swap_with_parent h ls t = Some (h1, if hl_left (ls p) = Some t
    then relink ls1 t p (hl_parent (ls p)) (Some p) (hl_right (ls p)) (hl_right (ls p)) (hl_left (ls t)) (hl_right (ls t))
    else relink ls1 t p (hl_parent (ls p)) (hl_left (ls p)) (Some p) (hl_left (ls p)) (hl_left (ls t)) (hl_right (ls t)))"
  by (cases "hl_left (ls p) = Some t")
    (simp_all only: swap_with_parent_def assms bind.bind_lunit Let_def relink_def prod.case if_True if_False simp_thms)

text \<open>A child of the grandparent replaced.\<close>

lemma replace_child_rep:
  assumes rep: "heap_rep h ls ts" and m: "1 \<le> m" "m \<le> length ts" and h1: "replace_child h ls (place ts (m div 2)) (nd ts m) t = (h1, ls1)"
  shows "ls1 v = (if place ts (m div 2) = Some v
      then if m = 2 * (m div 2) then (ls v)\<lparr>hl_left := Some t\<rparr> else (ls v)\<lparr>hl_right := Some t\<rparr> else ls v)"
    and "th_len h1 = length ts" and "th_root h1 = (if m = 1 then Some t else place ts 1)"
proof -
  note d = heap_repD(1) [OF rep]
  show "ls1 v = (if place ts (m div 2) = Some v
      then if m = 2 * (m div 2) then (ls v)\<lparr>hl_left := Some t\<rparr> else (ls v)\<lparr>hl_right := Some t\<rparr> else ls v)"
  proof (cases "place ts (m div 2)")
    case (Some u)
    then have u: "1 \<le> m div 2" "m div 2 \<le> length ts" "u = nd ts (m div 2)"
      by (auto simp: place_def split: if_splits)
    have "hl_left (ls u) = Some (nd ts m) \<longleftrightarrow> 2 * (m div 2) = m"
      using heap_repD(6) [OF rep u(1,2)] place_eq [OF d m(1,2)] u(3) by simp
    then show ?thesis
      using h1 Some by (auto simp: replace_child_def)
  qed (use h1 in \<open>simp add: replace_child_def\<close>)
  have "place ts (m div 2) = Some (nd ts (m div 2))" if "2 \<le> m"
    using that m(2) by (intro place_in) auto
  then have "place ts (m div 2) = None \<longleftrightarrow> m = 1"
    using m by (cases "2 \<le> m") (auto simp: place_def)
  then show "th_len h1 = length ts" "th_root h1 = (if m = 1 then Some t else place ts 1)"
    using h1 heap_repD(2,3) [OF rep] by (auto simp: replace_child_def split: option.splits if_splits)
qed

text \<open>
  What the links of the timers are after those at \<open>m\<close> and \<open>k\<close>, a child of \<open>m\<close> whose sibling is
  at \<open>s\<close>, changed places.
\<close>

definition swapped :: "'p hlinks \<Rightarrow> 'p list \<Rightarrow> nat \<Rightarrow> nat \<Rightarrow> nat \<Rightarrow> nat \<Rightarrow> bool" where
  "swapped ls ts m k s i \<longleftrightarrow>
     hl_linked (ls (nd ts i))
     \<and> hl_parent (ls (nd ts i)) = (if i = 2 * k \<or> i = 2 * k + 1 then Some (nd ts m) else if i = m \<or> i = s then Some (nd ts k)
         else if i = k then place ts (m div 2) else place ts (i div 2))
     \<and> hl_left (ls (nd ts i)) = (if i = m then place ts (2 * k)
         else if i = k then (if k = 2 * m then Some (nd ts m) else place ts (2 * m))
         else if 2 * i = m then Some (nd ts k) else place ts (2 * i))
     \<and> hl_right (ls (nd ts i)) = (if i = m then place ts (2 * k + 1)
         else if i = k then (if k = 2 * m then place ts (2 * m + 1) else Some (nd ts m))
         else if 2 * i + 1 = m then Some (nd ts k) else place ts (2 * i + 1))"

lemma swapped_link_ok:
  assumes m: "1 \<le> m" "m \<le> length ts" "m < k" "k = 2 * m \<or> k = 2 * m + 1" and k: "k \<le> length ts"
    and s: "s = (if k = 2 * m then 2 * m + 1 else 2 * m)"
    and sw: "\<And>i. 1 \<le> i \<Longrightarrow> i \<le> length ts \<Longrightarrow> swapped ls ts m k s i" and j: "1 \<le> j" "j \<le> length ts"
  shows "link_ok ls (swap_nd ts m k) j"
proof -
  have k1: "1 \<le> k" and s': "s \<noteq> k" "s div 2 = m"
    using m s by auto
  let ?t = "nd ts k" and ?p = "nd ts m" and ?ts = "swap_nd ts m k"
  note nodes = nd_swap_nd [OF m(1,2) k1 k] place_swap_nd [OF m(1,2) k1 k] and fields = sw [unfolded swapped_def]
  consider "j = m" | "j = k" | "j \<noteq> m" "j \<noteq> k"
    by blast
  then show ?thesis
  proof cases
    case 1
    have ne: "k = 2 * k \<longleftrightarrow> False" "k = 2 * k + 1 \<longleftrightarrow> False" "k = m \<longleftrightarrow> False" "k = s \<longleftrightarrow> False"
      using m k1 s'(1) by auto
    have "m div 2 < m"
      using m(1) by simp
    then have "m div 2 \<noteq> m" "m div 2 \<noteq> k" "2 * m \<noteq> m" "2 * m + 1 \<noteq> m"
      using m(1,3) by linarith+
    then have places: "place ?ts (m div 2) = place ts (m div 2)"
        "place ?ts (2 * m) = (if k = 2 * m then Some ?p else place ts (2 * m))"
        "place ?ts (2 * m + 1) = (if k = 2 * m then place ts (2 * m + 1) else Some ?p)"
      unfolding nodes(2) using m(4) place_in [OF m(1,2)] by auto
    have node: "nd ?ts m = ?t"
      using m by (simp add: nodes(1))
    show ?thesis
      unfolding 1 link_ok_def node places using fields [OF k1 k] unfolding ne by simp
  next
    case 2
    have ne: "m = 2 * k \<longleftrightarrow> False" "m = 2 * k + 1 \<longleftrightarrow> False"
      using m by auto
    have "2 * k \<noteq> m" "2 * k + 1 \<noteq> m" "2 * k \<noteq> k" "2 * k + 1 \<noteq> k" "k div 2 = m"
      using m by auto
    then have places: "place ?ts (k div 2) = Some ?t" "place ?ts (2 * k) = place ts (2 * k)"
        "place ?ts (2 * k + 1) = place ts (2 * k + 1)"
      unfolding nodes(2) using place_in [OF k1 k] by simp_all
    have node: "nd ?ts k = ?p"
      using m k by (simp add: nodes(1))
    show ?thesis
      unfolding 2 link_ok_def node places using fields [OF m(1,2)] unfolding ne by simp
  next
    case 3
    have "j div 2 = k \<longleftrightarrow> j = 2 * k \<or> j = 2 * k + 1" "j div 2 = m \<longleftrightarrow> j = s"
      using 3 m(4) s by auto
    then have par: "place ?ts (j div 2) =
        (if j = 2 * k \<or> j = 2 * k + 1 then Some ?p else if j = s then Some ?t else place ts (j div 2))"
      unfolding nodes(2) using place_in [OF m(1,2)] place_in [OF k1 k] m(3) s'(2) by auto
    have ne: "2 * j \<noteq> k" "2 * j + 1 \<noteq> k" "j = m \<longleftrightarrow> False" "j = k \<longleftrightarrow> False"
      using 3 m(4) by auto
    have node: "nd ?ts j = nd ts j"
      using 3 j by (simp add: nodes(1))
    have kids: "place ?ts (2 * j) = (if 2 * j = m then Some ?t else place ts (2 * j))"
        "place ?ts (2 * j + 1) = (if 2 * j + 1 = m then Some ?t else place ts (2 * j + 1))"
      unfolding nodes(2) using ne(1,2) place_in [OF k1 k] by simp_all
    show ?thesis
      unfolding link_ok_def node par kids using fields [OF j] unfolding ne(3,4) by simp
  qed
qed

lemma swap_with_parent_rep:
  assumes rep: "heap_rep h ls ts" and k: "2 \<le> k" "k \<le> length ts"
  obtains h' ls' where "swap_with_parent h ls (nd ts k) = Some (h', ls')" and "heap_rep h' ls' (swap_nd ts (k div 2) k)"
    and "same_deadlines ls ls'" and "same_outside (set ts) ls ls'"
proof -
  define m where "m = k div 2"
  have m: "1 \<le> m" "m \<le> length ts" "m < k" "k = 2 * m \<or> k = 2 * m + 1" and k1: "1 \<le> k"
    using k by (auto simp: m_def)
  let ?t = "nd ts k" and ?p = "nd ts m" and ?ts = "swap_nd ts m k"
  define s where "s = (if k = 2 * m then 2 * m + 1 else 2 * m)"
  note d = heap_repD(1) [OF rep]
  note at_k = heap_repD(4-7) [OF rep k1 k(2)] and at_m = heap_repD(4-7) [OF rep m(1,2)]
  obtain h1 ls1 where child: "replace_child h ls (place ts (m div 2)) ?p ?t = (h1, ls1)"
    by (cases "replace_child h ls (place ts (m div 2)) ?p ?t")
  note child' = replace_child_rep [OF rep m(1,2) child]
  define ls' where "ls' = relink ls1 ?t ?p (place ts (m div 2)) (if k = 2 * m then Some ?p else place ts (2 * m))
    (if k = 2 * m then place ts (2 * m + 1) else Some ?p) (place ts s) (place ts (2 * k)) (place ts (2 * k + 1))"
  note at' = relink_at [where ls = ls1 and t = ?t and p = ?p and g = "place ts (m div 2)" and
      nl = "if k = 2 * m then Some ?p else place ts (2 * m)" and nr = "if k = 2 * m then place ts (2 * m + 1) else Some ?p" and
      s = "place ts s" and l = "place ts (2 * k)" and r = "place ts (2 * k + 1)", folded ls'_def]
  have "place ts (2 * m) = Some ?t \<longleftrightarrow> k = 2 * m"
    using place_eq [OF d k1 k(2), of "2 * m"] by auto
  moreover have "hl_parent (ls ?t) = Some ?p"
    using at_k(2) place_in [OF m(1,2)] by (simp add: m_def)
  ultimately have call: "swap_with_parent h ls ?t = Some (h1, ls')"
    using swap_with_parent_relink [of ls ?t ?p h h1 ls1] child unfolding at_m(2-4) at_k(3,4) ls'_def s_def by simp
  have "swapped ls' ts m k s i" if i: "1 \<le> i" "i \<le> length ts" for i
  proof -
    have eqs: "place ts j = Some (nd ts i) \<longleftrightarrow> i = j" "nd ts i = ?t \<longleftrightarrow> i = k" "nd ts i = ?p \<longleftrightarrow> i = m" for j
      using place_eq [OF d i] nd_inj [OF d i k1 k(2)] nd_inj [OF d i m(1,2)] by auto
    have "i = m div 2 \<and> m = 2 * (m div 2) \<longleftrightarrow> 2 * i = m" "i = m div 2 \<and> m \<noteq> 2 * (m div 2) \<longleftrightarrow> 2 * i + 1 = m"
      by presburger+
    then have off: "hl_parent (ls1 (nd ts i)) = place ts (i div 2)" "hl_linked (ls1 (nd ts i))"
        "hl_left (ls1 (nd ts i)) = (if 2 * i = m then Some ?t else place ts (2 * i))"
        "hl_right (ls1 (nd ts i)) = (if 2 * i + 1 = m then Some ?t else place ts (2 * i + 1))"
      using heap_repD(4-7) [OF rep i] by (auto simp: child'(1) eqs)
    show ?thesis
      unfolding swapped_def at' eqs off(1,3,4) using off(2) by simp
  qed
  then have "link_ok ls' ?ts j" if "1 \<le> j" "j \<le> length ts" for j
    using swapped_link_ok [OF m k(2) s_def] that by blast
  moreover have "th_root h1 = place ?ts 1"
    using m k by (simp add: child'(3) place_swap_nd [OF m(1,2) k1 k(2)])
  ultimately have "heap_rep h1 ls' ?ts"
    using child'(2) mset_swap_nd(2) [OF m(1,2) k1 k(2)] d by (simp add: heap_rep_def)
  moreover have "same_deadlines ls ls'"
    unfolding same_deadlines_def at' child'(1) by simp
  moreover have "ls' u = ls u" if "u \<notin> set ts" for u
  proof -
    have no: "place ts j \<noteq> Some u" "u \<noteq> ?t" "u \<noteq> ?p" for j
      using that place_set nd_set [OF k1 k(2)] nd_set [OF m(1,2)] by metis+
    then show ?thesis
      using at'(6) [of u] child'(1) [of u] by simp
  qed
  ultimately show thesis
    using that call by (simp add: m_def same_outside_def)
qed

end
