(* ===== verification/Timer_Order.thy ===== *)
theory Timer_Order
  imports Timer_Rep
begin

text \<open>
  The order of the heap of timers: a timer that fires too early for its place climbs, one that fires
  too late sinks, and both loops end with every timer no earlier than its parent.
\<close>

section \<open>The order of the heap\<close>

abbreviation dl :: "'p hlinks \<Rightarrow> 'p \<Rightarrow> u64" where
  "dl ls t \<equiv> hl_deadline (ls t)"

text \<open>Every timer but those at the positions \<open>bad\<close> fires no earlier than its parent.\<close>

definition ordered_but :: "'p hlinks \<Rightarrow> 'p list \<Rightarrow> (nat \<Rightarrow> bool) \<Rightarrow> bool" where
  "ordered_but ls ts bad \<longleftrightarrow>
     (\<forall>j. 2 \<le> j \<longrightarrow> j \<le> length ts \<longrightarrow> \<not> bad j \<longrightarrow> dl ls (nd ts (j div 2)) \<le> dl ls (nd ts j))"

definition ordered :: "'p hlinks \<Rightarrow> 'p list \<Rightarrow> bool" where
  "ordered ls ts \<longleftrightarrow> ordered_but ls ts (\<lambda>_. False)"

text \<open>The children of \<open>k\<close> fire no earlier than its parent.\<close>

definition bridged :: "'p hlinks \<Rightarrow> 'p list \<Rightarrow> nat \<Rightarrow> bool" where
  "bridged ls ts k \<longleftrightarrow>
     (\<forall>j. j \<le> length ts \<longrightarrow> j div 2 = k \<longrightarrow> 2 \<le> k \<longrightarrow> dl ls (nd ts (k div 2)) \<le> dl ls (nd ts j))"

lemma ordered_same:
  assumes "same_deadlines ls ls'"
  shows "ordered_but ls' ts bad \<longleftrightarrow> ordered_but ls ts bad" and "bridged ls' ts k \<longleftrightarrow> bridged ls ts k"
    and "ordered ls' ts \<longleftrightarrow> ordered ls ts"
  using assms by (simp_all add: ordered_but_def bridged_def ordered_def same_deadlines_def)

lemma same_refl [simp]: "same_deadlines a a" "same_outside S a a"
  by (simp_all add: same_deadlines_def same_outside_def)

lemma same_trans:
  "same_deadlines a b \<Longrightarrow> same_deadlines b c \<Longrightarrow> same_deadlines a c"
  "same_outside S a b \<Longrightarrow> same_outside S b c \<Longrightarrow> same_outside S a c"
  by (simp_all add: same_deadlines_def same_outside_def)

lemma swap_up:
  assumes "ordered_but ls ts (\<lambda>j. j = k)" and "bridged ls ts k" and k: "2 \<le> k" "k \<le> length ts"
    and less: "dl ls (nd ts k) < dl ls (nd ts (k div 2))"
  shows "ordered_but ls (swap_nd ts (k div 2) k) (\<lambda>j. j = k div 2)" and "bridged ls (swap_nd ts (k div 2) k) (k div 2)"
proof -
  define m where "m = k div 2"
  have m: "1 \<le> m" "m \<le> length ts" "m < k" "1 \<le> k" "k div 2 = m"
    using k by (auto simp: m_def)
  note nodes = nd_swap_nd [OF m(1,2,4) k(2)]
  have ord: "dl ls (nd ts (j div 2)) \<le> dl ls (nd ts j)" if "2 \<le> j" "j \<le> length ts" "j \<noteq> k" for j
    using assms(1) that by (simp add: ordered_but_def)
  have kids: "dl ls (nd ts m) \<le> dl ls (nd ts j)" if "j \<le> length ts" "j div 2 = k" for j
    using assms(2) that k by (simp add: bridged_def m_def)
  have "dl ls (nd (swap_nd ts m k) (j div 2)) \<le> dl ls (nd (swap_nd ts m k) j)"
    if j: "2 \<le> j" "j \<le> length ts" "j \<noteq> m" for j
  proof -
    have in_range: "1 \<le> j div 2" "j div 2 \<le> length ts" "1 \<le> j"
      using j by auto
    consider "j = k" | "j div 2 = k" "j \<noteq> k" | "j div 2 = m" "j \<noteq> k" | "j div 2 \<noteq> k" "j div 2 \<noteq> m" "j \<noteq> k"
      by blast
    then show ?thesis
    proof cases
      case 1
      then show ?thesis
        using m less k by (simp add: nodes)
    next
      case 2
      then show ?thesis
        using j kids [OF j(2) 2(1)] in_range m by (simp add: nodes)
    next
      case 3
      then show ?thesis
        using j ord [OF j(1,2) 3(2)] less in_range m by (simp add: nodes)
    next
      case 4
      then show ?thesis
        using j ord [OF j(1,2) 4(3)] in_range by (simp add: nodes)
    qed
  qed
  then show "ordered_but ls (swap_nd ts (k div 2) k) (\<lambda>j. j = k div 2)"
    by (simp add: ordered_but_def m(5))
  have "dl ls (nd (swap_nd ts m k) (m div 2)) \<le> dl ls (nd (swap_nd ts m k) j)"
    if j: "j \<le> length ts" "j div 2 = m" "2 \<le> m" for j
  proof -
    have g: "1 \<le> m div 2" "m div 2 \<le> length ts" "m div 2 \<noteq> m" "m div 2 \<noteq> k"
      using j(3) m by auto
    have up: "dl ls (nd ts (m div 2)) \<le> dl ls (nd ts m)"
      using ord [of m] j(3) m by simp
    have "1 \<le> j" "j \<noteq> m" "2 \<le> j"
      using j by auto
    then show ?thesis
      using g up j ord [of j] m k(2) by (cases "j = k") (auto simp: nodes)
  qed
  then show "bridged ls (swap_nd ts (k div 2) k) (k div 2)"
    by (simp add: bridged_def m(5))
qed

lemma swap_down:
  assumes "ordered_but ls ts (\<lambda>j. j div 2 = k)" and "bridged ls ts k" and c: "c div 2 = k" "2 \<le> c" "c \<le> length ts"
    and less: "dl ls (nd ts c) < dl ls (nd ts k)"
    and least: "\<And>j. j \<le> length ts \<Longrightarrow> j div 2 = k \<Longrightarrow> dl ls (nd ts c) \<le> dl ls (nd ts j)"
  shows "ordered_but ls (swap_nd ts k c) (\<lambda>j. j div 2 = c)" and "bridged ls (swap_nd ts k c) c"
proof -
  have k: "1 \<le> k" "k \<le> length ts" "k < c" "1 \<le> c"
    using c by auto
  note nodes = nd_swap_nd [OF k(1,2,4) c(3)]
  have ord: "dl ls (nd ts (j div 2)) \<le> dl ls (nd ts j)" if "2 \<le> j" "j \<le> length ts" "j div 2 \<noteq> k" for j
    using assms(1) that by (simp add: ordered_but_def)
  have "dl ls (nd (swap_nd ts k c) (j div 2)) \<le> dl ls (nd (swap_nd ts k c) j)"
    if j: "2 \<le> j" "j \<le> length ts" "j div 2 \<noteq> c" for j
  proof -
    have in_range: "1 \<le> j div 2" "j div 2 \<le> length ts" "1 \<le> j"
      using j by auto
    consider "j div 2 = k" "j = c" | "j div 2 = k" "j \<noteq> c" "j \<noteq> k" | "j div 2 \<noteq> k" "j = k" | "j div 2 \<noteq> k" "j \<noteq> k" "j \<noteq> c"
      using c(1) j by fastforce
    then show ?thesis
    proof cases
      case 1
      then show ?thesis
        using less k c by (simp add: nodes)
    next
      case 2
      then show ?thesis
        using least [OF j(2) 2(1)] j in_range k by (simp add: nodes)
    next
      case 3
      have "dl ls (nd ts (k div 2)) \<le> dl ls (nd ts c)"
        using assms(2) c 3 j by (simp add: bridged_def)
      then show ?thesis
        using 3 j in_range k by (simp add: nodes)
    next
      case 4
      then show ?thesis
        using ord [OF j(1,2) 4(1)] j in_range by (simp add: nodes)
    qed
  qed
  then show "ordered_but ls (swap_nd ts k c) (\<lambda>j. j div 2 = c)"
    by (simp add: ordered_but_def)
  have "dl ls (nd (swap_nd ts k c) (c div 2)) \<le> dl ls (nd (swap_nd ts k c) j)" if j: "j \<le> length ts" "j div 2 = c" for j
  proof -
    have "2 \<le> j" "j \<noteq> k" "j \<noteq> c" "j div 2 \<noteq> k"
      using j c k by auto
    then show ?thesis
      using ord [of j] j k c by (simp add: nodes)
  qed
  then show "bridged ls (swap_nd ts k c) c"
    by (simp add: bridged_def)
qed

section \<open>Climbing and sinking\<close>

text \<open>What an operation leaves: the same timers in order, with the same deadlines, and nothing else touched.\<close>

definition settles :: "('p theap \<times> 'p hlinks) option \<Rightarrow> 'p hlinks \<Rightarrow> 'p list \<Rightarrow> bool" where
  "settles r ls ts \<longleftrightarrow> (\<exists>h' ls' ts'. r = Some (h', ls') \<and> heap_rep h' ls' ts' \<and> set ts' = set ts \<and> ordered ls' ts'
     \<and> same_deadlines ls ls' \<and> same_outside (set ts) ls ls')"

lemma settlesI:
  "heap_rep h ls ts \<Longrightarrow> ordered ls ts \<Longrightarrow> settles (Some (h, ls)) ls ts"
  unfolding settles_def by force

lemma settles_swap:
  assumes "settles r ls' (swap_nd ts m k)" and "same_deadlines ls ls'" and "same_outside (set ts) ls ls'"
    and "1 \<le> m" "m \<le> length ts" "1 \<le> k" "k \<le> length ts"
  shows "settles r ls ts"
  using assms mset_swap_nd(1) [OF assms(4-7)] same_trans unfolding settles_def by metis

lemma sift_up_settles:
  assumes "heap_rep h ls ts" and "1 \<le> k" "k \<le> length ts" and "ordered_but ls ts (\<lambda>j. j = k)" and "bridged ls ts k"
  shows "settles (sift_up h ls (nd ts k)) ls ts"
  using assms
proof (induction k arbitrary: h ls ts rule: less_induct)
  case (less k)
  note rep = less.prems(1)
  have parent: "hl_parent (ls (nd ts k)) = place ts (k div 2)"
    by (rule heap_repD(5) [OF rep less.prems(2,3)])
  show ?case
  proof (cases "2 \<le> k \<and> dl ls (nd ts k) < dl ls (nd ts (k div 2))")
    case True
    then have k: "2 \<le> k" "dl ls (nd ts k) < dl ls (nd ts (k div 2))" "k div 2 < k" "1 \<le> k div 2" "k div 2 \<le> length ts"
      using less.prems(3) by auto
    obtain h' ls' where swap: "swap_with_parent h ls (nd ts k) = Some (h', ls')" "heap_rep h' ls' (swap_nd ts (k div 2) k)"
        "same_deadlines ls ls'" "same_outside (set ts) ls ls'"
      by (rule swap_with_parent_rep [OF rep k(1) less.prems(3)])
    note up = swap_up [OF less.prems(4,5) k(1) less.prems(3) k(2)]
    have node: "nd (swap_nd ts (k div 2) k) (k div 2) = nd ts k"
      using nd_swap_nd [OF k(4,5) less.prems(2,3) k(4,5)] by simp
    have "settles (sift_up h' ls' (nd ts k)) ls' (swap_nd ts (k div 2) k)"
      using less.IH [OF k(3) swap(2)] k(4,5) up ordered_same [OF swap(3)] node by simp
    then have "settles (sift_up h' ls' (nd ts k)) ls ts"
      by (rule settles_swap [OF _ swap(3,4) k(4,5) less.prems(2,3)])
    moreover have "sift_up h ls (nd ts k) = sift_up h' ls' (nd ts k)"
      using parent k swap(1) by (subst sift_up.simps) (simp add: earlier_def)
    ultimately show ?thesis
      by simp
  next
    case False
    then have "sift_up h ls (nd ts k) = Some (h, ls)"
      using parent less.prems(2,3) by (subst sift_up.simps) (auto simp: earlier_def place_def split: option.splits)
    moreover have "ordered ls ts"
      using less.prems(4) False by (auto simp: ordered_def ordered_but_def)
    ultimately show ?thesis
      using settlesI [OF rep] by simp
  qed
qed

lemma sift_child_rep:
  assumes rep: "heap_rep h ls ts" and k: "1 \<le> k" "k \<le> length ts"
  shows "length ts < 2 * k \<Longrightarrow> sift_child ls (nd ts k) = None"
    and "2 * k \<le> length ts \<Longrightarrow> \<exists>c. sift_child ls (nd ts k) = Some (nd ts c) \<and> c div 2 = k \<and> 2 \<le> c \<and> c \<le> length ts
      \<and> (\<forall>j. j \<le> length ts \<longrightarrow> j div 2 = k \<longrightarrow> dl ls (nd ts c) \<le> dl ls (nd ts j))"
proof -
  have kids: "hl_left (ls (nd ts k)) = place ts (2 * k)" "hl_right (ls (nd ts k)) = place ts (2 * k + 1)"
    using heap_repD(6,7) [OF rep k] .
  have two: "j = 2 * k \<or> j = 2 * k + 1" if "j div 2 = k" for j
    using that by auto
  show "sift_child ls (nd ts k) = None" if "length ts < 2 * k"
    using that by (simp add: sift_child_def kids)
  assume le: "2 * k \<le> length ts"
  define c where "c = (if 2 * k + 1 \<le> length ts \<and> dl ls (nd ts (2 * k + 1)) < dl ls (nd ts (2 * k)) then 2 * k + 1 else 2 * k)"
  have c: "c div 2 = k" "2 \<le> c" "c \<le> length ts"
    using k le by (auto simp: c_def)
  have left: "place ts (2 * k) = Some (nd ts (2 * k))"
    using k le by simp
  have "sift_child ls (nd ts k) = Some (nd ts c)"
  proof (cases "2 * k + 1 \<le> length ts")
    case True
    then have "place ts (2 * k + 1) = Some (nd ts (2 * k + 1))"
      by simp
    then show ?thesis
      using True unfolding sift_child_def kids left by (simp add: c_def earlier_def)
  next
    case False
    then have "place ts (2 * k + 1) = None" "c = 2 * k"
      by (simp_all add: c_def)
    then show ?thesis
      unfolding sift_child_def kids left by simp
  qed
  moreover have "dl ls (nd ts c) \<le> dl ls (nd ts j)" if "j \<le> length ts" "j div 2 = k" for j
    using two [OF that(2)] that(1) by (auto simp: c_def)
  ultimately show "\<exists>c. sift_child ls (nd ts k) = Some (nd ts c) \<and> c div 2 = k \<and> 2 \<le> c \<and> c \<le> length ts
      \<and> (\<forall>j. j \<le> length ts \<longrightarrow> j div 2 = k \<longrightarrow> dl ls (nd ts c) \<le> dl ls (nd ts j))"
    using c by blast
qed

lemma sift_down_settles:
  assumes "heap_rep h ls ts" and "1 \<le> k" "k \<le> length ts" and "ordered_but ls ts (\<lambda>j. j div 2 = k)" and "bridged ls ts k"
  shows "settles (sift_down h ls (nd ts k)) ls ts"
  using assms
proof (induction "length ts - k" arbitrary: h ls ts k rule: less_induct)
  case less
  note rep = less.prems(1)
  note child = sift_child_rep [OF rep less.prems(2,3)]
  show ?case
  proof (cases "length ts < 2 * k")
    case True
    then have "sift_down h ls (nd ts k) = Some (h, ls)"
      using child(1) by (subst sift_down.simps) simp
    moreover have "j div 2 \<noteq> k" if "j \<le> length ts" for j
      using True that by auto
    then have "ordered ls ts"
      using less.prems(4) by (auto simp: ordered_def ordered_but_def)
    ultimately show ?thesis
      using settlesI [OF rep] by simp
  next
    case False
    then obtain c where c: "sift_child ls (nd ts k) = Some (nd ts c)" "c div 2 = k" "2 \<le> c" "c \<le> length ts"
      and least: "\<And>j. j \<le> length ts \<Longrightarrow> j div 2 = k \<Longrightarrow> dl ls (nd ts c) \<le> dl ls (nd ts j)"
      using child(2) by auto
    show ?thesis
    proof (cases "dl ls (nd ts c) < dl ls (nd ts k)")
      case True
      have c1: "1 \<le> c" "length ts - c < length ts - k"
        using c less.prems(2,3) by auto
      obtain h' ls' where swap: "swap_with_parent h ls (nd ts c) = Some (h', ls')" "heap_rep h' ls' (swap_nd ts k c)"
          "same_deadlines ls ls'" "same_outside (set ts) ls ls'"
        using swap_with_parent_rep [OF rep c(3,4)] unfolding c(2) by blast
      note down = swap_down [OF less.prems(4,5) c(2-4) True least]
      have node: "nd (swap_nd ts k c) c = nd ts k"
        using nd_swap_nd [OF less.prems(2,3) c1(1) c(4) c1(1) c(4)] by simp
      have "settles (sift_down h' ls' (nd ts k)) ls' (swap_nd ts k c)"
        using less.hyps [OF _ swap(2), of c] c1 c(4) down ordered_same [OF swap(3)] node by simp
      then have "settles (sift_down h' ls' (nd ts k)) ls ts"
        by (rule settles_swap [OF _ swap(3,4) less.prems(2,3) c1(1) c(4)])
      moreover have "sift_down h ls (nd ts k) = sift_down h' ls' (nd ts k)"
        using c(1) True swap(1) by (subst sift_down.simps) (simp add: earlier_def)
      ultimately show ?thesis
        by simp
    next
      case False
      then have "sift_down h ls (nd ts k) = Some (h, ls)"
        using c(1) by (subst sift_down.simps) (simp add: earlier_def)
      moreover have "ordered ls ts"
        unfolding ordered_def ordered_but_def
      proof (intro allI impI)
        fix j
        assume j: "2 \<le> j" "j \<le> length ts"
        show "dl ls (nd ts (j div 2)) \<le> dl ls (nd ts j)"
        proof (cases "j div 2 = k")
          case True
          then show ?thesis
            using least [OF j(2) True] False by simp
        qed (use less.prems(4) j in \<open>simp add: ordered_but_def\<close>)
      qed
      ultimately show ?thesis
        using settlesI [OF rep] by simp
    qed
  qed
qed

end
