(* ===== verification/Timer_Calls.thy ===== *)
theory Timer_Calls
  imports Timer_Order
begin

text \<open>
  The calls of the heap of timers, on the timers it holds and their deadlines: \<open>insert\<close> adds a timer,
  \<open>remove\<close> takes one out from wherever it stands, and the root is a timer of the least deadline.
\<close>

section \<open>A timer put in\<close>

lemma heap_rep_cong:
  assumes "heap_rep h ls ts" and "\<And>u. u \<in> set ts \<Longrightarrow> ls' u = ls u"
  shows "heap_rep h ls' ts"
proof -
  have "ls' (nd ts j) = ls (nd ts j)" if "1 \<le> j" "j \<le> length ts" for j
    using assms(2) nd_set [OF that] by simp
  then show ?thesis
    using assms(1) by (auto simp: heap_rep_def link_ok_def)
qed

lemma ordered_cong:
  assumes "ordered_but ls ts bad" and "\<And>u. u \<in> set ts \<Longrightarrow> dl ls' u = dl ls u"
  shows "ordered_but ls' ts bad"
proof -
  have "dl ls' (nd ts j) = dl ls (nd ts j)" if "1 \<le> j" "j \<le> length ts" for j
    using assms(2) nd_set [OF that] by simp
  then show ?thesis
    using assms(1) by (auto simp: ordered_but_def)
qed

lemma place_append: "place (ts @ [t]) j = (if j = length ts + 1 then Some t else place ts j)"
  and nd_append: "1 \<le> j \<Longrightarrow> j \<le> length ts \<Longrightarrow> nd (ts @ [t]) j = nd ts j"
  by (auto simp: place_def nd_def nth_append)

lemma append_rep:
  assumes rep: "heap_rep h ls ts" and n: "1 \<le> length ts" and t: "t \<notin> set ts"
    and l: "hl_linked (ls t)" "hl_left (ls t) = None" "hl_right (ls t) = None"
  defines "p \<equiv> nd ts ((length ts + 1) div 2)"
  shows "heap_rep (h\<lparr>th_len := length ts + 1\<rparr>)
    ((ls(t := (ls t)\<lparr>hl_parent := Some p\<rparr>))
      (p := if (length ts + 1) mod 2 = 0 then (ls p)\<lparr>hl_left := Some t\<rparr> else (ls p)\<lparr>hl_right := Some t\<rparr>)) (ts @ [t])"
    (is "heap_rep ?h ?ls ?ts")
proof -
  let ?n = "length ts + 1"
  have m: "1 \<le> ?n div 2" "?n div 2 \<le> length ts"
    using n by auto
  have pt: "p \<noteq> t"
    using nd_set [OF m] t by (auto simp: p_def)
  note d = heap_repD(1) [OF rep]
  have "link_ok ?ls ?ts j" if j: "1 \<le> j" "j \<le> ?n" for j
  proof (cases "j = ?n")
    case True
    have "nd ?ts ?n = t" "?ls t = (ls t)\<lparr>hl_parent := Some p\<rparr>"
      using pt by (simp_all add: nd_def)
    moreover have "place ?ts (?n div 2) = Some p" "place ?ts (2 * ?n) = None" "place ?ts (2 * ?n + 1) = None"
      using m n by (auto simp: place_append p_def)
    ultimately show ?thesis
      unfolding True link_ok_def using l by simp
  next
    case False
    then have j': "j \<le> length ts"
      using j by simp
    have eqs: "nd ts j = t \<longleftrightarrow> False" "nd ts j = p \<longleftrightarrow> j = ?n div 2"
      using nd_set [OF j(1) j'] t nd_inj [OF d j(1) j' m] by (auto simp: p_def)
    have kids: "2 * j = ?n \<longleftrightarrow> j = ?n div 2 \<and> ?n mod 2 = 0" "2 * j + 1 = ?n \<longleftrightarrow> j = ?n div 2 \<and> ?n mod 2 \<noteq> 0" "j div 2 \<noteq> ?n"
      using j' by arith+
    have node: "nd ?ts j = nd ts j"
      by (rule nd_append [OF j(1) j'])
    show ?thesis
    proof (cases "nd ts j = p")
      case True
      then show ?thesis
        using heap_repD(4-7) [OF rep j(1) j'] kids eqs pt unfolding link_ok_def node place_append by auto
    next
      case other: False
      then have "?ls (nd ts j) = ls (nd ts j)"
        using eqs(1) by simp
      then show ?thesis
        using heap_repD(4-7) [OF rep j(1) j'] kids eqs other unfolding link_ok_def node place_append by auto
    qed
  qed
  moreover have "th_root h = place ?ts 1"
    using heap_repD(3) [OF rep] n by (auto simp: place_append)
  ultimately show ?thesis
    using d t by (simp add: heap_rep_def)
qed

text \<open>The timers a heap holds and their deadlines.\<close>

definition heap_holds :: "'p theap \<Rightarrow> 'p hlinks \<Rightarrow> ('p \<Rightarrow> u64 option) \<Rightarrow> bool" where
  "heap_holds h ls M \<longleftrightarrow>
     (\<exists>ts. heap_rep h ls ts \<and> ordered ls ts \<and> set ts = dom M \<and> (\<forall>t\<in>dom M. M t = Some (dl ls t)))"

lemma settles_holds:
  assumes "settles r ls ts" and "set ts = dom M" and "\<And>t. t \<in> dom M \<Longrightarrow> M t = Some (dl ls t)"
  shows "\<exists>h' ls'. r = Some (h', ls') \<and> heap_holds h' ls' M \<and> same_deadlines ls ls' \<and> same_outside (dom M) ls ls'"
  using assms unfolding settles_def heap_holds_def same_deadlines_def by fastforce

lemma heap_insert_holds:
  assumes holds: "heap_holds h ls M" and t: "\<not> hl_linked (ls t)"
  shows "\<exists>h' ls'. heap_insert h ls t deadline = Some (h', ls') \<and> heap_holds h' ls' (M(t \<mapsto> deadline))
    \<and> (\<forall>u. u \<noteq> t \<longrightarrow> dl ls' u = dl ls u) \<and> same_outside (insert t (dom M)) ls ls'"
proof -
  obtain ts where rep: "heap_rep h ls ts" and ord: "ordered ls ts" and M: "set ts = dom M" "\<And>u. u \<in> dom M \<Longrightarrow> M u = Some (dl ls u)"
    using holds by (auto simp: heap_holds_def)
  have "hl_linked (ls u)" if "u \<in> set ts" for u
    using nd_of_set [OF that] heap_repD(4) [OF rep] by auto
  then have fresh: "t \<notin> set ts"
    using t by blast
  let ?l = "heap_link_new\<lparr>hl_deadline := deadline, hl_linked := True\<rparr>"
  define ls1 where "ls1 = ls(t := ?l)"
  have rep1: "heap_rep h ls1 ts"
    by (rule heap_rep_cong [OF rep]) (use fresh in \<open>auto simp: ls1_def\<close>)
  let ?n = "length ts + 1"
  have len: "th_len h = length ts"
    by (rule heap_repD(2) [OF rep])
  obtain h2 ls2 where step: "heap_insert h ls t deadline = sift_up h2 ls2 t" and rep2: "heap_rep h2 ls2 (ts @ [t])"
    and dl2: "\<And>u. dl ls2 u = (if u = t then deadline else dl ls u)" and out: "\<And>u. u \<notin> insert t (set ts) \<Longrightarrow> ls2 u = ls u"
  proof (cases "ts = []")
    case True
    let ?h = "h\<lparr>th_root := Some t, th_len := 1\<rparr>"
    have "heap_insert h ls t deadline = sift_up ?h ls1 t"
      using True t len by (simp add: heap_insert_def ls1_def Let_def)
    moreover have "heap_rep ?h ls1 (ts @ [t])"
      using True by (auto simp: heap_rep_def link_ok_def place_def nd_def ls1_def heap_link_new_def)
    ultimately show thesis
      using that by (simp add: ls1_def)
  next
    case False
    then have n: "1 \<le> length ts"
      by (simp add: Suc_le_eq)
    then have m: "1 \<le> ?n div 2" "?n div 2 \<le> length ts"
      by auto
    let ?p = "nd ts (?n div 2)" and ?h = "h\<lparr>th_len := length ts + 1\<rparr>"
    define ls2 where "ls2 = (ls1(t := (ls1 t)\<lparr>hl_parent := Some ?p\<rparr>))
        (?p := if ?n mod 2 = 0 then (ls1 ?p)\<lparr>hl_left := Some t\<rparr> else (ls1 ?p)\<lparr>hl_right := Some t\<rparr>)"
    have pt: "?p \<noteq> t" "?p \<in> set ts"
      using nd_set [OF m] fresh by auto
    have "heap_insert h ls t deadline = sift_up ?h ls2 t"
      using t len False heap_at_rep [OF rep1, of "?n div 2"] m pt
      by (simp add: heap_insert_def ls1_def [symmetric] ls2_def Let_def)
    moreover have "heap_rep ?h ls2 (ts @ [t])"
      unfolding ls2_def by (rule append_rep [OF rep1 n fresh]) (simp_all add: ls1_def heap_link_new_def)
    moreover have "dl ls2 u = (if u = t then deadline else dl ls u)" "u \<notin> insert t (set ts) \<Longrightarrow> ls2 u = ls u" for u
      using pt by (auto simp: ls2_def ls1_def)
    ultimately show thesis
      using that by blast
  qed
  have "ordered_but ls2 (ts @ [t]) (\<lambda>j. j = ?n)"
  proof -
    have "dl ls2 (nd (ts @ [t]) j) = dl ls (nd ts j)" if "1 \<le> j" "j \<le> length ts" for j
      using dl2 nd_set [OF that] fresh nd_append [OF that] by auto
    then show ?thesis
      using ord by (auto simp: ordered_def ordered_but_def)
  qed
  moreover have "bridged ls2 (ts @ [t]) ?n"
    by (auto simp: bridged_def)
  moreover have "nd (ts @ [t]) ?n = t"
    by (simp add: nd_def)
  ultimately have "settles (sift_up h2 ls2 t) ls2 (ts @ [t])"
    using sift_up_settles [OF rep2, of ?n] by simp
  then obtain h' ls' where "sift_up h2 ls2 t = Some (h', ls')" "heap_holds h' ls' (M(t \<mapsto> deadline))"
      "same_deadlines ls2 ls'" "same_outside (insert t (dom M)) ls2 ls'"
    using settles_holds [of "sift_up h2 ls2 t" ls2 "ts @ [t]" "M(t \<mapsto> deadline)"] M dl2 by force
  then show ?thesis
    using step dl2 out M(1) by (auto simp: same_deadlines_def same_outside_def)
qed

section \<open>A timer taken out\<close>

lemma unlink_last_rep:
  assumes rep: "heap_rep h ls ts" and n: "1 \<le> length ts" and u: "unlink_last h ls (nd ts (length ts)) = (h', ls')"
  shows "heap_rep h' ls' (butlast ts)" and "same_deadlines ls ls'" and "same_outside (set ts) ls ls'"
    and "\<And>v. hl_linked (ls' v) = hl_linked (ls v)"
proof -
  let ?n = "length ts"
  let ?p = "nd ts (?n div 2)"
  note d = heap_repD(1) [OF rep]
  have place: "place (butlast ts) j = (if j = ?n then None else place ts j)" for j
    by (auto simp: place_def nd_def nth_butlast)
  have node: "nd (butlast ts) j = nd ts j" if "1 \<le> j" "j < ?n" for j
    using that by (simp add: nd_def nth_butlast)
  have parent: "hl_parent (ls (nd ts ?n)) = place ts (?n div 2)"
    by (rule heap_repD(5) [OF rep n order_refl])
  have root: "th_root h = place ts 1" "th_len h = ?n"
    by (rule heap_repD(3) [OF rep], rule heap_repD(2) [OF rep])
  have "heap_rep h' ls' (butlast ts) \<and> same_deadlines ls ls' \<and> same_outside (set ts) ls ls' \<and> (\<forall>v. hl_linked (ls' v) = hl_linked (ls v))"
  proof (cases "?n = 1")
    case True
    then have "h' = h\<lparr>th_root := None, th_len := 0\<rparr>" "ls' = ls" "butlast ts = []"
      using u parent root by (auto simp: unlink_last_def place_def length_Suc_conv)
    then show ?thesis
      by (simp add: heap_rep_def place_def same_refl)
  next
    case False
    then have m: "1 \<le> ?n div 2" "?n div 2 \<le> ?n" "?n div 2 < ?n"
      using n by auto
    have "hl_right (ls ?p) = Some (nd ts ?n) \<longleftrightarrow> 2 * (?n div 2) + 1 = ?n"
      using heap_repD(7) [OF rep m(1,2)] place_eq [OF d n order_refl] by simp
    then have h': "h' = h\<lparr>th_len := ?n - 1\<rparr>" and
      ls': "ls' = ls(?p := if 2 * (?n div 2) + 1 = ?n then (ls ?p)\<lparr>hl_right := None\<rparr> else (ls ?p)\<lparr>hl_left := None\<rparr>)"
      using u parent root m by (auto simp: unlink_last_def)
    have "link_ok ls' (butlast ts) j" if j: "1 \<le> j" "j \<le> ?n - 1" for j
    proof -
      have j': "j \<le> ?n" "j < ?n"
        using j n by auto
      have p: "nd ts j = ?p \<longleftrightarrow> j = ?n div 2"
        using nd_inj [OF d j(1) j'(1) m(1,2)] by auto
      have kids: "2 * j = ?n \<longleftrightarrow> j = ?n div 2 \<and> 2 * (?n div 2) + 1 \<noteq> ?n" "2 * j + 1 = ?n \<longleftrightarrow> j = ?n div 2 \<and> 2 * (?n div 2) + 1 = ?n" "j div 2 \<noteq> ?n"
        using j' by arith+
      note l = heap_repD(4-7) [OF rep j(1) j'(1)]
      show ?thesis
      proof (cases "j = ?n div 2")
        case True
        then show ?thesis
          using l kids p unfolding link_ok_def node [OF j(1) j'(2)] place ls' by auto
      next
        case False
        then have "ls' (nd ts j) = ls (nd ts j)"
          using p by (simp add: ls')
        then show ?thesis
          using l kids False unfolding link_ok_def node [OF j(1) j'(2)] place by auto
      qed
    qed
    then have "heap_rep h' ls' (butlast ts)"
      using d root False by (auto simp: heap_rep_def place h' distinct_butlast)
    moreover have "?p \<in> set ts"
      by (rule nd_set [OF m(1,2)])
    ultimately show ?thesis
      by (auto simp: ls' same_deadlines_def same_outside_def)
  qed
  then show "heap_rep h' ls' (butlast ts)" "same_deadlines ls ls'" "same_outside (set ts) ls ls'" "\<And>v. hl_linked (ls' v) = hl_linked (ls v)"
    by blast+
qed

text \<open>The links of a node put in another's place.\<close>

lemma refill_rep:
  assumes rep: "heap_rep h ls bs" and k: "1 \<le> k" "k \<le> length bs" and e: "e \<notin> set bs" "hl_linked (ls e)"
    and h1: "replace_child h ls (place bs (k div 2)) (nd bs k) e = (h1, ls1)"
  defines "ls2 \<equiv> upd_opt (upd_opt (ls1(e := (ls1 e)\<lparr>hl_parent := place bs (k div 2), hl_left := place bs (2 * k),
      hl_right := place bs (2 * k + 1)\<rparr>)) (place bs (2 * k)) (\<lambda>l. l\<lparr>hl_parent := Some e\<rparr>)) (place bs (2 * k + 1)) (\<lambda>l. l\<lparr>hl_parent := Some e\<rparr>)"
  shows "heap_rep h1 ls2 (bs[k - 1 := e])" and "same_deadlines ls ls2" and "same_outside (insert e (set bs)) ls ls2"
proof -
  note d = heap_repD(1) [OF rep]
  note r = replace_child_rep [OF rep k h1]
  let ?cs = "bs[k - 1 := e]"
  have node: "nd ?cs j = (if j = k then e else nd bs j)" if "1 \<le> j" "j \<le> length bs" for j
    using that k by (auto simp: nd_def nth_list_update)
  have place: "place ?cs j = (if j = k then Some e else place bs j)" for j
    using k by (auto simp: place_def nd_def nth_list_update)
  have in_place: "place bs j = Some v \<Longrightarrow> v \<in> set bs" for j v
    using place_set by fastforce
  have ne: "place bs j \<noteq> Some e" for j
    using in_place e(1) by blast
  have ls2: "ls2 v = (if v = e then (ls e)\<lparr>hl_parent := place bs (k div 2), hl_left := place bs (2 * k), hl_right := place bs (2 * k + 1)\<rparr>
      else if place bs (2 * k) = Some v \<or> place bs (2 * k + 1) = Some v then (ls1 v)\<lparr>hl_parent := Some e\<rparr> else ls1 v)" for v
    using ne r(1) [of e] by (auto simp: ls2_def upd_opt_at)
  have "link_ok ls2 ?cs j" if j: "1 \<le> j" "j \<le> length bs" for j
  proof (cases "j = k")
    case True
    have "k div 2 \<noteq> k" "2 * k \<noteq> k" "2 * k + 1 \<noteq> k"
      using k by auto
    then show ?thesis
      unfolding True link_ok_def node [OF k] place using e(2) by (simp add: ls2)
  next
    case False
    have eqs: "place bs i = Some (nd bs j) \<longleftrightarrow> i = j" for i
      by (rule place_eq [OF d j])
    have ej: "nd bs j \<noteq> e"
      using nd_set [OF j] e(1) by auto
    have kids: "2 * j = k \<longleftrightarrow> j = k div 2 \<and> k = 2 * (k div 2)" "2 * j + 1 = k \<longleftrightarrow> j = k div 2 \<and> k \<noteq> 2 * (k div 2)"
      "j div 2 = k \<longleftrightarrow> 2 * k = j \<or> 2 * k + 1 = j"
      by arith+
    have "ls2 (nd bs j) = (if j div 2 = k then (ls1 (nd bs j))\<lparr>hl_parent := Some e\<rparr> else ls1 (nd bs j))"
      using ej by (simp add: ls2 eqs kids(3))
    moreover have "ls1 (nd bs j) = (if k div 2 = j
      then if k = 2 * (k div 2) then (ls (nd bs j))\<lparr>hl_left := Some e\<rparr> else (ls (nd bs j))\<lparr>hl_right := Some e\<rparr> else ls (nd bs j))"
      by (simp only: r(1) eqs)
    ultimately show ?thesis
      using heap_repD(4-7) [OF rep j] kids(1,2) False unfolding link_ok_def node [OF j] place by auto
  qed
  moreover have "th_root h1 = place ?cs 1" "th_len h1 = length ?cs"
    using r(2,3) place [of 1] by auto
  moreover have "distinct ?cs"
    using d e(1) by (simp add: distinct_list_update)
  ultimately show "heap_rep h1 ls2 ?cs"
    by (simp add: heap_rep_def)
  show "same_deadlines ls ls2"
    by (auto simp: same_deadlines_def ls2 r(1))
  show "same_outside (insert e (set bs)) ls ls2"
    using in_place by (auto simp: same_outside_def ls2 r(1))
qed

lemma ordered_refill:
  assumes ord: "ordered ls ts" and k: "1 \<le> k" "k < length ts" and e: "nd ts (length ts) = e"
  defines "cs \<equiv> (butlast ts)[k - 1 := e]"
  shows "ordered_but ls cs (\<lambda>j. j = k \<or> j div 2 = k)" and "bridged ls cs k"
proof -
  have node: "nd cs j = (if j = k then e else nd ts j)" if "1 \<le> j" "j < length ts" for j
    using that k by (auto simp: nd_def cs_def nth_list_update nth_butlast)
  have up: "dl ls (nd ts (j div 2)) \<le> dl ls (nd ts j)" if "2 \<le> j" "j \<le> length ts" for j
    using ord that by (simp add: ordered_def ordered_but_def)
  show "ordered_but ls cs (\<lambda>j. j = k \<or> j div 2 = k)"
    unfolding ordered_but_def
  proof (intro allI impI)
    fix j assume j: "2 \<le> j" "j \<le> length cs" "\<not> (j = k \<or> j div 2 = k)"
    then have b: "j < length ts" "1 \<le> j div 2" "j div 2 < length ts" "1 \<le> j"
      using k by (auto simp: cs_def)
    show "dl ls (nd cs (j div 2)) \<le> dl ls (nd cs j)"
      using up [OF j(1)] b(1) j(3) by (simp add: node [OF b(2,3)] node [OF b(4,1)])
  qed
  show "bridged ls cs k"
    unfolding bridged_def
  proof (intro allI impI)
    fix j assume j: "j \<le> length cs" "j div 2 = k" "2 \<le> k"
    then have b: "j < length ts" "1 \<le> k div 2" "k div 2 < length ts" "1 \<le> j" "2 \<le> j" "j \<noteq> k" "k div 2 \<noteq> k"
      using k by (auto simp: cs_def)
    have "dl ls (nd ts (k div 2)) \<le> dl ls (nd ts k)"
      by (rule up) (use j(3) k in auto)
    also have "\<dots> \<le> dl ls (nd ts j)"
      using up [OF b(5)] b(1) j(2) by simp
    finally show "dl ls (nd cs (k div 2)) \<le> dl ls (nd cs j)"
      using b(6,7) by (simp add: node [OF b(2,3)] node [OF b(4,1)])
  qed
qed

lemma sift_either_settles:
  assumes rep: "heap_rep h ls cs" and k: "1 \<le> k" "k \<le> length cs"
    and ord: "ordered_but ls cs (\<lambda>j. j = k \<or> j div 2 = k)" and br: "bridged ls cs k"
  shows "settles (if (case place cs (k div 2) of None \<Rightarrow> False | Some p \<Rightarrow> earlier ls (nd cs k) p)
      then do { (h, ls) \<leftarrow> swap_with_parent h ls (nd cs k); sift_up h ls (nd cs k) }
      else sift_down h ls (nd cs k)) ls cs"
proof (cases "2 \<le> k \<and> earlier ls (nd cs k) (nd cs (k div 2))")
  case True
  then have p: "place cs (k div 2) = Some (nd cs (k div 2))"
    using k by (intro place_in) auto
  have "dl ls (nd cs k) < dl ls (nd cs (k div 2))"
    using True by (simp add: earlier_def)
  moreover have "dl ls (nd cs (k div 2)) \<le> dl ls (nd cs j)" if "j div 2 = k" "j \<le> length cs" for j
    using br that True by (simp add: bridged_def)
  ultimately have low: "dl ls (nd cs k) \<le> dl ls (nd cs j)" if "j div 2 = k" "j \<le> length cs" for j
    using that order.trans less_imp_le by metis
  have "ordered_but ls cs (\<lambda>j. j = k)"
    unfolding ordered_but_def
  proof (intro allI impI)
    fix j assume j: "2 \<le> j" "j \<le> length cs" "j \<noteq> k"
    show "dl ls (nd cs (j div 2)) \<le> dl ls (nd cs j)"
    proof (cases "j div 2 = k")
      case True
      then show ?thesis
        using low [OF True j(2)] by simp
    qed (use ord j in \<open>simp add: ordered_but_def\<close>)
  qed
  from sift_up_settles [OF rep k this br] show ?thesis
    using True heap_repD(5) [OF rep k] by (simp add: p sift_up.simps [of h ls "nd cs k"])
next
  case False
  have p: "place cs (k div 2) = (if 2 \<le> k then Some (nd cs (k div 2)) else None)"
    using k by (auto simp: place_def)
  have "ordered_but ls cs (\<lambda>j. j div 2 = k)"
    using ord False unfolding ordered_but_def by (auto simp: earlier_def not_less)
  from sift_down_settles [OF rep k this br] show ?thesis
    using False by (auto simp: p)
qed

lemma set_refill:
  assumes "distinct ts" and k: "1 \<le> k" "k < length ts"
  shows "set ((butlast ts)[k - 1 := nd ts (length ts)]) = set ts - {nd ts k}"
proof -
  let ?e = "nd ts (length ts)"
  have ts: "ts = butlast ts @ [?e]"
    using k by (cases ts rule: rev_cases) (auto simp: nd_def)
  have "distinct (butlast ts @ [?e])"
    using assms(1) ts by simp
  then have d: "distinct (butlast ts)" "?e \<notin> set (butlast ts)"
    by auto
  have t: "nd ts k = butlast ts ! (k - 1)" "k - 1 < length (butlast ts)"
    using k by (auto simp: nd_def nth_butlast)
  then have "set ((butlast ts)[k - 1 := ?e]) = insert ?e (set (butlast ts) - {nd ts k})"
    using set_update_distinct [OF d(1)] by simp
  moreover have "nd ts k \<noteq> ?e"
    using t d(2) nth_mem by metis
  moreover have "set ts = insert ?e (set (butlast ts))"
    by (subst ts) simp
  ultimately show ?thesis
    by auto
qed

text \<open>Whatever \<open>settles\<close> says of a heap whose links were already changed, it says of the links before.\<close>

definition takes_out :: "('p theap \<times> 'p hlinks) option \<Rightarrow> 'p hlinks \<Rightarrow> 'p list \<Rightarrow> 'p \<Rightarrow> bool" where
  "takes_out r ls ts t \<longleftrightarrow> (\<exists>h' ls' ts'. r = Some (h', ls') \<and> heap_rep h' ls' ts' \<and> set ts' = set ts - {t} \<and> ordered ls' ts'
     \<and> same_deadlines ls ls' \<and> same_outside (set ts) ls ls')"

lemma settles_takes_out:
  assumes "settles r ls' cs" and "set cs = set ts - {t}" and "same_deadlines ls ls'" "same_outside (set ts) ls ls'"
  shows "takes_out r ls ts t"
proof -
  obtain h2 ls2 ts2 where *: "r = Some (h2, ls2)" "heap_rep h2 ls2 ts2" "set ts2 = set ts - {t}" "ordered ls2 ts2"
      "same_deadlines ls' ls2" "same_outside (set cs) ls' ls2"
    using assms(1,2) by (auto simp: settles_def)
  have "same_outside (set ts) ls' ls2"
    using *(6) assms(2) by (simp add: same_outside_def)
  then show ?thesis
    using * same_trans(1) [OF assms(3) *(5)] same_trans(2) [OF assms(4)] unfolding takes_out_def by blast
qed

lemma fill_place_takes_out:
  assumes rep: "heap_rep h ls ts" and ord: "ordered ls ts" and k: "1 \<le> k" "k < length ts"
    and u: "unlink_last h ls (nd ts (length ts)) = (h1, ls1)"
  shows "takes_out (fill_place h1 ls1 (nd ts k) (nd ts (length ts))) ls ts (nd ts k)"
proof -
  let ?n = "length ts" and ?bs = "butlast ts"
  let ?e = "nd ts ?n" and ?cs = "?bs[k - 1 := nd ts (length ts)]"
  have n: "1 \<le> ?n"
    using k by simp
  note d = heap_repD(1) [OF rep] and u1 = unlink_last_rep [OF rep n u]
  have k': "k \<le> length ?bs"
    using k by simp
  have ts: "ts = ?bs @ [?e]"
    using n by (cases ts rule: rev_cases) (auto simp: nd_def)
  have fresh: "?e \<notin> set ?bs" and sub: "insert ?e (set ?bs) = set ts"
    using d by (subst (asm) ts, simp) (subst (3) ts, simp)
  have node: "nd ?cs k = ?e" and tb: "nd ?bs k = nd ts k" and places: "place ?cs (k div 2) = place ?bs (k div 2)"
    using k by (auto simp: nd_def nth_butlast place_def nth_list_update)
  obtain h2 ls2 where r2: "replace_child h1 ls1 (place ?bs (k div 2)) (nd ?bs k) ?e = (h2, ls2)"
    by fastforce
  define ls3 where "ls3 = upd_opt (upd_opt (ls2(?e := (ls2 ?e)\<lparr>hl_parent := place ?bs (k div 2), hl_left := place ?bs (2 * k),
    hl_right := place ?bs (2 * k + 1)\<rparr>)) (place ?bs (2 * k)) (\<lambda>l. l\<lparr>hl_parent := Some ?e\<rparr>)) (place ?bs (2 * k + 1)) (\<lambda>l. l\<lparr>hl_parent := Some ?e\<rparr>)"
  have "hl_linked (ls1 ?e)"
    using u1(4) heap_repD(4) [OF rep n order_refl] by simp
  note r3 = refill_rep [OF u1(1) k(1) k' fresh this r2, folded ls3_def, unfolded sub]
  have same: "same_deadlines ls ls3" "same_outside (set ts) ls ls3"
    by (rule same_trans(1) [OF u1(2) r3(2)], rule same_trans(2) [OF u1(3) r3(3)])
  note o = ordered_refill [OF ord k refl, folded ordered_same(1,2) [OF same(1)]]
  have "fill_place h1 ls1 (nd ts k) ?e = (if (case place ?cs (k div 2) of None \<Rightarrow> False | Some p \<Rightarrow> earlier ls3 (nd ?cs k) p)
    then do { (h, ls) \<leftarrow> swap_with_parent h2 ls3 (nd ?cs k); sift_up h ls (nd ?cs k) }
    else sift_down h2 ls3 (nd ?cs k))"
    unfolding fill_place_def Let_def heap_repD(5-7) [OF u1(1) k(1) k', unfolded tb] r2 [unfolded tb] node places ls3_def
    by simp
  then have "settles (fill_place h1 ls1 (nd ts k) ?e) ls3 ?cs"
    using sift_either_settles [OF r3(1) k(1) _ o] k' by simp
  then show ?thesis
    by (rule settles_takes_out [OF _ set_refill [OF d k] same])
qed

lemma drop_last_takes_out:
  assumes rep: "heap_rep h ls ts" and ord: "ordered ls ts" and n: "1 \<le> length ts"
    and u: "unlink_last h ls (nd ts (length ts)) = (h1, ls1)"
  shows "takes_out (Some (h1, ls1)) ls ts (nd ts (length ts))"
proof -
  note u1 = unlink_last_rep [OF rep n u]
  obtain bs e where ts: "ts = bs @ [e]"
    using n by (cases ts rule: rev_cases) auto
  have "ordered ls (butlast ts)"
    using ord by (auto simp: ordered_def ordered_but_def nd_def nth_butlast)
  then have "settles (Some (h1, ls1)) ls1 (butlast ts)"
    using settlesI [OF u1(1)] ordered_same(3) [OF u1(2)] by simp
  moreover have "set (butlast ts) = set ts - {nd ts (length ts)}"
    using heap_repD(1) [OF rep] by (auto simp: ts nd_def)
  ultimately show ?thesis
    by (rule settles_takes_out [OF _ _ u1(2,3)])
qed

lemma heap_remove_holds:
  assumes holds: "heap_holds h ls M" and t: "t \<in> dom M"
  shows "\<exists>h' ls'. heap_remove h ls t = Some (h', ls') \<and> heap_holds h' ls' (M(t := None))
    \<and> \<not> hl_linked (ls' t) \<and> same_deadlines ls ls' \<and> same_outside (dom M) ls ls'"
proof -
  obtain ts where rep: "heap_rep h ls ts" and ord: "ordered ls ts" and M: "set ts = dom M" "\<And>u. u \<in> dom M \<Longrightarrow> M u = Some (dl ls u)"
    using holds by (auto simp: heap_holds_def)
  obtain k where k: "1 \<le> k" "k \<le> length ts" and tk: "t = nd ts k"
    using nd_of_set t M(1) by metis
  let ?e = "nd ts (length ts)"
  have n: "1 \<le> length ts"
    using k by simp
  have linked: "hl_linked (ls t)"
    using heap_repD(4) [OF rep k] tk by simp
  have at: "heap_at h ls (th_len h) = Some (Some ?e)"
    using heap_at_rep [OF rep] heap_repD(2) [OF rep] n by simp
  obtain h1 ls1 where u: "unlink_last h ls ?e = (h1, ls1)"
    by fastforce
  define r where "r = (if ?e \<noteq> t then fill_place h1 ls1 t ?e else Some (h1, ls1))"
  have "takes_out r ls ts t"
  proof (cases "k = length ts")
    case True
    then show ?thesis
      using drop_last_takes_out [OF rep ord n u] tk by (simp add: r_def)
  next
    case False
    then have "?e \<noteq> t" "k < length ts"
      using nd_inj [OF heap_repD(1) [OF rep] k n order_refl] k tk by auto
    then show ?thesis
      using fill_place_takes_out [OF rep ord k(1) _ u] tk by (simp add: r_def)
  qed
  then obtain cs h2 ls2 where r: "r = Some (h2, ls2)" and rep2: "heap_rep h2 ls2 cs" "ordered ls2 cs" "set cs = set ts - {t}"
    and same: "same_deadlines ls ls2" "same_outside (set ts) ls ls2"
    unfolding takes_out_def by blast
  let ?ls = "ls2(t := (ls2 t)\<lparr>hl_linked := False, hl_parent := None, hl_left := None, hl_right := None\<rparr>)"
  have "heap_remove h ls t = Some (h2, ?ls)"
    using linked at u r by (simp add: heap_remove_def r_def Let_def)
  moreover have "heap_rep h2 ?ls cs"
    by (rule heap_rep_cong [OF rep2(1)]) (use rep2(3) in auto)
  moreover have same3: "same_deadlines ls ?ls"
    using same(1) by (simp add: same_deadlines_def)
  moreover have "ordered ?ls cs"
    using rep2(2) ordered_same(3) [OF same(1)] ordered_same(3) [OF same3] by simp
  moreover have "set cs = dom (M(t := None))"
    using rep2(3) M(1) by simp
  moreover have "(M(t := None)) u = Some (dl ?ls u)" if "u \<in> dom (M(t := None))" for u
  proof -
    have "u \<noteq> t" "u \<in> dom M" "dl ?ls u = dl ls u"
      using that same3 by (auto simp: same_deadlines_def split: if_splits)
    then show ?thesis
      using M(2) by simp
  qed
  ultimately have "heap_remove h ls t = Some (h2, ?ls)" "heap_holds h2 ?ls (M(t := None))" "same_deadlines ls ?ls"
    unfolding heap_holds_def by blast+
  moreover have "same_outside (dom M) ls ?ls"
    using same(2) M(1) t by (auto simp: same_outside_def)
  ultimately show ?thesis
    by (intro exI [of _ h2] exI [of _ ?ls]) simp
qed

section \<open>The first timer\<close>

lemma root_least:
  assumes "ordered ls ts" and "1 \<le> k" "k \<le> length ts"
  shows "dl ls (nd ts 1) \<le> dl ls (nd ts k)"
  using assms(2,3)
proof (induction k rule: less_induct)
  case (less k)
  show ?case
  proof (cases "k = 1")
    case False
    then have "1 \<le> k div 2" "k div 2 < k" "k div 2 \<le> length ts" "2 \<le> k"
      using less.prems by auto
    then have "dl ls (nd ts 1) \<le> dl ls (nd ts (k div 2))" "dl ls (nd ts (k div 2)) \<le> dl ls (nd ts k)"
      using less.IH assms(1) less.prems by (auto simp: ordered_def ordered_but_def)
    then show ?thesis
      by (rule order_trans)
  qed simp
qed

lemma heap_holds_root:
  assumes "heap_holds h ls M"
  shows "th_root h = None \<longleftrightarrow> M = Map.empty"
    and "th_root h = Some r \<Longrightarrow> M r = Some (dl ls r) \<and> (\<forall>u d. M u = Some d \<longrightarrow> dl ls r \<le> d)"
proof -
  obtain ts where rep: "heap_rep h ls ts" and ord: "ordered ls ts" and M: "set ts = dom M" "\<And>u. u \<in> dom M \<Longrightarrow> M u = Some (dl ls u)"
    using assms by (auto simp: heap_holds_def)
  have root: "th_root h = place ts 1"
    by (rule heap_repD(3) [OF rep])
  then show "th_root h = None \<longleftrightarrow> M = Map.empty"
    using M(1) by (cases ts) (auto simp: place_def)
  assume r: "th_root h = Some r"
  then have n: "1 \<le> length ts" "r = nd ts 1"
    using root by (auto simp: place_def split: if_splits)
  then have "r \<in> dom M"
    using nd_set [of 1 ts] M(1) by simp
  moreover have "dl ls r \<le> d" if "M u = Some d" for u d
  proof -
    have "u \<in> set ts" "d = dl ls u"
      using that M(1) M(2) [of u] by auto
    then show ?thesis
      using nd_of_set root_least [OF ord] n(2) by metis
  qed
  ultimately show "M r = Some (dl ls r) \<and> (\<forall>u d. M u = Some d \<longrightarrow> dl ls r \<le> d)"
    using M(2) by blast
qed

end
