(* ===== verification/Timer_Levels.thy ===== *)
theory Timer_Levels
  imports Timer_Calls
begin

text \<open>
  The timers of programs by level and the portions of their firing, of \<open>kcore/src/timer.rs\<close>, and the
  loop of \<open>fire_at\<close> in \<open>kernel/src/timer.rs\<close> that runs a portion. A level is a \<open>u8\<close> the code checks to
  be 1 to 63 before use, so it is a \<open>nat\<close>.
\<close>

unbundle bit_operations_syntax

section \<open>Levels\<close>

definition LEVELS :: nat where
  "LEVELS = 63"

definition FIRE_PORTION :: nat where
  "FIRE_PORTION = 8"

definition level_bit :: "nat \<Rightarrow> u64 option" where
  "level_bit level = do {
     ensure (1 \<le> level \<and> level \<le> LEVELS);
     Some (push_bit level 1) }"

record 'p levels =
  lv_heaps :: "'p theap list"
  lv_nonempty :: u64
  lv_pending :: u64
  lv_nearest :: u64

definition NO_DEADLINE :: u64 where
  "NO_DEADLINE = 0"

definition levels_new :: "'p levels" where
  "levels_new = \<lparr>lv_heaps = replicate LEVELS heap_new, lv_nonempty = 0, lv_pending = 0, lv_nearest = NO_DEADLINE\<rparr>"

definition set_nearest :: "'p levels \<Rightarrow> u64 option \<Rightarrow> 'p levels" where
  "set_nearest lv nearest = lv\<lparr>lv_nearest := (case nearest of None \<Rightarrow> NO_DEADLINE | Some n \<Rightarrow> NOT n)\<rparr>"

definition level_heap :: "'p levels \<Rightarrow> nat \<Rightarrow> 'p theap option" where
  "level_heap lv level = do {
     _ \<leftarrow> level_bit level;
     at_index (lv_heaps lv) (level - 1) }"

text \<open>A heap that was changed through the reference \<open>heap\<close> gives.\<close>

definition level_store :: "'p levels \<Rightarrow> nat \<Rightarrow> 'p theap \<Rightarrow> 'p levels" where
  "level_store lv level h = lv\<lparr>lv_heaps := (lv_heaps lv)[level - 1 := h]\<rparr>"

definition nearest_unlocked :: "'p levels \<Rightarrow> u64 option" where
  "nearest_unlocked lv = (let n = lv_nearest lv in if n \<noteq> NO_DEADLINE then Some (NOT n) else None)"

definition levels_nearest :: "'p levels \<Rightarrow> u64 option" where
  "levels_nearest lv = nearest_unlocked lv"

text \<open>The nearer of two deadlines, either of which may be absent.\<close>

definition nearer :: "u64 option \<Rightarrow> u64 option \<Rightarrow> u64 option" where
  "nearer nearest first =
     (case (nearest, first) of
        (Some n, Some f) \<Rightarrow> Some (min n f)
      | (Some n, None) \<Rightarrow> Some n
      | (None, f) \<Rightarrow> f)"

text \<open>The loops over the levels of a mask. A level of 0 is an index out of range.\<close>

function renew_walk :: "'p theap list \<Rightarrow> 'p hlinks \<Rightarrow> u64 \<Rightarrow> u64 option \<Rightarrow> u64 option option" where
  "renew_walk heaps ls levels nearest =
     (if levels = 0 then Some nearest
      else do {
        let level = trailing_zeros levels;
        ensure (level \<noteq> 0);
        h \<leftarrow> at_index heaps (level - 1);
        renew_walk heaps ls (levels AND (levels - 1)) (nearer nearest (heap_first h ls)) })"
  by pat_completeness auto
termination
  by (relation "measure (\<lambda>(_, _, levels, _). unat levels)") (auto intro: clear_lowest_less)

declare renew_walk.simps [simp del]

definition renew :: "'p levels \<Rightarrow> 'p hlinks \<Rightarrow> 'p levels option" where
  "renew lv ls = do {
     nearest \<leftarrow> renew_walk (lv_heaps lv) ls (lv_nonempty lv AND NOT (lv_pending lv)) None;
     Some (set_nearest lv nearest) }"

definition levels_insert :: "'p levels \<Rightarrow> 'p hlinks \<Rightarrow> nat \<Rightarrow> 'p \<Rightarrow> u64 \<Rightarrow> ('p levels \<times> 'p hlinks) option" where
  "levels_insert lv ls level t deadline = do {
     h \<leftarrow> level_heap lv level;
     (h, ls) \<leftarrow> heap_insert h ls t deadline;
     b \<leftarrow> level_bit level;
     let lv = (level_store lv level h)\<lparr>lv_nonempty := lv_nonempty lv OR b\<rparr>;
     if lv_pending lv AND b = 0 then do {
       let near = (case levels_nearest lv of None \<Rightarrow> deadline | Some n \<Rightarrow> min n deadline);
       Some (set_nearest lv (Some near), ls) }
     else Some (lv, ls) }"

definition levels_left :: "'p levels \<Rightarrow> 'p hlinks \<Rightarrow> nat \<Rightarrow> bool \<Rightarrow> 'p levels option" where
  "levels_left lv ls level moved = do {
     h \<leftarrow> level_heap lv level;
     b \<leftarrow> level_bit level;
     let lv = (if heap_is_empty h then lv\<lparr>lv_nonempty := lv_nonempty lv AND NOT b\<rparr> else lv);
     if moved \<and> lv_pending lv AND b = 0 then renew lv ls else Some lv }"

definition levels_remove :: "'p levels \<Rightarrow> 'p hlinks \<Rightarrow> nat \<Rightarrow> 'p \<Rightarrow> ('p levels \<times> 'p hlinks) option" where
  "levels_remove lv ls level t = do {
     h \<leftarrow> level_heap lv level;
     let before = heap_first h ls;
     (h, ls) \<leftarrow> heap_remove h ls t;
     let after = heap_first h ls;
     lv \<leftarrow> levels_left (level_store lv level h) ls level (before \<noteq> after);
     Some (lv, ls) }"

function expired_walk :: "'p theap list \<Rightarrow> 'p hlinks \<Rightarrow> u64 \<Rightarrow> u64 \<Rightarrow> u64 \<Rightarrow> u64 option \<Rightarrow> (u64 \<times> u64 option) option" where
  "expired_walk heaps ls now levels due nearest =
     (if levels = 0 then Some (due, nearest)
      else do {
        let level = trailing_zeros levels;
        ensure (level \<noteq> 0);
        h \<leftarrow> at_index heaps (level - 1);
        let (due, nearest) =
          (case heap_first h ls of
             Some d \<Rightarrow>
               if d \<le> now then (due OR push_bit level 1, nearest)
               else (due, Some (case nearest of None \<Rightarrow> d | Some n \<Rightarrow> min n d))
           | None \<Rightarrow> (due, nearest));
        expired_walk heaps ls now (levels AND (levels - 1)) due nearest })"
  by pat_completeness auto
termination
  by (relation "measure (\<lambda>(_, _, _, levels, _, _). unat levels)") (auto intro: clear_lowest_less)

declare expired_walk.simps [simp del]

definition levels_expired :: "'p levels \<Rightarrow> 'p hlinks \<Rightarrow> u64 \<Rightarrow> (u64 \<times> 'p levels) option" where
  "levels_expired lv ls now = do {
     (due, nearest) \<leftarrow> expired_walk (lv_heaps lv) ls now (lv_nonempty lv AND NOT (lv_pending lv)) 0 None;
     if due \<noteq> 0 then Some (due, set_nearest (lv\<lparr>lv_pending := lv_pending lv OR due\<rparr>) nearest)
     else Some (due, lv) }"

definition has_expired :: "'p levels \<Rightarrow> 'p hlinks \<Rightarrow> nat \<Rightarrow> u64 \<Rightarrow> bool option" where
  "has_expired lv ls level now = do {
     _ \<leftarrow> level_bit level;
     h \<leftarrow> at_index (lv_heaps lv) (level - 1);
     Some (case heap_first h ls of None \<Rightarrow> False | Some d \<Rightarrow> d \<le> now) }"

definition levels_pop_expired :: "'p levels \<Rightarrow> 'p hlinks \<Rightarrow> nat \<Rightarrow> u64 \<Rightarrow> ('p option \<times> 'p levels \<times> 'p hlinks) option" where
  "levels_pop_expired lv ls level now = do {
     h \<leftarrow> level_heap lv level;
     (r, h, ls) \<leftarrow> heap_pop_expired h ls now;
     let lv = level_store lv level h;
     (case r of
        None \<Rightarrow> Some (None, lv, ls)
      | Some t \<Rightarrow> do {
          lv \<leftarrow> levels_left lv ls level True;
          Some (Some t, lv, ls) }) }"

definition settle :: "'p levels \<Rightarrow> 'p hlinks \<Rightarrow> nat \<Rightarrow> 'p levels option" where
  "settle lv ls level = do {
     b \<leftarrow> level_bit level;
     renew (lv\<lparr>lv_pending := lv_pending lv AND NOT b\<rparr>) ls }"

section \<open>Firing\<close>

record firing =
  fr_level :: nat
  fr_left :: nat

definition firing_new :: "nat \<Rightarrow> firing option" where
  "firing_new level = do {
     _ \<leftarrow> level_bit level;
     Some \<lparr>fr_level = level, fr_left = FIRE_PORTION\<rparr> }"

definition firing_next :: "firing \<Rightarrow> 'p levels \<Rightarrow> 'p hlinks \<Rightarrow> u64 \<Rightarrow> ('p option \<times> firing \<times> 'p levels \<times> 'p hlinks) option" where
  "firing_next f lv ls now =
     (if fr_left f = 0 then Some (None, f, lv, ls)
      else do {
        (r, lv, ls) \<leftarrow> levels_pop_expired lv ls (fr_level f) now;
        (case r of
           None \<Rightarrow> Some (None, f, lv, ls)
         | Some t \<Rightarrow> Some (Some t, f\<lparr>fr_left := fr_left f - 1\<rparr>, lv, ls)) })"

definition firing_finish :: "firing \<Rightarrow> 'p levels \<Rightarrow> 'p hlinks \<Rightarrow> u64 \<Rightarrow> (bool \<times> 'p levels) option" where
  "firing_finish f lv ls now = do {
     more \<leftarrow> has_expired lv ls (fr_level f) now;
     if more then Some (True, lv)
     else do {
       lv \<leftarrow> settle lv ls (fr_level f);
       Some (False, lv) } }"

text \<open>
  The portion of \<open>fire_at\<close> in \<open>kernel/src/timer.rs\<close>: the loop that fills the batch, an array of
  \<open>FIRE_PORTION\<close> places, then \<open>finish\<close>.
\<close>

partial_function (option) fire_batch :: "firing \<Rightarrow> 'p levels \<Rightarrow> 'p hlinks \<Rightarrow> u64 \<Rightarrow> 'p list \<Rightarrow> ('p list \<times> firing \<times> 'p levels \<times> 'p hlinks) option" where
  "fire_batch step lv ls now batch = do {
     (r, step, lv, ls) \<leftarrow> firing_next step lv ls now;
     (case r of
        None \<Rightarrow> Some (batch, step, lv, ls)
      | Some t \<Rightarrow> do {
          ensure (length batch < FIRE_PORTION);
          fire_batch step lv ls now (batch @ [t]) }) }"

definition fire_at :: "'p levels \<Rightarrow> 'p hlinks \<Rightarrow> nat \<Rightarrow> u64 \<Rightarrow> ('p list \<times> bool \<times> 'p levels \<times> 'p hlinks) option" where
  "fire_at lv ls level now = do {
     step \<leftarrow> firing_new level;
     (batch, step, lv, ls) \<leftarrow> fire_batch step lv ls now [];
     (more, lv) \<leftarrow> firing_finish step lv ls now;
     Some (batch, more, lv, ls) }"

end
