(* ===== verification/Timer_Queue.thy ===== *)
theory Timer_Queue
  imports Timer_Levels
begin

text \<open>
  Queues of deadlines: the interface of a queue timers leave as they expire, the order in which they
  leave it, and the heap of timers as such a queue.
\<close>

section \<open>The least deadline\<close>

definition least :: "u64 set \<Rightarrow> u64 option" where
  "least S = (if S = {} then None else Some (Min S))"

lemma least_simps [simp]: "least {} = None" "least {d} = Some d"
  by (simp_all add: least_def)

lemma least_Un: "least (S \<union> T) = nearer (least S) (least T)"
  by (simp add: least_def nearer_def Min_Un)

lemma least_eq_Some: "least S = Some m \<longleftrightarrow> m \<in> S \<and> (\<forall>d\<in>S. m \<le> d)"
  by (auto simp: least_def intro!: Min_eqI Min_in)

lemma least_eq_None [simp]: "least S = None \<longleftrightarrow> S = {}"
  by (simp add: least_def)

lemma heap_first_least:
  assumes "heap_holds h ls M"
  shows "heap_first h ls = least (ran M)"
proof (cases "th_root h")
  case None
  then show ?thesis
    using heap_holds_root(1) [OF assms] by (simp add: heap_first_def)
next
  case (Some r)
  then have "least (ran M) = Some (dl ls r)"
    using heap_holds_root(2) [OF assms Some] by (auto simp: least_eq_Some ran_def)
  then show ?thesis
    using Some by (simp add: heap_first_def)
qed

lemma heap_holds_empty: "heap_holds h ls M \<Longrightarrow> heap_is_empty h \<longleftrightarrow> M = Map.empty"
  by (force simp: heap_holds_def heap_is_empty_def heap_rep_def)

lemma heap_holds_linked: "heap_holds h ls M \<Longrightarrow> t \<in> dom M \<Longrightarrow> hl_linked (ls t)"
  unfolding heap_holds_def using nd_of_set heap_repD(4) by metis

lemma heap_holds_finite: "heap_holds h ls M \<Longrightarrow> finite (dom M)"
  unfolding heap_holds_def by (metis List.finite_set)

lemma heap_holds_cong:
  assumes "heap_holds h ls M" and "\<And>u. u \<in> dom M \<Longrightarrow> ls' u = ls u"
  shows "heap_holds h ls' M"
proof -
  obtain ts where "heap_rep h ls ts" "ordered ls ts" "set ts = dom M" "\<forall>t\<in>dom M. M t = Some (dl ls t)"
    using assms(1) by (auto simp: heap_holds_def)
  then have "heap_rep h ls' ts \<and> ordered ls' ts \<and> set ts = dom M \<and> (\<forall>t\<in>dom M. M t = Some (dl ls' t))"
    using heap_rep_cong [of h ls ts ls'] ordered_cong [of ls ts _ ls'] assms(2) by (auto simp: ordered_def)
  then show ?thesis
    unfolding heap_holds_def by blast
qed

lemma heap_new_holds: "heap_holds heap_new ls Map.empty"
  by (auto simp: heap_holds_def heap_rep_def heap_new_def place_def ordered_def ordered_but_def intro!: exI [of _ "[]"])

lemma heap_pop_holds:
  assumes "heap_holds h ls M"
  shows "\<exists>r h' ls'. heap_pop_expired h ls now = Some (r, h', ls') \<and>
    (case r of
       None \<Rightarrow> h' = h \<and> ls' = ls \<and> (\<forall>d\<in>ran M. now < d)
     | Some t \<Rightarrow> \<exists>d. M t = Some d \<and> d \<le> now \<and> least (ran M) = Some d \<and> heap_holds h' ls' (M(t := None))
         \<and> \<not> hl_linked (ls' t) \<and> same_outside (dom M) ls ls')"
proof (cases "th_root h")
  case None
  then show ?thesis
    using heap_holds_root(1) [OF assms] by (simp add: heap_pop_expired_def)
next
  case (Some r)
  have r: "M r = Some (dl ls r)" "least (ran M) = Some (dl ls r)"
    using heap_holds_root(2) [OF assms Some] heap_first_least [OF assms] Some by (auto simp: heap_first_def)
  show ?thesis
  proof (cases "now < dl ls r")
    case True
    then show ?thesis
      using r(2) Some by (auto simp: heap_pop_expired_def least_eq_Some intro: less_le_trans)
  next
    case False
    obtain h' ls' where "heap_remove h ls r = Some (h', ls')" "heap_holds h' ls' (M(r := None))"
        "\<not> hl_linked (ls' r)" "same_outside (dom M) ls ls'"
      using heap_remove_holds [OF assms, of r] r(1) by auto
    then show ?thesis
      using False Some r by (auto simp: heap_pop_expired_def)
  qed
qed

section \<open>Queues of deadlines\<close>

text \<open>The timers whose deadlines are not after \<open>now\<close>.\<close>

definition due :: "('p \<Rightarrow> u64 option) \<Rightarrow> u64 \<Rightarrow> 'p set" where
  "due M now = {t. \<exists>d. M t = Some d \<and> d \<le> now}"

text \<open>
  The interface of a queue timers leave as they expire: a state stands for the timers it holds and their
  deadlines, and a timer is popped when it expired and none is earlier.
\<close>

locale expiry_queue =
  fixes holds :: "'s \<Rightarrow> ('p \<Rightarrow> u64 option) \<Rightarrow> bool"
    and pop :: "'s \<Rightarrow> u64 \<Rightarrow> ('p option \<times> 's) option"
  assumes finite_held: "holds s M \<Longrightarrow> finite (dom M)"
    and pop_law: "holds s M \<Longrightarrow> \<exists>r s'. pop s now = Some (r, s') \<and>
      (case r of
         None \<Rightarrow> holds s' M \<and> (\<forall>d\<in>ran M. now < d)
       | Some t \<Rightarrow> \<exists>d. M t = Some d \<and> d \<le> now \<and> least (ran M) = Some d \<and> holds s' (M(t := None)))"
begin

text \<open>At most \<open>n\<close> pops, until one finds nothing.\<close>

primrec pops :: "nat \<Rightarrow> 's \<Rightarrow> u64 \<Rightarrow> ('p list \<times> 's) option" where
  "pops 0 s now = Some ([], s)"
| "pops (Suc n) s now = do {
     (r, s) \<leftarrow> pop s now;
     (case r of
        None \<Rightarrow> Some ([], s)
      | Some t \<Rightarrow> do {
          (ts, s) \<leftarrow> pops n s now;
          Some (t # ts, s) }) }"

lemma finite_due: "holds s M \<Longrightarrow> finite (due M now)"
  by (rule finite_subset [OF _ finite_held]) (auto simp: due_def)

theorem pops_law:
  assumes "holds s M"
  shows "\<exists>ts s'. pops n s now = Some (ts, s') \<and> holds s' (M |` (- set ts))
    \<and> distinct ts \<and> set ts \<subseteq> due M now \<and> length ts = min n (card (due M now))
    \<and> sorted (map (\<lambda>t. the (M t)) ts)
    \<and> (\<forall>t\<in>set ts. \<forall>u\<in>dom M - set ts. the (M t) \<le> the (M u))"
  using assms
proof (induction n arbitrary: s M)
  case 0
  then show ?case
    by (simp add: restrict_map_def)
next
  case (Suc n)
  obtain r s1 where pop: "pop s now = Some (r, s1)" and r: "case r of
       None \<Rightarrow> holds s1 M \<and> (\<forall>d\<in>ran M. now < d)
     | Some t \<Rightarrow> \<exists>d. M t = Some d \<and> d \<le> now \<and> least (ran M) = Some d \<and> holds s1 (M(t := None))"
    using pop_law [OF Suc.prems] by blast
  show ?case
  proof (cases r)
    case None
    then have "due M now = {}" "holds s1 M"
      using r by (auto simp: due_def ran_def)
    then show ?thesis
      using pop None by (simp add: restrict_map_def)
  next
    case (Some t)
    then obtain d where d: "M t = Some d" "d \<le> now" "least (ran M) = Some d" and h1: "holds s1 (M(t := None))"
      using r by auto
    let ?M = "M(t := None)"
    have due: "due M now = insert t (due ?M now)" "t \<notin> due ?M now"
      using d by (auto simp: due_def split: if_splits)
    have low: "d \<le> the (M u)" if "u \<in> dom M" for u
      using d(3) that by (auto simp: least_eq_Some ran_def)
    obtain ts s' where ts: "pops n s1 now = Some (ts, s')" "holds s' (?M |` (- set ts))" "distinct ts" "set ts \<subseteq> due ?M now"
        "length ts = min n (card (due ?M now))" "sorted (map (\<lambda>t. the (?M t)) ts)"
        "\<forall>v\<in>set ts. \<forall>u\<in>dom ?M - set ts. the (?M v) \<le> the (?M u)"
      using Suc.IH [OF h1] by blast
    have t: "t \<notin> set ts"
      using ts(4) due(2) by blast
    have "M |` (- set (t # ts)) = ?M |` (- set ts)"
      by (auto simp: restrict_map_def)
    moreover have "map (\<lambda>t. the (?M t)) ts = map (\<lambda>t. the (M t)) ts"
      using t by auto
    then have "sorted (map (\<lambda>t. the (M t)) ts)"
      using ts(6) by (simp only:)
    moreover have "the (M v) \<le> the (M u)" if "v \<in> set ts" "u \<in> dom M - set (t # ts)" for v u
    proof -
      have "v \<noteq> t" "u \<noteq> t" "u \<in> dom ?M - set ts"
        using that t by auto
      then show ?thesis
        using ts(7) that(1) by force
    qed
    moreover have "set ts \<subseteq> dom M"
      using ts(4) due(1) by (auto simp: due_def)
    ultimately show ?thesis
      using pop Some ts(1-5) t due(1) finite_due [OF h1, of now] due(2) low d(1)
      by (auto simp: subset_iff domI)
  qed
qed

end

text \<open>A queue that a timer is put in once and taken out of from anywhere.\<close>

locale deadline_queue = expiry_queue holds pop
  for holds :: "'s \<Rightarrow> ('p \<Rightarrow> u64 option) \<Rightarrow> bool" and pop :: "'s \<Rightarrow> u64 \<Rightarrow> ('p option \<times> 's) option" +
  fixes put :: "'s \<Rightarrow> 'p \<Rightarrow> u64 \<Rightarrow> 's option"
    and take_out :: "'s \<Rightarrow> 'p \<Rightarrow> 's option"
  assumes put_law: "holds s M \<Longrightarrow> t \<notin> dom M \<Longrightarrow> \<exists>s'. put s t d = Some s' \<and> holds s' (M(t \<mapsto> d))"
    and take_out_law: "holds s M \<Longrightarrow> t \<in> dom M \<Longrightarrow> \<exists>s'. take_out s t = Some s' \<and> holds s' (M(t := None))"
begin

text \<open>The states calls lead to, each with the timers its history armed and did not take out again.\<close>

inductive reach :: "'s \<Rightarrow> 's \<Rightarrow> ('p \<Rightarrow> u64 option) \<Rightarrow> bool" for s0 where
  start: "reach s0 s0 Map.empty"
| put: "reach s0 s M \<Longrightarrow> t \<notin> dom M \<Longrightarrow> put s t d = Some s' \<Longrightarrow> reach s0 s' (M(t \<mapsto> d))"
| take_out: "reach s0 s M \<Longrightarrow> t \<in> dom M \<Longrightarrow> take_out s t = Some s' \<Longrightarrow> reach s0 s' (M(t := None))"
| pop: "reach s0 s M \<Longrightarrow> pop s now = Some (r, s') \<Longrightarrow> reach s0 s' (case r of None \<Rightarrow> M | Some t \<Rightarrow> M(t := None))"

lemma reach_holds:
  assumes "reach s0 s M" and "holds s0 Map.empty"
  shows "holds s M"
  using assms
proof (induction rule: reach.induct)
  case start
  then show ?case .
next
  case (put s M t d s')
  then show ?case
    using put_law [of s M t d] by (simp add: fun_upd_def)
next
  case (take_out s M t s')
  then show ?case
    using take_out_law [of s M t] by (simp add: fun_upd_def)
next
  case (pop s M now r s')
  then show ?case
    using pop_law [of s M now] by (auto simp: fun_upd_def split: option.splits)
qed

end

section \<open>The heap as a queue of deadlines\<close>

text \<open>The heap alone: the timers outside it are linked nowhere.\<close>

definition heap_alone :: "'p theap \<times> 'p hlinks \<Rightarrow> ('p \<Rightarrow> u64 option) \<Rightarrow> bool" where
  "heap_alone s M \<longleftrightarrow> heap_holds (fst s) (snd s) M \<and> (\<forall>t. hl_linked (snd s t) \<longrightarrow> t \<in> dom M)"

definition heap_put :: "'p theap \<times> 'p hlinks \<Rightarrow> 'p \<Rightarrow> u64 \<Rightarrow> ('p theap \<times> 'p hlinks) option" where
  "heap_put s t deadline = heap_insert (fst s) (snd s) t deadline"

definition heap_take :: "'p theap \<times> 'p hlinks \<Rightarrow> 'p \<Rightarrow> ('p theap \<times> 'p hlinks) option" where
  "heap_take s t = heap_remove (fst s) (snd s) t"

definition heap_pop :: "'p theap \<times> 'p hlinks \<Rightarrow> u64 \<Rightarrow> ('p option \<times> 'p theap \<times> 'p hlinks) option" where
  "heap_pop s now = heap_pop_expired (fst s) (snd s) now"

interpretation hq: deadline_queue heap_alone heap_pop heap_put heap_take
proof
  fix s :: "'p theap \<times> 'p hlinks" and M t d now
  assume s: "heap_alone s M"
  then have h: "heap_holds (fst s) (snd s) M" and out: "\<And>u. u \<notin> dom M \<Longrightarrow> \<not> hl_linked (snd s u)"
    by (auto simp: heap_alone_def)
  show "finite (dom M)"
    by (rule heap_holds_finite [OF h])
  show "\<exists>s'. heap_put s t d = Some s' \<and> heap_alone s' (M(t \<mapsto> d))" if "t \<notin> dom M"
    using heap_insert_holds [OF h out [OF that], of d] out
    by (fastforce simp: heap_put_def heap_alone_def same_outside_def)
  show "\<exists>s'. heap_take s t = Some s' \<and> heap_alone s' (M(t := None))" if "t \<in> dom M"
    using heap_remove_holds [OF h that] out
    by (fastforce simp: heap_take_def heap_alone_def same_outside_def)
  obtain r h' ls' where p: "heap_pop_expired (fst s) (snd s) now = Some (r, h', ls')" and
    r: "case r of
       None \<Rightarrow> h' = fst s \<and> ls' = snd s \<and> (\<forall>d\<in>ran M. now < d)
     | Some t \<Rightarrow> \<exists>d. M t = Some d \<and> d \<le> now \<and> least (ran M) = Some d \<and> heap_holds h' ls' (M(t := None))
         \<and> \<not> hl_linked (ls' t) \<and> same_outside (dom M) (snd s) ls'"
    using heap_pop_holds [OF h] by blast
  have "case r of
       None \<Rightarrow> heap_alone (h', ls') M \<and> (\<forall>d\<in>ran M. now < d)
     | Some t \<Rightarrow> \<exists>d. M t = Some d \<and> d \<le> now \<and> least (ran M) = Some d \<and> heap_alone (h', ls') (M(t := None))"
  proof (cases r)
    case None
    then show ?thesis
      using r s by simp
  next
    case (Some u)
    have "v \<in> dom (M(u := None))" if "hl_linked (ls' v)" for v
    proof -
      have "v \<noteq> u" "v \<notin> dom M \<Longrightarrow> ls' v = snd s v"
        using r that Some by (auto simp: same_outside_def)
      moreover from this have "v \<in> dom M"
        using that out [of v] by metis
      ultimately show ?thesis
        by auto
    qed
    then show ?thesis
      using r Some by (auto simp: heap_alone_def)
  qed
  then show "\<exists>r s'. heap_pop s now = Some (r, s') \<and>
      (case r of
         None \<Rightarrow> heap_alone s' M \<and> (\<forall>d\<in>ran M. now < d)
       | Some t \<Rightarrow> \<exists>d. M t = Some d \<and> d \<le> now \<and> least (ran M) = Some d \<and> heap_alone s' (M(t := None)))"
    using p by (auto simp: heap_pop_def)
qed

end
