(* ===== verification/Timer_Invariant.thy ===== *)
theory Timer_Invariant
  imports Timer_Queue
begin

text \<open>
  The invariant of the levels of timers: exact masks and the nearest deadline of the levels that are not
  pending, kept by every call.
\<close>

unbundle bit_operations_syntax

section \<open>The levels\<close>

definition waiting :: "(nat \<Rightarrow> 'p \<Rightarrow> u64 option) \<Rightarrow> (nat \<Rightarrow> bool) \<Rightarrow> u64 set" where
  "waiting L pend = (\<Union>l\<in>{l. 1 \<le> l \<and> l \<le> LEVELS \<and> \<not> pend l}. ran (L l))"

definition near_code :: "u64 option \<Rightarrow> u64" where
  "near_code n = (case n of None \<Rightarrow> NO_DEADLINE | Some d \<Rightarrow> NOT d)"

text \<open>
  The invariant, for the timers \<open>L l\<close> armed at each level \<open>l\<close>: each level's heap holds its timers, a timer
  is linked exactly when it is armed, the masks are exact and the nearest deadline is that of the levels
  that are not pending.
\<close>

definition levels_parts :: "'p levels \<Rightarrow> 'p hlinks \<Rightarrow> (nat \<Rightarrow> 'p \<Rightarrow> u64 option) \<Rightarrow> bool" where
  "levels_parts lv ls L \<longleftrightarrow>
     length (lv_heaps lv) = LEVELS \<and>
     (\<forall>l. 1 \<le> l \<and> l \<le> LEVELS \<longrightarrow> heap_holds (lv_heaps lv ! (l - 1)) ls (L l)) \<and>
     (\<forall>l m. l \<noteq> m \<longrightarrow> dom (L l) \<inter> dom (L m) = {}) \<and>
     (\<forall>l. L l \<noteq> Map.empty \<longrightarrow> 1 \<le> l \<and> l \<le> LEVELS) \<and>
     (\<forall>t. hl_linked (ls t) \<longrightarrow> (\<exists>l. t \<in> dom (L l))) \<and>
     (\<forall>l. bit (lv_nonempty lv) l \<longleftrightarrow> L l \<noteq> Map.empty) \<and>
     \<not> bit (lv_pending lv) 0"

definition levels_inv :: "'p levels \<Rightarrow> 'p hlinks \<Rightarrow> (nat \<Rightarrow> 'p \<Rightarrow> u64 option) \<Rightarrow> bool" where
  "levels_inv lv ls L \<longleftrightarrow> levels_parts lv ls L
     \<and> lv_nearest lv = near_code (least (waiting L (bit (lv_pending lv))))"

lemma parts_disjoint:
  assumes "levels_parts lv ls L" and "u \<in> dom (L l)" "u \<in> dom (L m)"
  shows "l = m"
  using assms unfolding levels_parts_def by blast

lemma level_bit_in [simp]: "1 \<le> l \<Longrightarrow> l \<le> LEVELS \<Longrightarrow> level_bit l = Some (push_bit l 1)"
  by (simp add: level_bit_def)

lemma level_heap_in:
  "levels_parts lv ls L \<Longrightarrow> 1 \<le> l \<Longrightarrow> l \<le> LEVELS \<Longrightarrow> level_heap lv l = Some (lv_heaps lv ! (l - 1))"
  by (simp add: level_heap_def levels_parts_def)

lemma level_clear:
  "w AND push_bit l 1 = 0 \<longleftrightarrow> \<not> bit w l" for w :: u64
  by (simp add: and_exp_eq_0_iff_not_bit)

lemma levels_new_inv: "(\<And>t. \<not> hl_linked (ls t)) \<Longrightarrow> levels_inv levels_new ls (\<lambda>_. Map.empty)"
  by (auto simp: levels_inv_def levels_parts_def levels_new_def heap_new_holds near_code_def waiting_def)

lemma nearest_code: "(if near_code n \<noteq> NO_DEADLINE then Some (NOT (near_code n)) else None) = (if n = Some (- 1) then None else n)"
  by (cases n) (simp_all add: near_code_def NO_DEADLINE_def not_eq_complement, metis minus_minus)

lemma levels_nearest_eq: "levels_nearest lv = (if lv_nearest lv = 0 then None else Some (NOT (lv_nearest lv)))"
  by (simp add: levels_nearest_def nearest_unlocked_def NO_DEADLINE_def Let_def)

subsection \<open>The walks\<close>

lemma renew_walk_least:
  assumes "\<And>l. bit w l \<Longrightarrow> 1 \<le> l \<and> l \<le> length heaps \<and> heap_holds (heaps ! (l - 1)) ls (L l)"
  shows "renew_walk heaps ls w (least S) = Some (least (S \<union> (\<Union>l\<in>{l. bit w l}. ran (L l))))"
  using assms
proof (induction heaps ls w "least S" arbitrary: S rule: renew_walk.induct)
  case (1 heaps ls levels)
  show ?case
  proof (cases "levels = 0")
    case False
    let ?l = "trailing_zeros levels" and ?w = "levels AND (levels - 1)"
    have l: "bit levels ?l" and w: "\<And>i. bit ?w i \<longleftrightarrow> bit levels i \<and> i \<noteq> ?l"
      using lowest_bit(1) [OF False] bit_clear_lowest [OF False] by blast+
    have h: "?l \<noteq> 0" "at_index heaps (?l - 1) = Some (heaps ! (?l - 1))" "heap_first (heaps ! (?l - 1)) ls = least (ran (L ?l))"
      using "1.prems" [OF l] heap_first_least by auto
    have rest: "\<And>l. bit ?w l \<Longrightarrow> 1 \<le> l \<and> l \<le> length heaps \<and> heap_holds (heaps ! (l - 1)) ls (L l)"
      using "1.prems" w by blast
    have "{l. bit levels l} = insert ?l {l. bit ?w l}"
      using l w by auto
    then have U: "S \<union> (\<Union>l\<in>{l. bit levels l}. ran (L l)) = (S \<union> ran (L ?l)) \<union> (\<Union>l\<in>{l. bit ?w l}. ran (L l))"
      by auto
    have "renew_walk heaps ls ?w (least (S \<union> ran (L ?l))) = Some (least ((S \<union> ran (L ?l)) \<union> (\<Union>l\<in>{l. bit ?w l}. ran (L l))))"
      using "1.hyps" [OF False refl, of _ "heaps ! (?l - 1)" "S \<union> ran (L ?l)"] h rest by (simp add: least_Un)
    then show ?thesis
      unfolding U using False h by (simp add: renew_walk.simps [of _ _ levels] least_Un Let_def)
  qed (simp add: renew_walk.simps bot_fun_def)
qed

lemma waiting_mask:
  assumes "levels_parts lv ls L"
  shows "(\<Union>l\<in>{l. bit (lv_nonempty lv AND NOT (lv_pending lv)) l}. ran (L l)) = waiting L (bit (lv_pending lv))"
proof -
  have "bit (lv_nonempty lv AND NOT (lv_pending lv)) l \<longleftrightarrow> L l \<noteq> Map.empty \<and> \<not> bit (lv_pending lv) l" for l
    using assms by (auto simp: levels_parts_def bit_and_iff bit_not_iff LEVELS_def)
  moreover have "L l \<noteq> Map.empty \<Longrightarrow> 1 \<le> l \<and> l \<le> LEVELS" for l
    using assms by (simp add: levels_parts_def)
  moreover have "ran (L l) \<noteq> {} \<Longrightarrow> L l \<noteq> Map.empty" for l
    by auto
  ultimately show ?thesis
    unfolding waiting_def by blast
qed

lemma mask_levels:
  assumes "levels_parts lv ls L" and "bit (lv_nonempty lv AND NOT (lv_pending lv)) l"
  shows "1 \<le> l \<and> l \<le> length (lv_heaps lv) \<and> heap_holds (lv_heaps lv ! (l - 1)) ls (L l)"
  using assms by (auto simp: levels_parts_def bit_and_iff)

lemma renew_inv:
  assumes "levels_parts lv ls L"
  shows "renew lv ls = Some (lv\<lparr>lv_nearest := near_code (least (waiting L (bit (lv_pending lv))))\<rparr>)"
proof -
  have "renew_walk (lv_heaps lv) ls (lv_nonempty lv AND NOT (lv_pending lv)) (least {}) = Some (least ({} \<union> waiting L (bit (lv_pending lv))))"
    unfolding waiting_mask [OF assms, symmetric] by (rule renew_walk_least [OF mask_levels [OF assms]])
  then show ?thesis
    by (simp add: renew_def set_nearest_def near_code_def)
qed

lemma parts_nearest [simp]: "levels_parts (lv\<lparr>lv_nearest := n\<rparr>) ls L \<longleftrightarrow> levels_parts lv ls L"
  by (simp add: levels_parts_def)

lemma parts_pending: "levels_parts lv ls L \<Longrightarrow> \<not> bit p 0 \<Longrightarrow> levels_parts (lv\<lparr>lv_pending := p\<rparr>) ls L"
  by (simp add: levels_parts_def)

text \<open>One level's heap and the mask of its timers changed.\<close>

lemma store_parts:
  assumes parts: "levels_parts lv ls L" and l: "1 \<le> l" "l \<le> LEVELS" and h: "heap_holds h ls' M"
    and dom: "dom M \<subseteq> insert t (dom (L l))" and out: "same_outside (insert t (dom (L l))) ls ls'"
    and t: "\<And>m. m \<noteq> l \<Longrightarrow> t \<notin> dom (L m)" and linked: "\<And>u. u \<in> insert t (dom (L l)) \<Longrightarrow> hl_linked (ls' u) \<Longrightarrow> u \<in> dom M"
    and ne: "\<And>i. bit ne i \<longleftrightarrow> (if i = l then M \<noteq> Map.empty else bit (lv_nonempty lv) i)"
  shows "levels_parts ((level_store lv l h)\<lparr>lv_nonempty := ne\<rparr>) ls' (L(l := M))"
proof -
  have disj: "u \<notin> insert t (dom (L l))" if "u \<in> dom (L m)" "m \<noteq> l" for u m
    using parts_disjoint [OF parts that(1)] that t by blast
  have "heap_holds (lv_heaps lv ! (m - 1)) ls' (L m)" if "1 \<le> m" "m \<le> LEVELS" "m \<noteq> l" for m
    by (rule heap_holds_cong [of _ ls]) (use parts that disj out in \<open>auto simp: levels_parts_def same_outside_def\<close>)
  then have "heap_holds ((lv_heaps lv)[l - 1 := h] ! (m - 1)) ls' ((L(l := M)) m)" if "1 \<le> m \<and> m \<le> LEVELS" for m
    using that h l parts by (auto simp: levels_parts_def nth_list_update)
  moreover have "dom ((L(l := M)) i) \<inter> dom ((L(l := M)) m) = {}" if "i \<noteq> m" for i m
    using parts_disjoint [OF parts] that disj dom by (auto split: if_splits) (blast+)
  moreover have "\<exists>m. u \<in> dom ((L(l := M)) m)" if "hl_linked (ls' u)" for u
  proof (cases "u \<in> insert t (dom (L l))")
    case True
    then show ?thesis
      using linked that by (intro exI [of _ l]) auto
  next
    case False
    then have "hl_linked (ls u)"
      using out that by (simp add: same_outside_def)
    then obtain m where "u \<in> dom (L m)"
      using parts unfolding levels_parts_def by blast
    then show ?thesis
      using False by (intro exI [of _ m]) auto
  qed
  ultimately show ?thesis
    using parts l ne by (simp add: levels_parts_def level_store_def)
qed

definition others :: "(nat \<Rightarrow> 'p \<Rightarrow> u64 option) \<Rightarrow> (nat \<Rightarrow> bool) \<Rightarrow> nat \<Rightarrow> u64 set" where
  "others L pend l = (\<Union>m\<in>{m. 1 \<le> m \<and> m \<le> LEVELS \<and> \<not> pend m \<and> m \<noteq> l}. ran (L m))"

lemma waiting_split:
  assumes "1 \<le> l" "l \<le> LEVELS"
  shows "waiting L pend = (if pend l then {} else ran (L l)) \<union> others L pend l"
  using assms by (auto simp: waiting_def others_def)

lemma others_upd [simp]: "others (L(l := M)) pend l = others L pend l"
  by (auto simp: others_def)

subsection \<open>Each call keeps the invariant\<close>

lemma near_code_insert:
  "near_code (Some (case (if near_code n = 0 then None else Some (NOT (near_code n))) of None \<Rightarrow> d | Some m \<Rightarrow> min m d))
    = near_code (nearer n (Some d))"
  using nearest_code [of n] by (auto simp: NO_DEADLINE_def nearer_def split: option.splits if_splits)

lemma levels_insert_inv:
  assumes inv: "levels_inv lv ls L" and l: "1 \<le> l" "l \<le> LEVELS" and t: "\<And>m. t \<notin> dom (L m)"
  shows "\<exists>lv' ls'. levels_insert lv ls l t d = Some (lv', ls') \<and> levels_inv lv' ls' (L(l := (L l)(t \<mapsto> d)))
    \<and> lv_pending lv' = lv_pending lv"
proof -
  have parts: "levels_parts lv ls L" and near: "lv_nearest lv = near_code (least (waiting L (bit (lv_pending lv))))"
    using inv by (simp_all add: levels_inv_def)
  let ?h = "lv_heaps lv ! (l - 1)" and ?M = "(L l)(t \<mapsto> d)"
  have h: "heap_holds ?h ls (L l)"
    using parts l by (simp add: levels_parts_def)
  have "\<not> hl_linked (ls t)"
    using parts t unfolding levels_parts_def by blast
  then obtain h' ls' where ins: "heap_insert ?h ls t d = Some (h', ls')" and h': "heap_holds h' ls' ?M"
    and out: "same_outside (insert t (dom (L l))) ls ls'"
    using heap_insert_holds [OF h] by blast
  let ?lv = "(level_store lv l h')\<lparr>lv_nonempty := lv_nonempty lv OR push_bit l 1\<rparr>"
  have parts': "levels_parts ?lv ls' (L(l := ?M))"
    by (rule store_parts [OF parts l h' _ out]) (use t l parts in \<open>auto simp: bit_or_push_one LEVELS_def simp del: push_bit_of_1\<close>)
  have pend: "lv_pending ?lv = lv_pending lv" "lv_nearest ?lv = lv_nearest lv"
    by (simp_all add: level_store_def)
  show ?thesis
  proof (cases "bit (lv_pending lv) l")
    case True
    have "waiting (L(l := ?M)) (bit (lv_pending lv)) = waiting L (bit (lv_pending lv))"
      using True by (simp add: waiting_split [OF l])
    then have "levels_inv ?lv ls' (L(l := ?M))"
      using parts' near pend by (simp add: levels_inv_def)
    then show ?thesis
      using True l ins pend by (simp add: levels_insert_def level_heap_in [OF parts l] Let_def level_clear del: push_bit_of_1)
  next
    case False
    have "ran ?M = insert d (ran (L l))"
      using t [of l] by (intro ran_map_upd) auto
    then have "waiting (L(l := ?M)) (bit (lv_pending lv)) = waiting L (bit (lv_pending lv)) \<union> {d}"
      using False by (auto simp: waiting_split [OF l])
    then have w: "least (waiting (L(l := ?M)) (bit (lv_pending lv))) = nearer (least (waiting L (bit (lv_pending lv)))) (Some d)"
      by (simp only: least_Un least_simps)
    let ?near = "Some (case levels_nearest ?lv of None \<Rightarrow> d | Some n \<Rightarrow> min n d)"
    have "near_code ?near = near_code (least (waiting (L(l := ?M)) (bit (lv_pending lv))))"
      unfolding w levels_nearest_eq pend near by (rule near_code_insert)
    then have "levels_inv (set_nearest ?lv ?near) ls' (L(l := ?M))"
      using parts' pend by (simp add: levels_inv_def set_nearest_def near_code_def)
    moreover have "levels_insert lv ls l t d = Some (set_nearest ?lv ?near, ls')"
      using False l ins pend by (simp add: levels_insert_def level_heap_in [OF parts l] Let_def level_clear del: push_bit_of_1)
    ultimately show ?thesis
      by (simp add: set_nearest_def level_store_def)
  qed
qed

lemma levels_left_inv:
  assumes inv: "levels_inv lv ls L" and l: "1 \<le> l" "l \<le> LEVELS" and t: "t \<in> dom (L l)"
    and h: "heap_holds h ls' ((L l)(t := None))" and u: "\<not> hl_linked (ls' t)" and out: "same_outside (dom (L l)) ls ls'"
    and moved: "moved \<or> least (ran ((L l)(t := None))) = least (ran (L l))"
  shows "\<exists>lv'. levels_left (level_store lv l h) ls' l moved = Some lv' \<and> levels_inv lv' ls' (L(l := (L l)(t := None)))
    \<and> lv_pending lv' = lv_pending lv"
proof -
  have parts: "levels_parts lv ls L" and near: "lv_nearest lv = near_code (least (waiting L (bit (lv_pending lv))))"
    using inv by (simp_all add: levels_inv_def)
  let ?M = "(L l)(t := None)" and ?lv = "level_store lv l h"
  define ne where "ne = (if heap_is_empty h then lv_nonempty lv AND NOT (push_bit l 1) else lv_nonempty lv)"
  have bits: "bit ne i \<longleftrightarrow> (if i = l then ?M \<noteq> Map.empty else bit (lv_nonempty lv) i)" for i
  proof -
    have "bit (lv_nonempty lv) l"
      using parts t by (auto simp: levels_parts_def)
    then show ?thesis
      using heap_holds_empty [OF h] by (auto simp: ne_def bit_and_not_push_one simp del: push_bit_of_1)
  qed
  have ins: "insert t (dom (L l)) = dom (L l)"
    using t by auto
  have parts': "levels_parts (?lv\<lparr>lv_nonempty := ne\<rparr>) ls' (L(l := ?M))"
  proof (rule store_parts [OF parts l h, of t])
    show "t \<notin> dom (L m)" if "m \<noteq> l" for m
      using parts_disjoint [OF parts t, of m] that by auto
  qed (use t u out bits in \<open>auto simp: ins\<close>)
  have heap: "level_heap ?lv l = Some h"
    using parts l by (simp add: level_heap_def level_store_def levels_parts_def)
  have pend: "lv_pending ?lv = lv_pending lv" "lv_nearest ?lv = lv_nearest lv" "lv_nonempty ?lv = lv_nonempty lv"
      "?lv\<lparr>lv_nonempty := lv_nonempty lv\<rparr> = ?lv"
    by (simp_all add: level_store_def)
  have step: "levels_left ?lv ls' l moved = (if moved \<and> \<not> bit (lv_pending lv) l then renew (?lv\<lparr>lv_nonempty := ne\<rparr>) ls' else Some (?lv\<lparr>lv_nonempty := ne\<rparr>))"
    using l by (auto simp add: levels_left_def heap Let_def ne_def level_clear pend simp del: push_bit_of_1)
  show ?thesis
  proof (cases "moved \<and> \<not> bit (lv_pending lv) l")
    case True
    then show ?thesis
      unfolding step renew_inv [OF parts'] using parts' pend by (simp add: levels_inv_def)
  next
    case False
    then have "least (waiting (L(l := ?M)) (bit (lv_pending lv))) = least (waiting L (bit (lv_pending lv)))"
      using moved by (auto simp: waiting_split [OF l] least_Un)
    then show ?thesis
      unfolding step if_not_P [OF False] using parts' pend near by (simp add: levels_inv_def)
  qed
qed

lemma levels_remove_inv:
  assumes inv: "levels_inv lv ls L" and t: "t \<in> dom (L l)"
  shows "\<exists>lv' ls'. levels_remove lv ls l t = Some (lv', ls') \<and> levels_inv lv' ls' (L(l := (L l)(t := None)))
    \<and> lv_pending lv' = lv_pending lv"
proof -
  have parts: "levels_parts lv ls L"
    using inv by (simp add: levels_inv_def)
  have l: "1 \<le> l" "l \<le> LEVELS"
    using parts t unfolding levels_parts_def by (metis dom_empty empty_iff)+
  let ?h = "lv_heaps lv ! (l - 1)"
  have h: "heap_holds ?h ls (L l)"
    using parts l by (simp add: levels_parts_def)
  obtain h' ls' where rm: "heap_remove ?h ls t = Some (h', ls')" and h': "heap_holds h' ls' ((L l)(t := None))"
    and u: "\<not> hl_linked (ls' t)" and out: "same_outside (dom (L l)) ls ls'"
    using heap_remove_holds [OF h t] by blast
  have first: "heap_first ?h ls = least (ran (L l))" "heap_first h' ls' = least (ran ((L l)(t := None)))"
    by (rule heap_first_least [OF h], rule heap_first_least [OF h'])
  have "heap_first ?h ls \<noteq> heap_first h' ls' \<or> least (ran ((L l)(t := None))) = least (ran (L l))"
    using first by auto
  from levels_left_inv [OF inv l t h' u out this] show ?thesis
    using rm by (auto simp: levels_remove_def level_heap_in [OF parts l] Let_def)
qed

lemma levels_pop_inv:
  assumes inv: "levels_inv lv ls L" and l: "1 \<le> l" "l \<le> LEVELS"
  shows "\<exists>r lv' ls'. levels_pop_expired lv ls l now = Some (r, lv', ls') \<and> lv_pending lv' = lv_pending lv \<and>
    (case r of
       None \<Rightarrow> levels_inv lv' ls' L \<and> (\<forall>d\<in>ran (L l). now < d)
     | Some t \<Rightarrow> \<exists>d. L l t = Some d \<and> d \<le> now \<and> least (ran (L l)) = Some d \<and> levels_inv lv' ls' (L(l := (L l)(t := None))))"
proof -
  have parts: "levels_parts lv ls L"
    using inv by (simp add: levels_inv_def)
  let ?h = "lv_heaps lv ! (l - 1)"
  have h: "heap_holds ?h ls (L l)"
    using parts l by (simp add: levels_parts_def)
  have same: "level_store lv l ?h = lv"
    by (simp add: level_store_def)
  obtain r h' ls' where pop: "heap_pop_expired ?h ls now = Some (r, h', ls')" and r: "case r of
       None \<Rightarrow> h' = ?h \<and> ls' = ls \<and> (\<forall>d\<in>ran (L l). now < d)
     | Some t \<Rightarrow> \<exists>d. L l t = Some d \<and> d \<le> now \<and> least (ran (L l)) = Some d \<and> heap_holds h' ls' ((L l)(t := None))
         \<and> \<not> hl_linked (ls' t) \<and> same_outside (dom (L l)) ls ls'"
    using heap_pop_holds [OF h] by blast
  show ?thesis
  proof (cases r)
    case None
    then show ?thesis
      using pop r inv same by (simp add: levels_pop_expired_def level_heap_in [OF parts l])
  next
    case (Some t)
    then obtain d where d: "L l t = Some d" "d \<le> now" "least (ran (L l)) = Some d" and h': "heap_holds h' ls' ((L l)(t := None))"
      and u: "\<not> hl_linked (ls' t)" and out: "same_outside (dom (L l)) ls ls'"
      using r by auto
    obtain lv' where "levels_left (level_store lv l h') ls' l True = Some lv'" "levels_inv lv' ls' (L(l := (L l)(t := None)))"
        "lv_pending lv' = lv_pending lv"
      using levels_left_inv [OF inv l _ h' u out, of True] d(1) by auto
    then show ?thesis
      using pop d Some by (auto simp: levels_pop_expired_def level_heap_in [OF parts l])
  qed
qed

lemma settle_inv:
  assumes inv: "levels_inv lv ls L" and l: "1 \<le> l" "l \<le> LEVELS"
  shows "\<exists>lv'. settle lv ls l = Some lv' \<and> levels_inv lv' ls L \<and> lv_pending lv' = lv_pending lv AND NOT (push_bit l 1)"
proof -
  let ?lv = "lv\<lparr>lv_pending := lv_pending lv AND NOT (push_bit l 1)\<rparr>"
  have "levels_parts ?lv ls L"
    using inv by (intro parts_pending) (auto simp: levels_inv_def levels_parts_def bit_and_iff)
  then show ?thesis
    using renew_inv [of ?lv ls L] l by (simp add: settle_def levels_inv_def del: push_bit_of_1)
qed

lemma has_expired_inv:
  assumes "levels_inv lv ls L" and l: "1 \<le> l" "l \<le> LEVELS"
  shows "has_expired lv ls l now = Some (\<exists>d\<in>ran (L l). d \<le> now)"
proof -
  have h: "heap_holds (lv_heaps lv ! (l - 1)) ls (L l)" "l - 1 < length (lv_heaps lv)"
    using assms by (auto simp: levels_inv_def levels_parts_def)
  have "(case least (ran (L l)) of None \<Rightarrow> False | Some d \<Rightarrow> d \<le> now) \<longleftrightarrow> (\<exists>d\<in>ran (L l). d \<le> now)"
    by (auto split: option.split simp: least_eq_Some intro: order.trans)
  then show ?thesis
    using h(2) l by (simp add: has_expired_def heap_first_least [OF h(1), simplified])
qed

subsection \<open>The timer interrupt\<close>

text \<open>What one level adds to the mask of due levels and to the nearest deadline of the rest.\<close>

lemma due_step:
  assumes "near = least S"
  shows "(case least R of
      Some d \<Rightarrow> if d \<le> now then (m OR push_bit l 1, near) else (m, Some (case near of None \<Rightarrow> d | Some n \<Rightarrow> min n d))
    | None \<Rightarrow> (m, near))
    = (if \<exists>d\<in>R. d \<le> now then (m OR push_bit l 1, least S) else (m, least (S \<union> R)))"
proof (cases "least R")
  case (Some d)
  then have "(\<exists>d\<in>R. d \<le> now) \<longleftrightarrow> d \<le> now"
    by (auto simp: least_eq_Some intro: order.trans)
  then show ?thesis
    using Some assms by (simp add: least_Un nearer_def split: option.split)
qed (simp add: assms)

lemma expired_walk_due:
  assumes "\<And>l. bit w l \<Longrightarrow> 1 \<le> l \<and> l \<le> length heaps \<and> heap_holds (heaps ! (l - 1)) ls (L l)"
  shows "\<exists>m'. expired_walk heaps ls now w m (least S)
      = Some (m', least (S \<union> (\<Union>l\<in>{l. bit w l \<and> \<not> (\<exists>d\<in>ran (L l). d \<le> now)}. ran (L l))))
    \<and> (\<forall>i. bit m' i \<longleftrightarrow> bit m i \<or> bit w i \<and> (\<exists>d\<in>ran (L i). d \<le> now))"
  using assms
proof (induction "unat w" arbitrary: w m S rule: less_induct)
  case less
  show ?case
  proof (cases "w = 0")
    case False
    let ?l = "trailing_zeros w" and ?w = "w AND (w - 1)"
    let ?due = "\<lambda>l. \<exists>d\<in>ran (L l). d \<le> now"
    have l: "bit w ?l" and w: "\<And>i. bit ?w i \<longleftrightarrow> bit w i \<and> i \<noteq> ?l"
      using lowest_bit(1) [OF False] bit_clear_lowest [OF False] by blast+
    have h: "?l \<noteq> 0" "at_index heaps (?l - 1) = Some (heaps ! (?l - 1))" "heap_first (heaps ! (?l - 1)) ls = least (ran (L ?l))"
      using less.prems [OF l] heap_first_least by auto
    have small: "?l < 64"
      using bit_imp_le_length [OF l] by simp
    define m1 where "m1 = (if ?due ?l then m OR push_bit ?l 1 else m)"
    define S1 where "S1 = (if ?due ?l then S else S \<union> ran (L ?l))"
    have step: "expired_walk heaps ls now w m (least S) = expired_walk heaps ls now ?w m1 (least S1)"
      using False h by (simp add: expired_walk.simps [of _ _ _ w] Let_def due_step [OF refl] m1_def S1_def del: push_bit_of_1)
    have rest: "\<And>l. bit ?w l \<Longrightarrow> 1 \<le> l \<and> l \<le> length heaps \<and> heap_holds (heaps ! (l - 1)) ls (L l)"
      using less.prems w by blast
    have sets: "S1 \<union> (\<Union>l\<in>{l. bit ?w l \<and> \<not> ?due l}. ran (L l)) = S \<union> (\<Union>l\<in>{l. bit w l \<and> \<not> ?due l}. ran (L l))"
      using l w by (auto simp: S1_def)
    have bits: "bit m1 i \<or> bit ?w i \<and> ?due i \<longleftrightarrow> bit m i \<or> bit w i \<and> ?due i" for i
      using l w small by (auto simp: m1_def bit_or_push_one simp del: push_bit_of_1)
    show ?thesis
      using less.hyps [OF clear_lowest_less [OF False] rest, of m1 S1] unfolding step sets bits .
  qed (simp add: expired_walk.simps bot_fun_def)
qed

lemma levels_expired_inv:
  assumes inv: "levels_inv lv ls L"
  shows "\<exists>m lv'. levels_expired lv ls now = Some (m, lv') \<and> levels_inv lv' ls L \<and> lv_pending lv' = lv_pending lv OR m
    \<and> (\<forall>l. bit m l \<longleftrightarrow> \<not> bit (lv_pending lv) l \<and> (\<exists>d\<in>ran (L l). d \<le> now))"
proof -
  have parts: "levels_parts lv ls L" and near: "lv_nearest lv = near_code (least (waiting L (bit (lv_pending lv))))"
    using inv by (simp_all add: levels_inv_def)
  let ?w = "lv_nonempty lv AND NOT (lv_pending lv)" and ?due = "\<lambda>l. \<exists>d\<in>ran (L l). d \<le> now"
  obtain m where walk: "expired_walk (lv_heaps lv) ls now ?w 0 None = Some (m, least (\<Union>l\<in>{l. bit ?w l \<and> \<not> ?due l}. ran (L l)))"
    and m: "\<And>i. bit m i \<longleftrightarrow> bit ?w i \<and> ?due i"
    using expired_walk_due [where w = ?w and S = "{}" and m = 0 and now = now, OF mask_levels [OF parts]] by auto
  have w: "bit ?w l \<longleftrightarrow> L l \<noteq> Map.empty \<and> \<not> bit (lv_pending lv) l" for l
    using parts by (auto simp: levels_parts_def bit_and_iff bit_not_iff LEVELS_def)
  have levels: "ran (L l) \<noteq> {} \<Longrightarrow> L l \<noteq> Map.empty \<and> 1 \<le> l \<and> l \<le> LEVELS" for l
    using parts unfolding levels_parts_def by (metis ran_empty)
  have due: "bit m l \<longleftrightarrow> \<not> bit (lv_pending lv) l \<and> ?due l" for l
    using m w levels by blast
  have rest: "(\<Union>l\<in>{l. bit ?w l \<and> \<not> ?due l}. ran (L l)) = waiting L (bit (lv_pending lv OR m))"
    unfolding waiting_def bit_or_iff due w using levels by blast
  show ?thesis
  proof (cases "m = 0")
    case True
    then show ?thesis
      using walk inv due by (auto simp: levels_expired_def)
  next
    case False
    have "\<not> bit (lv_pending lv OR m) 0"
      using parts levels due by (auto simp: levels_parts_def bit_or_iff)
    then have "levels_inv (set_nearest (lv\<lparr>lv_pending := lv_pending lv OR m\<rparr>) (least (waiting L (bit (lv_pending lv OR m))))) ls L"
      using parts by (simp add: levels_inv_def set_nearest_def near_code_def levels_parts_def)
    then show ?thesis
      using walk rest False due by (simp add: levels_expired_def set_nearest_def)
  qed
qed

end
