(* ===== verification/Timer_Fire.thy ===== *)
theory Timer_Fire
  imports Timer_Invariant
begin

text \<open>
  The portions of a firing, and the properties of the heap of timers, of the levels and of the firing of
  a level.
\<close>

unbundle bit_operations_syntax

subsection \<open>The portions of a firing\<close>


definition level_pop :: "nat \<Rightarrow> 'p levels \<times> 'p hlinks \<Rightarrow> u64 \<Rightarrow> ('p option \<times> 'p levels \<times> 'p hlinks) option" where
  "level_pop l s now = levels_pop_expired (fst s) (snd s) l now"


lemma level_pop_pair [simp]: "level_pop l (lv, ls) now = levels_pop_expired lv ls l now"
  by (simp add: level_pop_def)




section \<open>The heap of timers\<close>

lemma ran_eq_empty: "ran M = {} \<longleftrightarrow> M = Map.empty"
  by (metis all_not_in_conv not_None_eq ran_empty ranI ext)

lemma timer_heap_law:
  assumes "hq.reach (heap_new, \<lambda>_. heap_link_new) (h, ls) M"
  shows "heap_first h ls = (if M = Map.empty then None else Some (Min (ran M)))"
    and "t \<notin> dom M \<longrightarrow> (\<exists>h' ls'. heap_insert h ls t d = Some (h', ls')
      \<and> hq.reach (heap_new, \<lambda>_. heap_link_new) (h', ls') (M(t \<mapsto> d)))"
    and "t \<in> dom M \<longrightarrow> (\<exists>h' ls'. heap_remove h ls t = Some (h', ls')
      \<and> hq.reach (heap_new, \<lambda>_. heap_link_new) (h', ls') (M(t := None)))"
    and "\<exists>r h' ls'. heap_pop_expired h ls now = Some (r, h', ls')
      \<and> (r = None \<longleftrightarrow> (\<forall>d\<in>ran M. now < d))
      \<and> (\<forall>u. r = Some u \<longrightarrow> M u = Some (Min (ran M)) \<and> Min (ran M) \<le> now)"
proof -
  have "heap_alone (heap_new, \<lambda>_. heap_link_new) Map.empty"
    by (simp add: heap_alone_def heap_new_holds heap_link_new_def)
  then have alone: "heap_alone (h, ls) M"
    by (rule hq.reach_holds [OF assms])
  then have h: "heap_holds h ls M"
    by (simp add: heap_alone_def)
  show "heap_first h ls = (if M = Map.empty then None else Some (Min (ran M)))"
    by (simp add: heap_first_least [OF h] least_def ran_eq_empty)
  show "t \<notin> dom M \<longrightarrow> (\<exists>h' ls'. heap_insert h ls t d = Some (h', ls')
      \<and> hq.reach (heap_new, \<lambda>_. heap_link_new) (h', ls') (M(t \<mapsto> d)))"
  proof
    assume t: "t \<notin> dom M"
    then obtain h' ls' where "heap_put (h, ls) t d = Some (h', ls')"
      using hq.put_law [OF alone t, of d] by auto
    from hq.reach.put [OF assms t this] this
    show "\<exists>h' ls'. heap_insert h ls t d = Some (h', ls') \<and> hq.reach (heap_new, \<lambda>_. heap_link_new) (h', ls') (M(t \<mapsto> d))"
      unfolding heap_put_def fst_conv snd_conv by blast
  qed
  show "t \<in> dom M \<longrightarrow> (\<exists>h' ls'. heap_remove h ls t = Some (h', ls')
      \<and> hq.reach (heap_new, \<lambda>_. heap_link_new) (h', ls') (M(t := None)))"
  proof
    assume t: "t \<in> dom M"
    then obtain h' ls' where "heap_take (h, ls) t = Some (h', ls')"
      using hq.take_out_law [OF alone t] by auto
    from hq.reach.take_out [OF assms t this] this
    show "\<exists>h' ls'. heap_remove h ls t = Some (h', ls') \<and> hq.reach (heap_new, \<lambda>_. heap_link_new) (h', ls') (M(t := None))"
      unfolding heap_take_def fst_conv snd_conv by blast
  qed
  show "\<exists>r h' ls'. heap_pop_expired h ls now = Some (r, h', ls')
      \<and> (r = None \<longleftrightarrow> (\<forall>d\<in>ran M. now < d))
      \<and> (\<forall>u. r = Some u \<longrightarrow> M u = Some (Min (ran M)) \<and> Min (ran M) \<le> now)"
  proof -
    obtain r h' ls' where pop: "heap_pop_expired h ls now = Some (r, h', ls')" and r: "case r of
         None \<Rightarrow> heap_alone (h', ls') M \<and> (\<forall>d\<in>ran M. now < d)
       | Some t \<Rightarrow> \<exists>d. M t = Some d \<and> d \<le> now \<and> least (ran M) = Some d \<and> heap_alone (h', ls') (M(t := None))"
      using hq.pop_law [OF alone, of now] by (auto simp: heap_pop_def)
    have "(r = None \<longleftrightarrow> (\<forall>d\<in>ran M. now < d)) \<and> (\<forall>u. r = Some u \<longrightarrow> M u = Some (Min (ran M)) \<and> Min (ran M) \<le> now)"
    proof (cases r)
      case (Some t)
      then have "Min (ran M) \<in> ran M" "M t = Some (Min (ran M))" "Min (ran M) \<le> now"
        using r by (auto simp: least_def intro: ranI split: if_splits)
      then show ?thesis
        using Some by (auto simp: not_less)
    qed (use r in simp)
    then show ?thesis
      using pop by blast
  qed
qed

text \<open>
  C33. After any calls that keep the contract of the heap of timers, a timer put in only while it is out and
  taken out only while it is in, the top is the least deadline of the timers armed by these calls; a timer
  that is out goes in and one that is in comes out, from wherever it stands; and the timer popped at
  \<open>now\<close> is one of the least deadline, not after \<open>now\<close>, while nothing is popped exactly when every deadline
  is after \<open>now\<close>. Every loop ends.
\<close>

theorem timer_heap_refines:
  assumes "hq.reach (heap_new, \<lambda>_. heap_link_new) (h, ls) M"
  shows "heap_first h ls = (if M = Map.empty then None else Some (Min (ran M)))
    \<and> (\<forall>t d. t \<notin> dom M \<longrightarrow> (\<exists>h' ls'. heap_insert h ls t d = Some (h', ls')
         \<and> hq.reach (heap_new, \<lambda>_. heap_link_new) (h', ls') (M(t \<mapsto> d))))
    \<and> (\<forall>t. t \<in> dom M \<longrightarrow> (\<exists>h' ls'. heap_remove h ls t = Some (h', ls')
         \<and> hq.reach (heap_new, \<lambda>_. heap_link_new) (h', ls') (M(t := None))))
    \<and> (\<exists>r h' ls'. heap_pop_expired h ls now = Some (r, h', ls')
         \<and> (r = None \<longleftrightarrow> (\<forall>d\<in>ran M. now < d))
         \<and> (\<forall>u. r = Some u \<longrightarrow> M u = Some (Min (ran M)) \<and> Min (ran M) \<le> now))"
  by (intro conjI allI, rule timer_heap_law(1) [OF assms], rule timer_heap_law(2) [OF assms],
      rule timer_heap_law(3) [OF assms], rule timer_heap_law(4) [OF assms])

theorem timer_heap_refines_witness:
  "\<exists>h ls. hq.reach (heap_new, \<lambda>_. heap_link_new) (h, ls) [2 \<mapsto> 7, 3 \<mapsto> 4, (4::nat) \<mapsto> 9]
    \<and> heap_first h ls = Some 4 \<and> heap_insert h ls 5 1 \<noteq> None \<and> heap_remove h ls 2 \<noteq> None
    \<and> (\<exists>h' ls'. heap_pop_expired h ls 8 = Some (Some 3, h', ls'))"
proof -
  let ?s = "(heap_new, \<lambda>_. heap_link_new) :: nat theap \<times> nat hlinks" and ?M = "[2 \<mapsto> 7, 3 \<mapsto> 4, (4::nat) \<mapsto> (9::u64)]"
  have out: "(2::nat) \<notin> dom Map.empty" "(3::nat) \<notin> dom [2 \<mapsto> (7::u64)]" "(4::nat) \<notin> dom [2 \<mapsto> (7::u64), 3 \<mapsto> 4]" "5 \<notin> dom ?M" "2 \<in> dom ?M"
    by simp_all
  obtain h1 ls1 where r1: "hq.reach ?s (h1, ls1) [2 \<mapsto> 7]"
    using timer_heap_law(2) [OF hq.reach.start, of 2 7, THEN mp, OF out(1)] by blast
  obtain h2 ls2 where r2: "hq.reach ?s (h2, ls2) [2 \<mapsto> 7, 3 \<mapsto> 4]"
    using timer_heap_law(2) [OF r1, of 3 4, THEN mp, OF out(2)] by blast
  obtain h ls where r: "hq.reach ?s (h, ls) ?M"
    using timer_heap_law(2) [OF r2, of 4 9, THEN mp, OF out(3)] by blast
  have M: "ran ?M = {7, 4, 9}" "?M \<noteq> Map.empty" and u: "?M u = Some 4 \<longleftrightarrow> u = 3" for u
    by (auto simp: ran_map_upd)
  note w = timer_heap_refines [OF r, of 8, THEN conjunct1] timer_heap_refines [OF r, of 8, THEN conjunct2]
  have first: "heap_first h ls = Some 4"
    using w(1) unfolding M(1) if_not_P [OF M(2)] by simp
  have calls: "heap_insert h ls 5 1 \<noteq> None" "heap_remove h ls 2 \<noteq> None"
    using w(2) out(4,5) by blast+
  obtain q h' ls' where "heap_pop_expired h ls 8 = Some (q, h', ls')" "q = None \<longleftrightarrow> (\<forall>d\<in>{7, 4, 9 :: u64}. 8 < d)"
      "\<forall>u. q = Some u \<longrightarrow> ?M u = Some (Min {7, 4, 9}) \<and> Min {7, 4, 9} \<le> (8::u64)"
    using w(2) unfolding M(1) by blast
  then have "heap_pop_expired h ls 8 = Some (Some 3, h', ls')"
    using u by (cases q) (auto simp del: fun_upd_apply)
  then show ?thesis
    using r first calls by blast
qed

section \<open>The levels of timers\<close>

text \<open>
  The states of the levels that calls lead to, each with the timers \<open>L l\<close> its history armed at each level
  and did not take out again, and the levels \<open>P\<close> that expired and did not settle since.
\<close>

inductive levels_reach :: "'p levels \<Rightarrow> 'p hlinks \<Rightarrow> (nat \<Rightarrow> 'p \<Rightarrow> u64 option) \<Rightarrow> nat set \<Rightarrow> bool" where
  reach_new: "(\<And>t. \<not> hl_linked (ls t)) \<Longrightarrow> levels_reach levels_new ls (\<lambda>_. Map.empty) {}"
| reach_insert: "levels_reach lv ls L P \<Longrightarrow> (\<And>m. t \<notin> dom (L m)) \<Longrightarrow> levels_insert lv ls l t d = Some (lv', ls')
    \<Longrightarrow> levels_reach lv' ls' (L(l := (L l)(t \<mapsto> d))) P"
| reach_remove: "levels_reach lv ls L P \<Longrightarrow> t \<in> dom (L l) \<Longrightarrow> levels_remove lv ls l t = Some (lv', ls')
    \<Longrightarrow> levels_reach lv' ls' (L(l := (L l)(t := None))) P"
| reach_expired: "levels_reach lv ls L P \<Longrightarrow> levels_expired lv ls now = Some (m, lv')
    \<Longrightarrow> levels_reach lv' ls L (P \<union> {l. bit m l})"
| reach_pop: "levels_reach lv ls L P \<Longrightarrow> levels_pop_expired lv ls l now = Some (r, lv', ls')
    \<Longrightarrow> levels_reach lv' ls' (case r of None \<Rightarrow> L | Some t \<Rightarrow> L(l := (L l)(t := None))) P"
| reach_settle: "levels_reach lv ls L P \<Longrightarrow> settle lv ls l = Some lv' \<Longrightarrow> levels_reach lv' ls L (P - {l})"

lemma level_range:
  "level_bit l = Some b \<Longrightarrow> 1 \<le> l \<and> l \<le> LEVELS"
  "level_heap lv l = Some h \<Longrightarrow> 1 \<le> l \<and> l \<le> LEVELS"
  by (auto simp: level_bit_def level_heap_def stop_simps)

lemma calls_in_range:
  "levels_insert lv ls l t d = Some s \<Longrightarrow> 1 \<le> l \<and> l \<le> LEVELS"
  "levels_pop_expired lv ls l now = Some q \<Longrightarrow> 1 \<le> l \<and> l \<le> LEVELS"
  "settle lv ls l = Some lv' \<Longrightarrow> 1 \<le> l \<and> l \<le> LEVELS"
  unfolding levels_insert_def levels_pop_expired_def settle_def
  by (auto simp only: bind_Some_iff dest: level_range)

lemma levels_reach_inv:
  assumes "levels_reach lv ls L P"
  shows "levels_inv lv ls L \<and> P = {l. bit (lv_pending lv) l}"
  using assms
proof (induction rule: levels_reach.induct)
  case (reach_new ls)
  then show ?case
    using levels_new_inv [of ls] by (simp add: levels_new_def bot_fun_def)
next
  case (reach_insert lv ls L P t l d lv' ls')
  then show ?case
    using levels_insert_inv [of lv ls L l t d] calls_in_range(1) [OF reach_insert.hyps(3)] by (simp add: fun_upd_def)
next
  case (reach_remove lv ls L P t l lv' ls')
  then show ?case
    using levels_remove_inv [of lv ls L t l] by (simp add: fun_upd_def)
next
  case (reach_expired lv ls L P now m lv')
  then show ?case
    using levels_expired_inv [of lv ls L now] by (auto simp: bit_or_iff)
next
  case (reach_pop lv ls L P l now r lv' ls')
  then show ?case
    using levels_pop_inv [of lv ls L l now] calls_in_range(2) [OF reach_pop.hyps(2)] by (auto simp: fun_upd_def split: option.splits)
next
  case (reach_settle lv ls L P l lv')
  then show ?case
    using settle_inv [of lv ls L l] calls_in_range(3) [OF reach_settle.hyps(2)]
    by (auto simp: bit_and_not_push_one simp del: push_bit_of_1)
qed

text \<open>The deadlines at the levels that are not pending.\<close>

definition awaited :: "(nat \<Rightarrow> 'p \<Rightarrow> u64 option) \<Rightarrow> nat set \<Rightarrow> u64 set" where
  "awaited L P = (\<Union>l\<in>{1..63} - P. ran (L l))"

lemma timer_levels_law:
  assumes "levels_reach lv ls L P"
  defines "S \<equiv> awaited L P"
  shows "levels_nearest lv = (if S = {} \<or> Min S = - 1 then None else Some (Min S))"
    and "\<exists>m lv'. levels_expired lv ls now = Some (m, lv') \<and> (\<forall>l. bit m l \<longleftrightarrow> l \<notin> P \<and> due (L l) now \<noteq> {})"
    and "1 \<le> l \<and> l \<le> 63 \<and> (\<forall>m. t \<notin> dom (L m)) \<longrightarrow> levels_insert lv ls l t d \<noteq> None"
    and "t \<in> dom (L l) \<longrightarrow> levels_remove lv ls l t \<noteq> None"
    and "1 \<le> l \<and> l \<le> 63 \<longrightarrow> settle lv ls l \<noteq> None
      \<and> (\<exists>r lv' ls'. levels_pop_expired lv ls l now = Some (r, lv', ls')
        \<and> (r = None \<longleftrightarrow> due (L l) now = {})
        \<and> (\<forall>u. r = Some u \<longrightarrow> u \<in> due (L l) now \<and> L l u = Some (Min (ran (L l)))))"
proof -
  have inv: "levels_inv lv ls L" and P: "P = {l. bit (lv_pending lv) l}"
    using levels_reach_inv [OF assms(1)] by auto
  have S: "waiting L (bit (lv_pending lv)) = S"
    by (auto simp: waiting_def S_def awaited_def P LEVELS_def)
  have due: "(\<exists>d\<in>ran (L l). d \<le> now) \<longleftrightarrow> due (L l) now \<noteq> {}" for l
    by (auto simp: due_def ran_def)
  show "levels_nearest lv = (if S = {} \<or> Min S = - 1 then None else Some (Min S))"
  proof -
    have "lv_nearest lv = near_code (least S)"
      using inv by (simp add: levels_inv_def S)
    then have "levels_nearest lv = (if least S = Some (- 1) then None else least S)"
      using nearest_code [of "least S"] by (cases "near_code (least S) = 0") (simp_all add: levels_nearest_eq NO_DEADLINE_def)
    then show ?thesis
      by (simp add: least_def)
  qed
  show "\<exists>m lv'. levels_expired lv ls now = Some (m, lv') \<and> (\<forall>l. bit m l \<longleftrightarrow> l \<notin> P \<and> due (L l) now \<noteq> {})"
    using levels_expired_inv [OF inv, of now] by (auto simp: P due)
  show "1 \<le> l \<and> l \<le> 63 \<and> (\<forall>m. t \<notin> dom (L m)) \<longrightarrow> levels_insert lv ls l t d \<noteq> None"
    using levels_insert_inv [OF inv, of l t d] unfolding LEVELS_def by blast
  show "t \<in> dom (L l) \<longrightarrow> levels_remove lv ls l t \<noteq> None"
    using levels_remove_inv [OF inv, of t l] by blast
  show "1 \<le> l \<and> l \<le> 63 \<longrightarrow> settle lv ls l \<noteq> None
      \<and> (\<exists>r lv' ls'. levels_pop_expired lv ls l now = Some (r, lv', ls')
        \<and> (r = None \<longleftrightarrow> due (L l) now = {})
        \<and> (\<forall>u. r = Some u \<longrightarrow> u \<in> due (L l) now \<and> L l u = Some (Min (ran (L l)))))"
  proof
    assume "1 \<le> l \<and> l \<le> 63"
    then have l: "1 \<le> l" "l \<le> LEVELS"
      by (simp_all add: LEVELS_def)
    obtain r lv' ls' where pop: "levels_pop_expired lv ls l now = Some (r, lv', ls')" and r: "case r of
         None \<Rightarrow> levels_inv lv' ls' L \<and> (\<forall>d\<in>ran (L l). now < d)
       | Some t \<Rightarrow> \<exists>d. L l t = Some d \<and> d \<le> now \<and> least (ran (L l)) = Some d \<and> levels_inv lv' ls' (L(l := (L l)(t := None)))"
      using levels_pop_inv [OF inv l, of now] by blast
    have "(r = None \<longleftrightarrow> due (L l) now = {}) \<and> (\<forall>u. r = Some u \<longrightarrow> u \<in> due (L l) now \<and> L l u = Some (Min (ran (L l))))"
      using r by (cases r) (auto simp: due_def least_def ran_def split: if_splits)
    then show "settle lv ls l \<noteq> None \<and> (\<exists>r lv' ls'. levels_pop_expired lv ls l now = Some (r, lv', ls')
        \<and> (r = None \<longleftrightarrow> due (L l) now = {})
        \<and> (\<forall>u. r = Some u \<longrightarrow> u \<in> due (L l) now \<and> L l u = Some (Min (ran (L l)))))"
      using settle_inv [OF inv l] pop by auto
  qed
qed

text \<open>
  C34. After any calls on the levels of timers that put a timer in only while it is out and take it out
  only where it is, the nearest deadline kept ready is the least deadline of the timers at the levels that
  are not pending, but for the last instant, which it does not tell from no deadline; the interrupt at
  \<open>now\<close> makes exactly the levels pending that were not and have a timer whose deadline is not after
  \<open>now\<close>; and every call with a level of 1 to 63 returns, a pop with a timer of the level that is due first
  and with nothing exactly when none is due.
\<close>

theorem timer_levels_exact:
  assumes "levels_reach lv ls L P"
  shows "levels_nearest lv = (if awaited L P = {} \<or> Min (awaited L P) = - 1 then None else Some (Min (awaited L P)))
    \<and> (\<exists>m lv'. levels_expired lv ls now = Some (m, lv') \<and> (\<forall>l. bit m l \<longleftrightarrow> l \<notin> P \<and> due (L l) now \<noteq> {}))
    \<and> (\<forall>l t d. 1 \<le> l \<and> l \<le> 63 \<and> (\<forall>m. t \<notin> dom (L m)) \<longrightarrow> levels_insert lv ls l t d \<noteq> None)
    \<and> (\<forall>l t. t \<in> dom (L l) \<longrightarrow> levels_remove lv ls l t \<noteq> None)
    \<and> (\<forall>l. 1 \<le> l \<and> l \<le> 63 \<longrightarrow> settle lv ls l \<noteq> None
         \<and> (\<exists>r lv' ls'. levels_pop_expired lv ls l now = Some (r, lv', ls')
           \<and> (r = None \<longleftrightarrow> due (L l) now = {})
           \<and> (\<forall>u. r = Some u \<longrightarrow> u \<in> due (L l) now \<and> L l u = Some (Min (ran (L l))))))"
  by (intro conjI allI, rule timer_levels_law(1) [OF assms], rule timer_levels_law(2) [OF assms],
      rule timer_levels_law(3) [OF assms], rule timer_levels_law(4) [OF assms], rule timer_levels_law(5) [OF assms])

section \<open>The firing of a level\<close>







abbreviation example_timers :: "nat \<Rightarrow> nat \<Rightarrow> u64 option" where
  "example_timers \<equiv> (\<lambda>_. Map.empty)(3 := [4 \<mapsto> 5, 2 \<mapsto> 4])"

lemma levels_example: "\<exists>lv ls. levels_reach lv ls example_timers {}"
proof -
  let ?ls = "\<lambda>_. heap_link_new :: nat heap_link" and ?L = "(\<lambda>_. Map.empty)(3 := [4 \<mapsto> 5]) :: nat \<Rightarrow> nat \<Rightarrow> u64 option"
  have r0: "levels_reach levels_new ?ls (\<lambda>_. Map.empty) {}"
    by (rule reach_new) (simp add: heap_link_new_def)
  have inv0: "levels_inv levels_new ?ls (\<lambda>_. Map.empty)"
    using levels_reach_inv [OF r0] by blast
  have l: "(1::nat) \<le> 3" "3 \<le> LEVELS"
    by (simp_all add: LEVELS_def)
  have out: "(4::nat) \<notin> dom Map.empty" "2 \<notin> dom (?L m)" for m
    by simp_all
  obtain lv1 ls1 where i1: "levels_insert levels_new ?ls 3 4 5 = Some (lv1, ls1)"
    using levels_insert_inv [OF inv0 l out(1)] by blast
  have r1: "levels_reach lv1 ls1 ?L {}"
    by (rule reach_insert [OF r0 out(1) i1])
  have inv1: "levels_inv lv1 ls1 ?L"
    using levels_reach_inv [OF r1] by blast
  obtain lv2 ls2 where i2: "levels_insert lv1 ls1 3 2 4 = Some (lv2, ls2)"
    using levels_insert_inv [OF inv1 l out(2)] by blast
  show ?thesis
    using reach_insert [OF r1 out(2) i2] unfolding fun_upd_same fun_upd_upd by blast
qed


theorem timer_levels_exact_witness:
  "\<exists>lv ls. levels_reach lv ls example_timers {}
    \<and> levels_nearest lv = Some 4 \<and> (\<exists>lv'. levels_expired lv ls 4 = Some (8, lv'))
    \<and> levels_insert lv ls 63 7 9 \<noteq> None \<and> levels_remove lv ls 3 4 \<noteq> None
    \<and> (\<exists>lv' ls'. levels_pop_expired lv ls 3 4 = Some (Some 2, lv', ls'))"
proof -
  obtain lv ls where r: "levels_reach lv ls example_timers {}"
    using levels_example by blast
  have S: "awaited example_timers {} = {5, 4}"
  proof -
    have "ran [4 \<mapsto> 5, (2::nat) \<mapsto> (4::u64)] = {5, 4}"
      by (simp add: ran_map_upd insert_commute)
    then have "ran (example_timers l) = (if l = 3 then {5, 4} else {})" for l
      by simp
    then show ?thesis
      by (auto simp: awaited_def)
  qed
  note w = timer_levels_exact [OF r, of 4, THEN conjunct1] timer_levels_exact [OF r, of 4, THEN conjunct2]
  have due: "due (example_timers l) 4 = (if l = 3 then {2} else {})" for l
    by (auto simp: due_def split: if_splits)
  have near: "levels_nearest lv = Some 4"
    using w(1) unfolding S by simp
  obtain m lv' where m: "levels_expired lv ls 4 = Some (m, lv')" "\<forall>l. bit m l \<longleftrightarrow> l = 3"
    using w(2) unfolding due by auto
  have "m = push_bit 3 1"
    by (rule bit_eqI) (simp only: m(2) bit_push_bit_iff bit_1_iff, auto)
  then have exp: "levels_expired lv ls 4 = Some (8, lv')"
    using m(1) by simp
  have "\<forall>m. (7::nat) \<notin> dom (example_timers m)" "4 \<in> dom (example_timers 3)"
    by simp_all
  then have ins: "levels_insert lv ls 63 7 9 \<noteq> None" "levels_remove lv ls 3 4 \<noteq> None"
    using w(2) by (simp_all del: fun_upd_apply)
  have "(1::nat) \<le> 3 \<and> (3::nat) \<le> 63"
    by simp
  then have "\<exists>r lv' ls'. levels_pop_expired lv ls 3 4 = Some (r, lv', ls') \<and> (r = None \<longleftrightarrow> due (example_timers 3) 4 = {})
      \<and> (\<forall>u. r = Some u \<longrightarrow> u \<in> due (example_timers 3) 4)"
    using w(2) by blast
  then have "\<exists>lv' ls'. levels_pop_expired lv ls 3 4 = Some (Some 2, lv', ls')"
    unfolding due by auto
  then show ?thesis
    using r near exp ins by blast
qed

end
