(* ===== verification/Frames.thy ===== *)
theory Frames
  imports Abi
begin

text \<open>
  The physical page allocator of \<open>kcore/src/frames.rs\<close>: a binary buddy system whose free blocks form
  doubly linked lists through the free memory.

  Memory is a function from addresses to words, as the contract of \<open>PhysMem\<close> has it: a read gives the last
  word written. Frame numbers and addresses are natural numbers: a frame number is an address shifted right
  by 12 or one below the end of the metadata, so no sum of the code reaches \<open>2 ^ 64\<close>, and \<open>NIL\<close> is no frame.
\<close>

unbundle bit_operations_syntax

section \<open>State\<close>

definition MAX_ORDER :: nat where
  "MAX_ORDER = 10"

definition ORDERS :: nat where
  "ORDERS = MAX_ORDER + 1"

definition frame_NIL :: nat where
  "frame_NIL = 2 ^ 64 - 1"

definition NOT_FREE :: nat where
  "NOT_FREE = 0"

definition ALLOCATED :: nat where
  "ALLOCATED = 0x80"

record frame_allocator =
  fa_mem :: "nat \<Rightarrow> nat"
  fa_base_pfn :: nat
  fa_meta :: "nat list"
  fa_heads :: "nat list"
  fa_free_frames :: nat

definition frames_new :: "(nat \<Rightarrow> nat) \<Rightarrow> nat \<Rightarrow> nat list \<Rightarrow> frame_allocator option" where
  "frames_new mem base meta = do {
     ensure (base mod 2 ^ PAGE_SHIFT = 0);
     Some \<lparr>fa_mem = mem, fa_base_pfn = base div 2 ^ PAGE_SHIFT, fa_meta = replicate (length meta) NOT_FREE,
       fa_heads = replicate ORDERS frame_NIL, fa_free_frames = 0\<rparr> }"

definition meta_bytes :: "nat \<Rightarrow> nat" where
  "meta_bytes span = (span + 2 ^ PAGE_SHIFT - 1) div 2 ^ PAGE_SHIFT"

definition mem_write :: "frame_allocator \<Rightarrow> nat \<Rightarrow> nat \<Rightarrow> frame_allocator" where
  "mem_write fa pa v = fa\<lparr>fa_mem := (fa_mem fa)(pa := v)\<rparr>"

section \<open>Metadata\<close>

text \<open>A frame below the base is an index out of range.\<close>

definition meta_at :: "frame_allocator \<Rightarrow> nat \<Rightarrow> nat option" where
  "meta_at fa pfn = do {
     ensure (fa_base_pfn fa \<le> pfn);
     at_index (fa_meta fa) (pfn - fa_base_pfn fa) }"

definition set_meta :: "frame_allocator \<Rightarrow> nat \<Rightarrow> nat \<Rightarrow> frame_allocator option" where
  "set_meta fa pfn v = do {
     ensure (fa_base_pfn fa \<le> pfn);
     meta \<leftarrow> set_index (fa_meta fa) (pfn - fa_base_pfn fa) v;
     Some (fa\<lparr>fa_meta := meta\<rparr>) }"

definition frame_in_range :: "frame_allocator \<Rightarrow> nat \<Rightarrow> nat \<Rightarrow> bool" where
  "frame_in_range fa pfn order \<longleftrightarrow> fa_base_pfn fa \<le> pfn \<and> pfn + 2 ^ order \<le> fa_base_pfn fa + length (fa_meta fa)"

text \<open>\<open>any\<close> over the orders: the frame rounded down to each order, until one has a byte that fits.\<close>

fun any_head :: "frame_allocator \<Rightarrow> nat \<Rightarrow> (nat \<Rightarrow> nat \<Rightarrow> bool) \<Rightarrow> nat list \<Rightarrow> bool option" where
  "any_head fa pfn fits [] = Some False"
| "any_head fa pfn fits (o' # os) = do {
     let head = pfn div 2 ^ o' * 2 ^ o';
     found \<leftarrow> (if fa_base_pfn fa \<le> head then do { b \<leftarrow> meta_at fa head; Some (fits o' b) } else Some False);
     if found then Some True else any_head fa pfn fits os }"

definition in_free_block :: "frame_allocator \<Rightarrow> nat \<Rightarrow> bool option" where
  "in_free_block fa pfn = any_head fa pfn (\<lambda>o' b. b = o' + 1) [0..<ORDERS]"

definition overlaps_a_block :: "frame_allocator \<Rightarrow> nat \<Rightarrow> nat \<Rightarrow> bool option" where
  "overlaps_a_block fa pfn order = do {
     covers_pfn \<leftarrow> any_head fa pfn (\<lambda>o' b. b = o' + 1 \<or> b = ALLOCATED OR o') [0..<ORDERS];
     ensure (fa_base_pfn fa \<le> pfn);
     let start = pfn - fa_base_pfn fa;
     if covers_pfn then Some True
     else do {
       ensure (start + 2 ^ order \<le> length (fa_meta fa));
       Some (\<exists>b\<in>set (take (2 ^ order) (drop start (fa_meta fa))). b \<noteq> NOT_FREE) } }"

section \<open>Free lists\<close>

text \<open>A free block starts with its links: the next block at offset 0, the previous one at offset 8.\<close>

definition frame_push :: "frame_allocator \<Rightarrow> nat \<Rightarrow> nat \<Rightarrow> frame_allocator option" where
  "frame_push fa pfn order = do {
     head \<leftarrow> at_index (fa_heads fa) order;
     let fa = mem_write fa (pfn * 2 ^ PAGE_SHIFT) head;
     let fa = mem_write fa (pfn * 2 ^ PAGE_SHIFT + 8) frame_NIL;
     let fa = (if head \<noteq> frame_NIL then mem_write fa (head * 2 ^ PAGE_SHIFT + 8) pfn else fa);
     heads \<leftarrow> set_index (fa_heads fa) order pfn;
     set_meta (fa\<lparr>fa_heads := heads\<rparr>) pfn (order + 1) }"

definition frame_unlink :: "frame_allocator \<Rightarrow> nat \<Rightarrow> nat \<Rightarrow> frame_allocator option" where
  "frame_unlink fa pfn order = do {
     let nxt = fa_mem fa (pfn * 2 ^ PAGE_SHIFT);
     let prv = fa_mem fa (pfn * 2 ^ PAGE_SHIFT + 8);
     fa \<leftarrow> (if prv = frame_NIL then do {
              heads \<leftarrow> set_index (fa_heads fa) order nxt;
              Some (fa\<lparr>fa_heads := heads\<rparr>) }
            else Some (mem_write fa (prv * 2 ^ PAGE_SHIFT) nxt));
     let fa = (if nxt \<noteq> frame_NIL then mem_write fa (nxt * 2 ^ PAGE_SHIFT + 8) prv else fa);
     set_meta fa pfn NOT_FREE }"

section \<open>Calls\<close>

text \<open>The search of \<open>alloc\<close> for the least order that has a free block.\<close>

function alloc_order :: "nat list \<Rightarrow> nat \<Rightarrow> nat option option" where
  "alloc_order heads o' = do {
     head \<leftarrow> at_index heads o';
     if head = frame_NIL then
       if o' = MAX_ORDER then Some None else alloc_order heads (o' + 1)
     else Some (Some o') }"
  by pat_completeness auto
termination
  by (relation "measure (\<lambda>(heads, o'). length heads - o')") (auto simp: stop_simps)

declare alloc_order.simps [simp del]

text \<open>The halves a larger block leaves as \<open>alloc\<close> splits it down to its order.\<close>

fun frame_split :: "frame_allocator \<Rightarrow> nat \<Rightarrow> nat \<Rightarrow> nat \<Rightarrow> frame_allocator option" where
  "frame_split fa pfn order o' =
     (if order < o' then do {
        fa \<leftarrow> frame_push fa (pfn + 2 ^ (o' - 1)) (o' - 1);
        frame_split fa pfn order (o' - 1) }
      else Some fa)"

declare frame_split.simps [simp del]

definition frame_alloc :: "frame_allocator \<Rightarrow> nat \<Rightarrow> (nat option \<times> frame_allocator) option" where
  "frame_alloc fa order =
     (if order > MAX_ORDER then Some (None, fa)
      else do {
        found \<leftarrow> alloc_order (fa_heads fa) order;
        (case found of
           None \<Rightarrow> Some (None, fa)
         | Some o' \<Rightarrow> do {
             pfn \<leftarrow> at_index (fa_heads fa) o';
             fa \<leftarrow> frame_unlink fa pfn o';
             fa \<leftarrow> frame_split fa pfn order o';
             fa \<leftarrow> set_meta fa pfn (ALLOCATED OR order);
             Some (Some (pfn * 2 ^ PAGE_SHIFT), fa\<lparr>fa_free_frames := fa_free_frames fa - 2 ^ order\<rparr>) }) })"

text \<open>The merge of \<open>free_block\<close> with free buddies.\<close>

function frame_merge :: "frame_allocator \<Rightarrow> nat \<Rightarrow> nat \<Rightarrow> (nat \<times> nat \<times> frame_allocator) option" where
  "frame_merge fa pfn order =
     (if order < MAX_ORDER then do {
        let buddy = pfn XOR 2 ^ order;
        free \<leftarrow> (if frame_in_range fa buddy order then do { b \<leftarrow> meta_at fa buddy; Some (b = order + 1) } else Some False);
        if free then do {
          fa \<leftarrow> frame_unlink fa buddy order;
          frame_merge fa (min pfn buddy) (order + 1) }
        else Some (pfn, order, fa) }
      else Some (pfn, order, fa))"
  by pat_completeness auto
termination
  by (relation "measure (\<lambda>(_, _, order). MAX_ORDER - order)") auto

declare frame_merge.simps [simp del]

definition free_block :: "frame_allocator \<Rightarrow> nat \<Rightarrow> nat \<Rightarrow> frame_allocator option" where
  "free_block fa pfn order = do {
     twice \<leftarrow> in_free_block fa pfn;
     ensure (\<not> twice);
     let fa = fa\<lparr>fa_free_frames := fa_free_frames fa + 2 ^ order\<rparr>;
     (pfn, order, fa) \<leftarrow> frame_merge fa pfn order;
     frame_push fa pfn order }"

definition frame_free :: "frame_allocator \<Rightarrow> nat \<Rightarrow> nat \<Rightarrow> frame_allocator option" where
  "frame_free fa pa order = do {
     ensure (order \<le> MAX_ORDER);
     ensure (pa mod (2 ^ PAGE_SHIFT * 2 ^ order) = 0);
     let pfn = pa div 2 ^ PAGE_SHIFT;
     ensure (frame_in_range fa pfn order);
     b \<leftarrow> meta_at fa pfn;
     ensure (b = ALLOCATED OR order);
     fa \<leftarrow> set_meta fa pfn NOT_FREE;
     free_block fa pfn order }"

text \<open>The largest order of a block of \<open>add_region\<close> that starts at \<open>pfn\<close>.\<close>

fun region_order :: "nat \<Rightarrow> nat \<Rightarrow> nat \<Rightarrow> nat" where
  "region_order pfn limit order =
     (if 0 < order \<and> (pfn mod 2 ^ order \<noteq> 0 \<or> pfn + 2 ^ order > limit) then region_order pfn limit (order - 1) else order)"

declare region_order.simps [simp del]

function add_frames :: "frame_allocator \<Rightarrow> nat \<Rightarrow> nat \<Rightarrow> frame_allocator option" where
  "add_frames fa pfn limit =
     (if pfn < limit then do {
        let order = region_order pfn limit MAX_ORDER;
        twice \<leftarrow> overlaps_a_block fa pfn order;
        ensure (\<not> twice);
        fa \<leftarrow> free_block fa pfn order;
        add_frames fa (pfn + 2 ^ order) limit }
      else Some fa)"
  by pat_completeness auto
termination
  by (relation "measure (\<lambda>(_, pfn, limit). limit - pfn)") (auto intro: diff_less_mono2)

declare add_frames.simps [simp del]

definition add_region :: "frame_allocator \<Rightarrow> nat \<Rightarrow> nat \<Rightarrow> frame_allocator option" where
  "add_region fa base limit =
     (let first = (base + 2 ^ PAGE_SHIFT - 1) div 2 ^ PAGE_SHIFT;
          final = limit div 2 ^ PAGE_SHIFT in
      if first \<ge> final then Some fa
      else do {
        ensure (first \<ge> fa_base_pfn fa \<and> final \<le> fa_base_pfn fa + length (fa_meta fa));
        add_frames fa first final })"

end
