(* ===== verification/Frame_Lists.thy ===== *)
theory Frame_Lists
  imports Frames
begin

text \<open>
  The free lists of the page allocator: blocks linked both ways through memory, a list for each order,
  that hold exactly the blocks whose metadata byte says so. \<open>push\<close> and \<open>unlink\<close> keep that.
\<close>

unbundle bit_operations_syntax

section \<open>Lists through memory\<close>

abbreviation page :: nat where
  "page \<equiv> 2 ^ PAGE_SHIFT"

lemma page_cells:
  "x * page = y * page \<longleftrightarrow> x = (y :: nat)" "x * page + 8 = y * page + 8 \<longleftrightarrow> x = y"
  "x * page \<noteq> y * page + 8" "y * page + 8 \<noteq> x * page"
proof -
  have "(x * page) mod page \<noteq> (y * page + 8) mod page" for x y :: nat
    by (simp add: PAGE_SHIFT_def)
  then show "x * page \<noteq> y * page + 8" "y * page + 8 \<noteq> x * page"
    by metis+
qed (simp_all add: PAGE_SHIFT_def)

definition hd_or :: "nat list \<Rightarrow> nat \<Rightarrow> nat" where
  "hd_or xs q = (case xs of [] \<Rightarrow> q | x # _ \<Rightarrow> x)"

definition last_or :: "nat list \<Rightarrow> nat \<Rightarrow> nat" where
  "last_or xs p = (if xs = [] then p else last xs)"

lemma hd_or_simps [simp]: "hd_or [] q = q" "hd_or (x # xs) q = x"
  and last_or_simps [simp]: "last_or [] p = p" "last_or (x # xs) p = last_or xs x"
  by (simp_all add: hd_or_def last_or_def)

text \<open>The blocks \<open>xs\<close> linked both ways, between \<open>p\<close> before and \<open>q\<close> after them.\<close>

fun seg :: "(nat \<Rightarrow> nat) \<Rightarrow> nat \<Rightarrow> nat list \<Rightarrow> nat \<Rightarrow> bool" where
  "seg mem p [] q \<longleftrightarrow> True"
| "seg mem p (x # xs) q \<longleftrightarrow> mem (x * page) = hd_or xs q \<and> mem (x * page + 8) = p \<and> seg mem x xs q"

lemma seg_append: "seg mem p (as @ bs) q \<longleftrightarrow> seg mem p as (hd_or bs q) \<and> seg mem (last_or as p) bs q"
proof (induction as arbitrary: p)
  case (Cons x as)
  then show ?case
    by (cases as) auto
qed simp

lemma seg_cong:
  assumes "seg mem p xs q" and "\<And>x. x \<in> set xs \<Longrightarrow> mem' (x * page) = mem (x * page) \<and> mem' (x * page + 8) = mem (x * page + 8)"
  shows "seg mem' p xs q"
  using assms by (induction xs arbitrary: p) auto

lemma seg_next:
  assumes "seg mem p xs q" and "xs \<noteq> []" and "distinct xs"
  shows "seg (mem(last xs * page := q')) p xs q'"
  using assms
proof (induction xs arbitrary: p)
  case (Cons x xs)
  show ?case
  proof (cases "xs = []")
    case False
    then have "last xs \<noteq> x" "hd_or xs q' = hd_or xs q"
      using Cons.prems(3) by (auto simp: hd_or_def split: list.splits)
    then show ?thesis
      using Cons False by (simp add: page_cells)
  qed (use Cons in \<open>simp add: page_cells\<close>)
qed simp

lemma seg_prev:
  assumes "seg mem p xs q" and "xs \<noteq> []" and "distinct xs"
  shows "seg (mem(hd xs * page + 8 := p')) p' xs q"
proof (cases xs)
  case (Cons x ys)
  then have "seg mem x ys q" "x \<notin> set ys"
    using assms by auto
  then have "seg (mem(x * page + 8 := p')) x ys q"
    by (elim seg_cong) (auto simp: page_cells)
  then show ?thesis
    using assms Cons by (simp add: page_cells)
qed (use assms in simp)

text \<open>A block put at the head, and one taken out.\<close>

lemma seg_push:
  assumes "seg mem frame_NIL xs frame_NIL" and "distinct xs" and "p \<notin> set xs" and "xs \<noteq> [] \<Longrightarrow> hd xs \<noteq> frame_NIL"
  defines "mem1 \<equiv> mem(p * page := hd_or xs frame_NIL, p * page + 8 := frame_NIL)"
  shows "seg (if hd_or xs frame_NIL \<noteq> frame_NIL then mem1(hd_or xs frame_NIL * page + 8 := p) else mem1) frame_NIL (p # xs) frame_NIL"
proof -
  have s: "seg mem1 frame_NIL xs frame_NIL"
    unfolding mem1_def by (rule seg_cong [OF assms(1)]) (use assms(3) in \<open>auto simp: page_cells\<close>)
  show ?thesis
  proof (cases xs)
    case Nil
    then show ?thesis
      by (simp add: mem1_def page_cells)
  next
    case (Cons x ys)
    then have "x \<noteq> frame_NIL" "x \<noteq> p"
      using assms(3,4) by auto
    then show ?thesis
      using seg_prev [OF s, of p] assms(2) Cons by (simp add: mem1_def page_cells)
  qed
qed

lemma seg_unlink:
  assumes s: "seg mem frame_NIL (as @ x # bs) frame_NIL" and d: "distinct (as @ x # bs)" and "frame_NIL \<notin> set (as @ x # bs)"
  defines "nxt \<equiv> mem (x * page)" and "prv \<equiv> mem (x * page + 8)"
  defines "mem1 \<equiv> (if prv = frame_NIL then mem else mem(prv * page := nxt))"
  defines "mem2 \<equiv> (if nxt \<noteq> frame_NIL then mem1(nxt * page + 8 := prv) else mem1)"
  shows "seg mem2 frame_NIL (as @ bs) frame_NIL" and "prv = frame_NIL \<longleftrightarrow> as = []" and "nxt = hd_or bs frame_NIL"
    and "\<And>y. y \<notin> set (as @ bs) \<Longrightarrow> mem2 (y * page) = mem (y * page) \<and> mem2 (y * page + 8) = mem (y * page + 8)"
proof -
  have a: "seg mem frame_NIL as x" and b: "seg mem x bs frame_NIL" and n: "nxt = hd_or bs frame_NIL" and p: "prv = last_or as frame_NIL"
    using s by (auto simp: seg_append nxt_def prv_def)
  show "nxt = hd_or bs frame_NIL"
    by (rule n)
  show pn: "prv = frame_NIL \<longleftrightarrow> as = []"
  proof (cases "as = []")
    case False
    have "last as \<noteq> frame_NIL"
      using last_in_set [OF False] assms(3) by (metis UnI1 set_append)
    then show ?thesis
      using p False by (simp add: last_or_def)
  qed (use p in simp)
  have nn: "nxt = frame_NIL \<longleftrightarrow> bs = []"
    using n assms(3) by (cases bs) auto
  have pe: "as \<noteq> [] \<Longrightarrow> prv = last as" "as \<noteq> [] \<Longrightarrow> prv \<in> set as"
    using p by (simp_all add: last_or_def)
  have ne: "bs \<noteq> [] \<Longrightarrow> nxt = hd bs" "bs \<noteq> [] \<Longrightarrow> nxt \<in> set bs"
    using n by (auto simp: hd_or_def split: list.splits)
  have m1: "mem1 = (if as = [] then mem else mem(prv * page := nxt))" and m2: "mem2 = (if bs = [] then mem1 else mem1(nxt * page + 8 := prv))"
    by (simp_all add: mem1_def mem2_def pn nn)
  have far1: "mem1 (y * page) = mem (y * page)" if "as \<noteq> [] \<Longrightarrow> y \<noteq> prv" for y
    using that by (simp add: m1 page_cells)
  have far2: "mem2 (y * page + 8) = mem1 (y * page + 8)" if "bs \<noteq> [] \<Longrightarrow> y \<noteq> nxt" for y
    using that by (simp add: m2 page_cells)
  have cells: "mem1 (y * page + 8) = mem (y * page + 8)" "mem2 (y * page) = mem1 (y * page)" for y
    by (simp_all add: m1 m2 page_cells)
  show "mem2 (y * page) = mem (y * page) \<and> mem2 (y * page + 8) = mem (y * page + 8)" if "y \<notin> set (as @ bs)" for y
    using that pe(2) ne(2) far1 [of y] far2 [of y] cells by auto
  have a1: "seg mem1 frame_NIL as nxt"
    using seg_next [OF a _ , of nxt] d pe(1) by (cases "as = []") (simp_all add: m1)
  have b1: "seg mem1 x bs frame_NIL"
  proof (rule seg_cong [OF b])
    fix y assume "y \<in> set bs"
    then have "as \<noteq> [] \<Longrightarrow> y \<noteq> prv"
      using d pe(2) by auto
    then show "mem1 (y * page) = mem (y * page) \<and> mem1 (y * page + 8) = mem (y * page + 8)"
      using far1 cells by blast
  qed
  have a2: "seg mem2 frame_NIL as nxt"
  proof (rule seg_cong [OF a1])
    fix y assume "y \<in> set as"
    then have "bs \<noteq> [] \<Longrightarrow> y \<noteq> nxt"
      using d ne(2) by auto
    then show "mem2 (y * page) = mem1 (y * page) \<and> mem2 (y * page + 8) = mem1 (y * page + 8)"
      using far2 cells by blast
  qed
  have b2: "seg mem2 prv bs frame_NIL"
    using seg_prev [OF b1, of prv] d ne(1) by (cases "bs = []") (simp_all add: m2)
  show "seg mem2 frame_NIL (as @ bs) frame_NIL"
    using a2 b2 by (simp add: seg_append n p)
qed

section \<open>The free lists\<close>

definition fa_limit :: "frame_allocator \<Rightarrow> nat" where
  "fa_limit fa = fa_base_pfn fa + length (fa_meta fa)"

text \<open>The metadata byte of every frame, 0 outside the allocator.\<close>

definition bytes :: "frame_allocator \<Rightarrow> nat \<Rightarrow> nat" where
  "bytes fa p = (if fa_base_pfn fa \<le> p \<and> p < fa_limit fa then fa_meta fa ! (p - fa_base_pfn fa) else 0)"

text \<open>
  The free lists stand for the bytes: the list of each order is linked through memory and holds the
  blocks whose byte is that of a free block of the order.
\<close>

definition fa_lists :: "frame_allocator \<Rightarrow> (nat \<Rightarrow> nat list) \<Rightarrow> bool" where
  "fa_lists fa ls \<longleftrightarrow> length (fa_heads fa) = ORDERS \<and> fa_limit fa \<le> frame_NIL \<and>
     (\<forall>k\<le>MAX_ORDER. fa_heads fa ! k = hd_or (ls k) frame_NIL \<and> seg (fa_mem fa) frame_NIL (ls k) frame_NIL
        \<and> distinct (ls k) \<and> set (ls k) = {p. bytes fa p = k + 1})"

definition fa_ok :: "frame_allocator \<Rightarrow> bool" where
  "fa_ok fa \<longleftrightarrow> (\<exists>ls. fa_lists fa ls)"

lemma bytes_in_range: "bytes fa p \<noteq> 0 \<Longrightarrow> fa_base_pfn fa \<le> p \<and> p < fa_limit fa"
  by (auto simp: bytes_def split: if_splits)

lemma meta_at_bytes: "meta_at fa p = (if fa_base_pfn fa \<le> p \<and> p < fa_limit fa then Some (bytes fa p) else None)"
  by (auto simp: meta_at_def bytes_def fa_limit_def at_index_def)

lemma set_meta_bytes:
  assumes "fa_base_pfn fa \<le> p" and "p < fa_limit fa"
  shows "\<exists>meta. set_meta fa p v = Some (fa\<lparr>fa_meta := meta\<rparr>) \<and> length meta = length (fa_meta fa)
    \<and> bytes (fa\<lparr>fa_meta := meta\<rparr>) = (bytes fa)(p := v)"
  using assms by (auto simp: set_meta_def bytes_def fa_limit_def nth_list_update fun_eq_iff)

lemma fa_lists_nodes:
  assumes "fa_lists fa ls" and "k \<le> MAX_ORDER" and "p \<in> set (ls k)"
  shows "fa_base_pfn fa \<le> p" "p < fa_limit fa" "p \<noteq> frame_NIL" "bytes fa p = k + 1"
  using assms bytes_in_range [of fa p] by (auto simp: fa_lists_def)

text \<open>Two allocators that differ in their memory, lists, bytes and count only.\<close>

definition same_span :: "frame_allocator \<Rightarrow> frame_allocator \<Rightarrow> bool" where
  "same_span fa fa' \<longleftrightarrow> fa_base_pfn fa' = fa_base_pfn fa \<and> fa_limit fa' = fa_limit fa"

lemma same_span_refl [simp]: "same_span fa fa"
  and same_span_trans [trans]: "same_span a b \<Longrightarrow> same_span b c \<Longrightarrow> same_span a c"
  by (auto simp: same_span_def)

lemma frame_push_ok:
  assumes ok: "fa_ok fa" and k: "k \<le> MAX_ORDER" and p: "fa_base_pfn fa \<le> p" "p < fa_limit fa" "bytes fa p = 0 \<or> bytes fa p > ORDERS"
  shows "\<exists>fa'. frame_push fa p k = Some fa' \<and> fa_ok fa' \<and> bytes fa' = (bytes fa)(p := k + 1) \<and> same_span fa fa'
    \<and> fa_free_frames fa' = fa_free_frames fa"
proof -
  obtain ls where ls: "fa_lists fa ls"
    using ok by (auto simp: fa_ok_def)
  have out: "p \<notin> set (ls j)" if "j \<le> MAX_ORDER" for j
    using fa_lists_nodes(4) [OF ls that, of p] p(3) that by (auto simp: ORDERS_def)
  note L = ls [unfolded fa_lists_def]
  let ?head = "hd_or (ls k) frame_NIL"
  define mem1 where "mem1 = (fa_mem fa)(p * page := ?head, p * page + 8 := frame_NIL)"
  define mem2 where "mem2 = (if ?head \<noteq> frame_NIL then mem1(?head * page + 8 := p) else mem1)"
  have head: "?head \<noteq> frame_NIL \<Longrightarrow> ?head \<in> set (ls k)"
    by (auto simp: hd_or_def split: list.splits)
  have sk: "seg mem2 frame_NIL (p # ls k) frame_NIL"
    unfolding mem2_def mem1_def
  proof (rule seg_push)
    show "hd (ls k) \<noteq> frame_NIL" if "ls k \<noteq> []"
      using fa_lists_nodes(3) [OF ls k] hd_in_set [OF that] by blast
  qed (use L k out [OF k] in auto)
  have sj: "seg mem2 frame_NIL (ls j) frame_NIL" if "j \<le> MAX_ORDER" "j \<noteq> k" for j
  proof (rule seg_cong [of "fa_mem fa"])
    show "seg (fa_mem fa) frame_NIL (ls j) frame_NIL"
      using L that by blast
    show "mem2 (x * page) = fa_mem fa (x * page) \<and> mem2 (x * page + 8) = fa_mem fa (x * page + 8)" if x: "x \<in> set (ls j)" for x
    proof -
      have "x \<noteq> p" "?head \<noteq> frame_NIL \<Longrightarrow> x \<noteq> ?head"
        using out x that head L k \<open>j \<le> MAX_ORDER\<close> \<open>j \<noteq> k\<close> by auto
      then show ?thesis
        by (auto simp: mem2_def mem1_def page_cells)
    qed
  qed
  let ?fa = "fa\<lparr>fa_mem := mem2, fa_heads := (fa_heads fa)[k := p]\<rparr>"
  have "fa_base_pfn ?fa \<le> p" "p < fa_limit ?fa"
    using p by (simp_all add: fa_limit_def)
  from set_meta_bytes [OF this, of "k + 1"] obtain meta where m: "set_meta ?fa p (k + 1) = Some (?fa\<lparr>fa_meta := meta\<rparr>)"
    "length meta = length (fa_meta fa)" "bytes (?fa\<lparr>fa_meta := meta\<rparr>) = (bytes ?fa)(p := k + 1)"
    by auto
  have "bytes ?fa = bytes fa"
    by (simp add: bytes_def fa_limit_def fun_eq_iff)
  then have b: "bytes (?fa\<lparr>fa_meta := meta\<rparr>) = (bytes fa)(p := k + 1)"
    using m(3) by simp
  have heads: "at_index (fa_heads fa) k = Some ?head" "k < length (fa_heads fa)"
    using L k by (auto simp: ORDERS_def)
  have "frame_push fa p k = set_meta ?fa p (k + 1)"
    using heads by (cases "?head = frame_NIL") (simp_all add: frame_push_def mem_write_def mem1_def mem2_def Let_def)
  then have "frame_push fa p k = Some (?fa\<lparr>fa_meta := meta\<rparr>)"
    using m(1) by simp
  moreover have "fa_lists (?fa\<lparr>fa_meta := meta\<rparr>) (ls(k := p # ls k))"
    unfolding fa_lists_def b using L k sk sj out m(2) by (auto simp: fa_limit_def ORDERS_def nth_list_update)
  moreover have "same_span fa (?fa\<lparr>fa_meta := meta\<rparr>)"
    using m(2) by (simp add: same_span_def fa_limit_def)
  ultimately show ?thesis
    using b unfolding fa_ok_def by (intro exI [of _ "?fa\<lparr>fa_meta := meta\<rparr>"]) auto
qed

lemma frame_unlink_ok:
  assumes ok: "fa_ok fa" and k: "k \<le> MAX_ORDER" and p: "bytes fa p = k + 1"
  shows "\<exists>fa'. frame_unlink fa p k = Some fa' \<and> fa_ok fa' \<and> bytes fa' = (bytes fa)(p := 0) \<and> same_span fa fa'
    \<and> fa_free_frames fa' = fa_free_frames fa"
proof -
  obtain ls where ls: "fa_lists fa ls"
    using ok by (auto simp: fa_ok_def)
  note L = ls [unfolded fa_lists_def]
  have "p \<in> set (ls k)"
    using L k p by simp
  then obtain as bs where split: "ls k = as @ p # bs"
    by (auto simp: in_set_conv_decomp)
  have d: "distinct (as @ p # bs)" and s: "seg (fa_mem fa) frame_NIL (as @ p # bs) frame_NIL" and nil: "frame_NIL \<notin> set (as @ p # bs)"
    using L k fa_lists_nodes(3) [OF ls k] by (auto simp flip: split)
  define nxt where "nxt = fa_mem fa (p * page)"
  define prv where "prv = fa_mem fa (p * page + 8)"
  define mem1 where "mem1 = (if prv = frame_NIL then fa_mem fa else (fa_mem fa)(prv * page := nxt))"
  define mem2 where "mem2 = (if nxt \<noteq> frame_NIL then mem1(nxt * page + 8 := prv) else mem1)"
  note un = seg_unlink [OF s d nil, folded nxt_def prv_def, folded mem1_def, folded mem2_def]
  let ?heads = "if as = [] then (fa_heads fa)[k := nxt] else fa_heads fa"
  let ?fa = "fa\<lparr>fa_mem := mem2, fa_heads := ?heads\<rparr>"
  have range: "fa_base_pfn ?fa \<le> p" "p < fa_limit ?fa"
    using bytes_in_range [of fa p] p by (auto simp: fa_limit_def)
  from set_meta_bytes [OF this, of NOT_FREE] obtain meta where m: "set_meta ?fa p NOT_FREE = Some (?fa\<lparr>fa_meta := meta\<rparr>)"
    "length meta = length (fa_meta fa)" "bytes (?fa\<lparr>fa_meta := meta\<rparr>) = (bytes ?fa)(p := NOT_FREE)"
    by auto
  have "bytes ?fa = bytes fa"
    by (simp add: bytes_def fa_limit_def fun_eq_iff)
  then have b: "bytes (?fa\<lparr>fa_meta := meta\<rparr>) = (bytes fa)(p := 0)"
    using m(3) by (simp add: NOT_FREE_def)
  have len: "k < length (fa_heads fa)" and nx: "prv = frame_NIL \<longleftrightarrow> as = []"
    using L k un(2) by (auto simp: ORDERS_def)
  have swap: "fa\<lparr>fa_heads := hs, fa_mem := mem\<rparr> = fa\<lparr>fa_mem := mem, fa_heads := hs\<rparr>" for hs mem
    by simp
  have "frame_unlink fa p k = set_meta ?fa p NOT_FREE"
    unfolding frame_unlink_def Let_def nxt_def [symmetric] prv_def [symmetric]
    using len by (cases "as = []"; cases "nxt = frame_NIL") (simp_all add: mem_write_def mem1_def mem2_def nx swap)
  then have "frame_unlink fa p k = Some (?fa\<lparr>fa_meta := meta\<rparr>)"
    using m(1) by simp
  moreover have "fa_lists (?fa\<lparr>fa_meta := meta\<rparr>) (ls(k := as @ bs))"
  proof -
    have "seg mem2 frame_NIL (ls j) frame_NIL" if "j \<le> MAX_ORDER" "j \<noteq> k" for j
    proof (rule seg_cong [of "fa_mem fa"])
      show "seg (fa_mem fa) frame_NIL (ls j) frame_NIL"
        using L that by blast
      show "mem2 (x * page) = fa_mem fa (x * page) \<and> mem2 (x * page + 8) = fa_mem fa (x * page + 8)" if x: "x \<in> set (ls j)" for x
      proof (rule un(4))
        have "x \<notin> set (ls k)"
          using fa_lists_nodes(4) [OF ls k, of x] fa_lists_nodes(4) [OF ls \<open>j \<le> MAX_ORDER\<close> x] \<open>j \<noteq> k\<close> by auto
        then show "x \<notin> set (as @ bs)"
          by (simp add: split)
      qed
    qed
    moreover have "set (as @ bs) = {q. ((bytes fa)(p := 0)) q = k + 1}"
    proof -
      have "set (as @ p # bs) = {q. bytes fa q = k + 1}"
        using L k by (simp flip: split)
      then show ?thesis
        using d by auto
    qed
    moreover have "?heads ! k = hd_or (as @ bs) frame_NIL"
      using un(3) L k len by (cases as) (auto simp: split)
    ultimately show ?thesis
      unfolding fa_lists_def b using L k un(1) d p m(2) by (auto simp: fa_limit_def ORDERS_def nth_list_update)
  qed
  moreover have "same_span fa (?fa\<lparr>fa_meta := meta\<rparr>)"
    using m(2) by (simp add: same_span_def fa_limit_def)
  ultimately show ?thesis
    using b unfolding fa_ok_def by (intro exI [of _ "?fa\<lparr>fa_meta := meta\<rparr>"]) auto
qed

lemma set_meta_ok:
  assumes ok: "fa_ok fa" and p: "fa_base_pfn fa \<le> p" "p < fa_limit fa"
    and v: "v = 0 \<or> v > ORDERS" "bytes fa p = 0 \<or> bytes fa p > ORDERS"
  shows "\<exists>fa'. set_meta fa p v = Some fa' \<and> fa_ok fa' \<and> bytes fa' = (bytes fa)(p := v) \<and> same_span fa fa'
    \<and> fa_free_frames fa' = fa_free_frames fa"
proof -
  obtain meta where m: "set_meta fa p v = Some (fa\<lparr>fa_meta := meta\<rparr>)" "length meta = length (fa_meta fa)"
    "bytes (fa\<lparr>fa_meta := meta\<rparr>) = (bytes fa)(p := v)"
    using set_meta_bytes [OF p] by blast
  obtain ls where ls: "fa_lists fa ls"
    using ok by (auto simp: fa_ok_def)
  have "{q. ((bytes fa)(p := v)) q = k + 1} = {q. bytes fa q = k + 1}" if "k \<le> MAX_ORDER" for k
    using v that by (auto simp: ORDERS_def)
  then have "fa_lists (fa\<lparr>fa_meta := meta\<rparr>) ls"
    using ls m(2) by (simp add: fa_lists_def m(3) fa_limit_def del: fun_upd_apply)
  then show ?thesis
    using m by (auto simp: fa_ok_def same_span_def fa_limit_def)
qed

end
