(* ===== verification/Frame_Blocks.thy ===== *)
theory Frame_Blocks
  imports Frame_Lists
begin

text \<open>
  The metadata bytes of the page allocator as blocks: aligned, apart from one another, no two buddies free.
  Merging keeps that and the frames that are free.
\<close>

unbundle bit_operations_syntax

section \<open>Blocks and buddies\<close>

definition span :: "nat \<Rightarrow> nat \<Rightarrow> nat set" where
  "span p k = {p..<p + 2 ^ k}"

definition buddy :: "nat \<Rightarrow> nat \<Rightarrow> nat" where
  "buddy p k = p XOR 2 ^ k"

lemma span_finite [simp]: "finite (span p k)" and card_span [simp]: "card (span p k) = 2 ^ k" and span_first [simp]: "p \<in> span p k"
  by (simp_all add: span_def)

lemma span_last: "p + 2 ^ k - 1 \<in> span p k"
proof -
  have "1 \<le> (2::nat) ^ k"
    by simp
  then show ?thesis
    unfolding span_def atLeastLessThan_iff by linarith
qed

lemma buddy_cases:
  assumes "2 ^ k dvd p"
  shows "buddy p k = (if 2 ^ (k + 1) dvd p then p + 2 ^ k else p - 2 ^ k)" and "2 ^ k \<le> p \<or> 2 ^ (k + 1) dvd p"
    and "\<not> 2 ^ (k + 1) dvd p \<Longrightarrow> 2 ^ (k + 1) dvd p - 2 ^ k"
proof -
  obtain q where q: "p = q * 2 ^ k"
    using assms by (metis dvd_def mult.commute)
  have e: "2 ^ (k + 1) dvd p \<longleftrightarrow> even q"
    by (simp add: q)
  have "buddy p k = push_bit k q XOR push_bit k 1"
    by (simp add: buddy_def q push_bit_eq_mult)
  also have "\<dots> = push_bit k (q XOR 1)"
    by (simp only: push_bit_xor)
  also have "\<dots> = (q + of_bool (even q) - of_bool (odd q)) * 2 ^ k"
    by (simp add: push_bit_eq_mult xor_Suc_0_eq)
  finally show "buddy p k = (if 2 ^ (k + 1) dvd p then p + 2 ^ k else p - 2 ^ k)"
    unfolding e by (simp add: q algebra_simps)
  show "2 ^ k \<le> p \<or> 2 ^ (k + 1) dvd p"
    unfolding e by (cases q) (simp_all add: q)
  show "2 ^ (k + 1) dvd p - 2 ^ k" if "\<not> 2 ^ (k + 1) dvd p"
  proof -
    have "odd q"
      using that e by simp
    then obtain r where "q = 2 * r + 1"
      by (elim oddE)
    then have "p - 2 ^ k = r * 2 ^ (k + 1)"
      by (simp add: q algebra_simps)
    then show ?thesis
      by simp
  qed
qed

lemma not_aligned_up:
  fixes x :: nat
  assumes "2 ^ (k + 1) dvd x"
  shows "\<not> 2 ^ (k + 1) dvd x + 2 ^ k"
proof
  assume "2 ^ (k + 1) dvd x + 2 ^ k"
  then have "2 ^ (k + 1) dvd (2 ^ k :: nat)"
    using assms by (simp add: dvd_add_right_iff)
  then show False
    by (auto dest: dvd_imp_le)
qed

lemma buddy_pair:
  assumes "2 ^ k dvd p"
  shows "2 ^ k dvd buddy p k" and "buddy (buddy p k) k = p" and "buddy p k \<noteq> p" and "2 ^ (k + 1) dvd min p (buddy p k)"
    and "span p k \<union> span (buddy p k) k = span (min p (buddy p k)) (k + 1)" and "span p k \<inter> span (buddy p k) k = {}"
proof -
  have pos: "(0::nat) < 2 ^ k"
    by simp
  consider (low) "2 ^ (k + 1) dvd p" "buddy p k = p + 2 ^ k" | (high) "\<not> 2 ^ (k + 1) dvd p" "buddy p k = p - 2 ^ k" "2 ^ k \<le> p" "2 ^ (k + 1) dvd p - 2 ^ k"
    using buddy_cases [OF assms] by (cases "2 ^ (k + 1) dvd p") auto
  note c = this
  show "2 ^ k dvd buddy p k"
    using c assms by cases (auto intro: dvd_diff_nat)
  show "buddy p k \<noteq> p"
    using c pos by cases auto
  show "2 ^ (k + 1) dvd min p (buddy p k)"
    using c
  proof cases
    case high
    then have "p - 2 ^ k < p"
      using pos by linarith
    then show ?thesis
      using high by (simp add: min_def)
  qed (simp add: min_def)
  show "span p k \<union> span (buddy p k) k = span (min p (buddy p k)) (k + 1)"
    using c by cases (auto simp: span_def min_def)
  show "span p k \<inter> span (buddy p k) k = {}"
    using c by cases (auto simp: span_def)
  show "buddy (buddy p k) k = p"
    using c
  proof cases
    case low
    then show ?thesis
      using buddy_cases(1) [of k "p + 2 ^ k"] not_aligned_up [OF low(1)] assms by simp
  next
    case high
    then show ?thesis
      using buddy_cases(1) [of k "p - 2 ^ k"] assms by (simp add: dvd_diff_nat)
  qed
qed

text \<open>An aligned block that covers a frame starts where the frame is rounded down to.\<close>

lemma aligned_cover:
  assumes "2 ^ k dvd p" and "x \<in> span p k"
  shows "p = x div 2 ^ k * 2 ^ k"
proof -
  obtain q where q: "p = q * 2 ^ k"
    using assms(1) by (metis dvd_def mult.commute)
  have "x div 2 ^ k = q"
    using assms(2) by (intro div_nat_eqI) (auto simp: q span_def algebra_simps)
  then show ?thesis
    by (simp add: q)
qed

lemma round_in_span: "x \<in> span (x div 2 ^ k * 2 ^ k) k"
proof -
  have "x mod 2 ^ k < 2 ^ k" "x div 2 ^ k * 2 ^ k + x mod 2 ^ k = x"
    by (simp, rule div_mult_mod_eq)
  then show ?thesis
    unfolding span_def by (metis atLeastLessThan_iff le_add1 nat_add_left_cancel_less)
qed

text \<open>Of two aligned blocks that share a frame, the smaller lies in the larger.\<close>

lemma aligned_nested:
  assumes "2 ^ j dvd q" "2 ^ k dvd p" "j \<le> k" and "x \<in> span q j" "x \<in> span p k"
  shows "span q j \<subseteq> span p k"
proof -
  have "(2::nat) ^ j dvd 2 ^ k"
    using assms(3) by (rule le_imp_power_dvd)
  then obtain a b c where abc: "q = a * 2 ^ j" "p = b * 2 ^ j" "2 ^ k = c * (2::nat) ^ j"
    using assms(1,2) by (metis dvd_def dvd_trans mult.commute)
  have "b * 2 ^ j < (a + 1) * 2 ^ j" "a * 2 ^ j < (b + c) * 2 ^ j"
    using assms(4,5) by (auto simp: span_def abc algebra_simps)
  then have "b < a + 1" "a < b + c"
    by (meson mult_less_cancel2)+
  then have "b * 2 ^ j \<le> a * 2 ^ j" "(a + 1) * 2 ^ j \<le> (b + c) * 2 ^ j"
    by (intro mult_le_mono1; simp)+
  then show ?thesis
    by (auto simp: span_def abc algebra_simps)
qed

section \<open>Bytes as blocks\<close>

text \<open>A frame's byte makes it the head of a free block of order \<open>k\<close>, of an allocated one, or of none.\<close>

definition free_at :: "(nat \<Rightarrow> nat) \<Rightarrow> nat \<Rightarrow> nat \<Rightarrow> bool" where
  "free_at mt p k \<longleftrightarrow> k \<le> MAX_ORDER \<and> mt p = k + 1"

definition taken_at :: "(nat \<Rightarrow> nat) \<Rightarrow> nat \<Rightarrow> nat \<Rightarrow> bool" where
  "taken_at mt p k \<longleftrightarrow> k \<le> MAX_ORDER \<and> mt p = ALLOCATED OR k"

definition block_at :: "(nat \<Rightarrow> nat) \<Rightarrow> nat \<Rightarrow> nat \<Rightarrow> bool" where
  "block_at mt p k \<longleftrightarrow> free_at mt p k \<or> taken_at mt p k"

definition free_set :: "(nat \<Rightarrow> nat) \<Rightarrow> nat set" where
  "free_set mt = {x. \<exists>p k. free_at mt p k \<and> x \<in> span p k}"

lemma allocated_order:
  assumes "k \<le> MAX_ORDER"
  shows "ALLOCATED OR k = 128 + k"
proof -
  have "k < 2 ^ 7"
    using assms by (simp add: MAX_ORDER_def)
  then have "take_bit 7 k = k"
    by (simp add: take_bit_nat_eq_self)
  then have "\<not> bit k n" if "7 \<le> n" for n
    using that by (metis bit_take_bit_iff not_less)
  then have "2 ^ 7 AND k = 0"
    by (intro bit_eqI) (simp only: bit_and_iff bit_exp_iff, auto)
  then have "2 ^ 7 + k = 2 ^ 7 OR k"
    by (rule disjunctive_add_eq_or)
  then show ?thesis
    by (simp add: ALLOCATED_def)
qed

lemma byte_unique:
  "block_at mt p k \<Longrightarrow> block_at mt p j \<Longrightarrow> k = j" "\<not> (free_at mt p k \<and> taken_at mt p j)" "block_at mt p k \<Longrightarrow> mt p \<noteq> 0"
  by (auto simp: block_at_def free_at_def taken_at_def allocated_order) (auto simp: MAX_ORDER_def)

text \<open>The blocks between \<open>b\<close> and \<open>l\<close>: aligned, apart from one another, and nothing else marked.\<close>

definition blocks_ok :: "nat \<Rightarrow> nat \<Rightarrow> (nat \<Rightarrow> nat) \<Rightarrow> bool" where
  "blocks_ok b l mt \<longleftrightarrow>
     (\<forall>p. mt p \<noteq> 0 \<longrightarrow> (\<exists>k. block_at mt p k)) \<and>
     (\<forall>p k. block_at mt p k \<longrightarrow> 2 ^ k dvd p \<and> b \<le> p \<and> p + 2 ^ k \<le> l) \<and>
     (\<forall>p k q j. block_at mt p k \<longrightarrow> block_at mt q j \<longrightarrow> p \<noteq> q \<longrightarrow> span p k \<inter> span q j = {})"

text \<open>An aligned range that no block touches.\<close>

definition hole :: "nat \<Rightarrow> nat \<Rightarrow> (nat \<Rightarrow> nat) \<Rightarrow> nat \<Rightarrow> nat \<Rightarrow> bool" where
  "hole b l mt p k \<longleftrightarrow> k \<le> MAX_ORDER \<and> 2 ^ k dvd p \<and> b \<le> p \<and> p + 2 ^ k \<le> l \<and> (\<forall>q j. block_at mt q j \<longrightarrow> span q j \<inter> span p k = {})"

text \<open>No two buddies are free.\<close>

definition merged :: "(nat \<Rightarrow> nat) \<Rightarrow> bool" where
  "merged mt \<longleftrightarrow> (\<forall>p k. free_at mt p k \<longrightarrow> k < MAX_ORDER \<longrightarrow> \<not> free_at mt (buddy p k) k)"

lemma block_at_upd:
  "block_at (mt(p := v)) q j \<longleftrightarrow> (if q = p then block_at (\<lambda>_. v) q j else block_at mt q j)"
  "free_at (mt(p := v)) q j \<longleftrightarrow> (if q = p then free_at (\<lambda>_. v) q j else free_at mt q j)"
  "taken_at (mt(p := v)) q j \<longleftrightarrow> (if q = p then taken_at (\<lambda>_. v) q j else taken_at mt q j)"
  by (simp_all add: block_at_def free_at_def taken_at_def)

lemma block_of_byte [simp]:
  "\<not> block_at (\<lambda>_. 0) p k" "\<not> free_at (\<lambda>_. 0) p k" "\<not> taken_at (\<lambda>_. 0) p k"
  "k \<le> MAX_ORDER \<Longrightarrow> free_at (\<lambda>_. Suc k) p j \<longleftrightarrow> j = k"
  "k \<le> MAX_ORDER \<Longrightarrow> \<not> taken_at (\<lambda>_. Suc k) p j"
  "k \<le> MAX_ORDER \<Longrightarrow> taken_at (\<lambda>_. ALLOCATED OR k) p j \<longleftrightarrow> j = k"
  "k \<le> MAX_ORDER \<Longrightarrow> \<not> free_at (\<lambda>_. ALLOCATED OR k) p j"
  by (auto simp: block_at_def free_at_def taken_at_def allocated_order) (auto simp: MAX_ORDER_def allocated_order)

lemma hole_byte: "blocks_ok b l mt \<Longrightarrow> hole b l mt p k \<Longrightarrow> mt p = 0"
  unfolding blocks_ok_def hole_def by (metis disjoint_iff span_first)

text \<open>A hole filled with a block, and a block taken away.\<close>

lemma fill_hole:
  assumes ok: "blocks_ok b l mt" and h: "hole b l mt p k" and v: "\<And>j. block_at (\<lambda>_. v) p j \<longleftrightarrow> j = k"
  shows "blocks_ok b l (mt(p := v))"
proof -
  have "v \<noteq> 0"
    using v [of k] byte_unique(3) [of "\<lambda>_. v" p k] by simp
  then show ?thesis
    using ok h v unfolding blocks_ok_def hole_def block_at_upd
    by (auto simp: Int_commute)
qed

lemma clear_block:
  assumes ok: "blocks_ok b l mt" and p: "block_at mt p k"
  shows "blocks_ok b l (mt(p := 0))" and "hole b l (mt(p := 0)) p k"
proof -
  show "blocks_ok b l (mt(p := 0))"
    using ok unfolding blocks_ok_def block_at_upd by auto
  have "k \<le> MAX_ORDER"
    using p by (auto simp: block_at_def free_at_def taken_at_def)
  then show "hole b l (mt(p := 0)) p k"
    using ok p unfolding blocks_ok_def hole_def block_at_upd by auto
qed

lemma free_set_upd:
  "free_set (mt(p := v)) = {x. \<exists>k. free_at (\<lambda>_. v) p k \<and> x \<in> span p k} \<union> {x. \<exists>q k. q \<noteq> p \<and> free_at mt q k \<and> x \<in> span q k}"
  unfolding free_set_def block_at_upd by (auto split: if_splits)

lemma free_set_other: "(\<And>j. \<not> free_at mt p j) \<Longrightarrow> {x. \<exists>q k. q \<noteq> p \<and> free_at mt q k \<and> x \<in> span q k} = free_set mt"
  unfolding free_set_def by (rule Collect_cong) metis

lemma free_set_fill:
  assumes "blocks_ok b l mt" "hole b l mt p k"
  shows "free_set (mt(p := k + 1)) = free_set mt \<union> span p k" and "free_set (mt(p := ALLOCATED OR k)) = free_set mt"
    and "free_set mt \<inter> span p k = {}"
proof -
  have z: "\<not> free_at mt p j" for j
    using hole_byte [OF assms] by (simp add: free_at_def)
  have k: "k \<le> MAX_ORDER"
    using assms(2) by (simp add: hole_def)
  show "free_set (mt(p := k + 1)) = free_set mt \<union> span p k"
    using k unfolding free_set_upd free_set_other [OF z] by auto
  show "free_set (mt(p := ALLOCATED OR k)) = free_set mt"
    using k unfolding free_set_upd free_set_other [OF z] by auto
  show "free_set mt \<inter> span p k = {}"
    using assms(2) unfolding hole_def free_set_def block_at_def by blast
qed

lemma free_set_clear:
  assumes "blocks_ok b l mt"
  shows "free_at mt p k \<Longrightarrow> free_set (mt(p := 0)) = free_set mt - span p k" and "free_at mt p k \<Longrightarrow> span p k \<subseteq> free_set mt"
    and "taken_at mt p k \<Longrightarrow> free_set (mt(p := 0)) = free_set mt"
proof -
  show "free_set (mt(p := 0)) = free_set mt" if "taken_at mt p k"
  proof -
    have "\<not> free_at mt p j" for j
      using byte_unique(2) that by blast
    then show ?thesis
      unfolding free_set_upd using free_set_other by auto
  qed
  assume f: "free_at mt p k"
  then show "span p k \<subseteq> free_set mt"
    by (auto simp: free_set_def)
  have "span q j \<inter> span p k = {}" if "free_at mt q j" "q \<noteq> p" for q j
    using assms f that unfolding blocks_ok_def block_at_def by blast
  moreover have "j = k" if "free_at mt p j" for j
    using byte_unique(1) f that by (auto simp: block_at_def)
  ultimately show "free_set (mt(p := 0)) = free_set mt - span p k"
    unfolding free_set_upd unfolding free_set_def by auto (metis disjoint_iff)+
qed

lemma merged_clear: "merged mt \<Longrightarrow> merged (mt(p := 0))"
  unfolding merged_def block_at_upd by auto

lemma merged_fill:
  assumes ok: "blocks_ok b l mt" and m: "merged mt" and h: "hole b l mt p k" and n: "k < MAX_ORDER \<Longrightarrow> \<not> free_at mt (buddy p k) k"
  shows "merged (mt(p := k + 1))"
  unfolding merged_def
proof (intro allI impI notI)
  fix q j
  assume j: "j < MAX_ORDER" and f: "free_at (mt(p := k + 1)) q j" "free_at (mt(p := k + 1)) (buddy q j) j"
  have k: "k \<le> MAX_ORDER" "2 ^ k dvd p"
    using h by (auto simp: hole_def)
  show False
  proof (cases "q = p \<or> buddy q j = p")
    case True
    then have "j = k"
      using f k(1) by (auto simp: block_at_upd split: if_splits)
    have "2 ^ k dvd q"
    proof (cases "q = p")
      case False
      then have "free_at mt q k"
        using f(1) \<open>j = k\<close> by (simp add: block_at_upd)
      then show ?thesis
        using ok by (auto simp: blocks_ok_def block_at_def)
    qed (simp add: k(2))
    then have "buddy p k \<noteq> p" "q = p \<or> q = buddy p k" "buddy q k = p \<or> buddy q k = buddy p k"
      using True \<open>j = k\<close> buddy_pair(2,3) k(2) by auto
    then have "free_at mt (buddy p k) k"
      using f \<open>j = k\<close> buddy_pair(3) [OF \<open>2 ^ k dvd q\<close>] by (auto simp: block_at_upd split: if_splits)
    then show False
      using n j \<open>j = k\<close> by simp
  next
    case False
    then show False
      using f m j by (simp add: block_at_upd merged_def)
  qed
qed

section \<open>The allocator\<close>

definition frames_inv :: "frame_allocator \<Rightarrow> bool" where
  "frames_inv fa \<longleftrightarrow> fa_ok fa \<and> blocks_ok (fa_base_pfn fa) (fa_limit fa) (bytes fa) \<and> merged (bytes fa)
     \<and> fa_free_frames fa = card (free_set (bytes fa))"

lemma any_head_eq:
  assumes "fa_base_pfn fa \<le> p" and "p < fa_limit fa"
  shows "any_head fa p fits ks = Some (\<exists>k\<in>set ks. fa_base_pfn fa \<le> p div 2 ^ k * 2 ^ k \<and> fits k (bytes fa (p div 2 ^ k * 2 ^ k)))"
proof (induction ks)
  case (Cons k ks)
  have "p div 2 ^ k * 2 ^ k < fa_limit fa"
    using assms(2) div_times_less_eq_dividend [of p "2 ^ k"] by (rule le_less_trans [rotated])
  then show ?case
    using Cons by (simp add: Let_def meta_at_bytes)
qed simp

lemma in_free_block_eq:
  assumes "blocks_ok (fa_base_pfn fa) l (bytes fa)" and "fa_base_pfn fa \<le> p" and "p < fa_limit fa"
  shows "in_free_block fa p = Some (p \<in> free_set (bytes fa))"
proof -
  have low: "fa_base_pfn fa \<le> p div 2 ^ k * 2 ^ k" if "bytes fa (p div 2 ^ k * 2 ^ k) = k + 1" for k
    using bytes_in_range [of fa "p div 2 ^ k * 2 ^ k"] that by simp
  have "(\<exists>k\<in>set [0..<ORDERS]. fa_base_pfn fa \<le> p div 2 ^ k * 2 ^ k \<and> bytes fa (p div 2 ^ k * 2 ^ k) = k + 1)
      \<longleftrightarrow> (\<exists>k. free_at (bytes fa) (p div 2 ^ k * 2 ^ k) k)"
    using low unfolding free_at_def ORDERS_def by (metis Suc_eq_plus1 atLeast0LessThan less_Suc_eq_le lessThan_iff set_upt)
  also have "\<dots> \<longleftrightarrow> p \<in> free_set (bytes fa)"
  proof
    assume "p \<in> free_set (bytes fa)"
    then obtain q k where q: "free_at (bytes fa) q k" "p \<in> span q k"
      by (auto simp: free_set_def)
    then have "2 ^ k dvd q"
      using assms(1) by (auto simp: blocks_ok_def block_at_def)
    then show "\<exists>k. free_at (bytes fa) (p div 2 ^ k * 2 ^ k) k"
      using aligned_cover q by metis
  qed (use round_in_span in \<open>auto simp: free_set_def\<close>)
  finally show ?thesis
    by (simp add: in_free_block_def any_head_eq [OF assms(2,3)])
qed

lemma frame_merge_ok:
  assumes "fa_ok fa" and "blocks_ok (fa_base_pfn fa) (fa_limit fa) (bytes fa)" and "merged (bytes fa)"
    and "hole (fa_base_pfn fa) (fa_limit fa) (bytes fa) p k"
  shows "\<exists>q j fa'. frame_merge fa p k = Some (q, j, fa') \<and> fa_ok fa' \<and> same_span fa fa' \<and> fa_free_frames fa' = fa_free_frames fa
    \<and> blocks_ok (fa_base_pfn fa) (fa_limit fa) (bytes fa') \<and> merged (bytes fa')
    \<and> hole (fa_base_pfn fa) (fa_limit fa) (bytes fa') q j \<and> (j < MAX_ORDER \<longrightarrow> \<not> free_at (bytes fa') (buddy q j) j)
    \<and> free_set (bytes fa') \<union> span q j = free_set (bytes fa) \<union> span p k
    \<and> taken_at (bytes fa') = taken_at (bytes fa)"
  using assms
proof (induction "MAX_ORDER - k" arbitrary: fa p k rule: less_induct)
  case less
  let ?mt = "bytes fa" and ?b = "fa_base_pfn fa" and ?l = "fa_limit fa"
  have k: "k \<le> MAX_ORDER" "2 ^ k dvd p"
    using less.prems(4) by (auto simp: hole_def)
  show ?case
  proof (cases "k < MAX_ORDER \<and> free_at ?mt (buddy p k) k")
    case True
    let ?q = "buddy p k"
    have blk: "block_at ?mt ?q k" and byte: "bytes fa ?q = k + 1"
      using True by (auto simp: block_at_def free_at_def)
    have in_range: "frame_in_range fa ?q k"
      using less.prems(2) blk by (auto simp: blocks_ok_def frame_in_range_def fa_limit_def)
    obtain fa1 where u: "frame_unlink fa ?q k = Some fa1" "fa_ok fa1" "bytes fa1 = ?mt(?q := 0)" "same_span fa fa1"
        "fa_free_frames fa1 = fa_free_frames fa"
      using frame_unlink_ok [OF less.prems(1) k(1) byte] by blast
    have span1: "fa_base_pfn fa1 = ?b" "fa_limit fa1 = ?l"
      using u(4) by (simp_all add: same_span_def)
    note c = clear_block [OF less.prems(2) blk]
    note pair = buddy_pair [OF k(2)]
    have hole: "hole ?b ?l (bytes fa1) (min p ?q) (k + 1)"
    proof -
      have "span r j \<inter> span p k = {}" "span r j \<inter> span ?q k = {}" if "block_at (bytes fa1) r j" for r j
        using that less.prems(4) c(2) by (auto simp: hole_def u(3) block_at_upd split: if_splits)
      then have "span r j \<inter> span (min p ?q) (k + 1) = {}" if "block_at (bytes fa1) r j" for r j
        using that unfolding pair(5) [symmetric] by blast
      moreover have "?b \<le> min p ?q" "min p ?q + 2 ^ (k + 1) \<le> ?l"
      proof -
        have "?b \<le> p" "?b \<le> ?q"
          using less.prems(4) c(2) by (auto simp: hole_def)
        then show "?b \<le> min p ?q"
          by simp
        have "p + 2 ^ k \<le> ?l" "?q + 2 ^ k \<le> ?l"
          using less.prems(4) c(2) by (auto simp: hole_def)
        then have "span (min p ?q) (k + 1) \<subseteq> {..<?l}"
          unfolding pair(5) [symmetric] by (auto simp: span_def)
        then have "min p ?q + 2 ^ (k + 1) - 1 < ?l"
          using span_last by blast
        then show "min p ?q + 2 ^ (k + 1) \<le> ?l"
          by linarith
      qed
      ultimately show ?thesis
        using True pair(4) unfolding hole_def by simp
    qed
    have step: "frame_merge fa p k = frame_merge fa1 (min p ?q) (k + 1)"
      using True in_range byte u(1) less.prems(2) blk bytes_in_range [of fa ?q]
      by (simp add: frame_merge.simps [of fa] Let_def meta_at_bytes buddy_def [symmetric])
    have sets: "free_set (bytes fa1) \<union> span (min p ?q) (k + 1) = free_set ?mt \<union> span p k"
      using free_set_clear(1,2) [OF less.prems(2), of ?q k] True unfolding u(3) pair(5) [symmetric] by auto
    have taken: "taken_at (bytes fa1) = taken_at ?mt"
      using byte_unique(2) True by (auto simp: u(3) block_at_upd fun_eq_iff)
    have "MAX_ORDER - (k + 1) < MAX_ORDER - k"
      using True by linarith
    from less.hyps [OF this u(2), unfolded span1, OF c(1) [folded u(3)] merged_clear [OF less.prems(3), of ?q, folded u(3)] hole]
    show ?thesis
      unfolding step sets taken u(5) using same_span_trans [OF u(4)] by blast
  next
    case False
    have "frame_merge fa p k = Some (p, k, fa)"
    proof (cases "k < MAX_ORDER \<and> frame_in_range fa (buddy p k) k")
      case True
      then have "fa_base_pfn fa \<le> buddy p k" "buddy p k + 2 ^ k \<le> fa_limit fa" "(0::nat) < 2 ^ k"
        by (simp_all add: frame_in_range_def fa_limit_def)
      then have "fa_base_pfn fa \<le> buddy p k" "buddy p k < fa_limit fa"
        by linarith+
      then show ?thesis
        using False True by (simp add: frame_merge.simps [of fa] Let_def buddy_def [symmetric] free_at_def meta_at_bytes)
    qed (auto simp: frame_merge.simps [of fa] Let_def buddy_def [symmetric])
    then show ?thesis
      using less.prems False by (intro exI [of _ p] exI [of _ k] exI [of _ fa]) simp
  qed
qed

lemma count_only:
  "bytes (fa\<lparr>fa_free_frames := n\<rparr>) = bytes fa" "fa_limit (fa\<lparr>fa_free_frames := n\<rparr>) = fa_limit fa"
  "fa_ok (fa\<lparr>fa_free_frames := n\<rparr>) \<longleftrightarrow> fa_ok fa"
proof -
  show *: "bytes (fa\<lparr>fa_free_frames := n\<rparr>) = bytes fa" "fa_limit (fa\<lparr>fa_free_frames := n\<rparr>) = fa_limit fa"
    by (simp_all add: bytes_def fa_limit_def fun_eq_iff)
  show "fa_ok (fa\<lparr>fa_free_frames := n\<rparr>) \<longleftrightarrow> fa_ok fa"
    by (simp add: fa_ok_def fa_lists_def *)
qed

lemma hole_range:
  assumes "hole b l mt p k"
  shows "b \<le> p" "p < l" "k \<le> MAX_ORDER"
proof -
  have "b \<le> p" "p + 2 ^ k \<le> l" "(0::nat) < 2 ^ k" "k \<le> MAX_ORDER"
    using assms by (auto simp: hole_def)
  then show "b \<le> p" "p < l" "k \<le> MAX_ORDER"
    by linarith+
qed

lemma finite_free_set: "blocks_ok b l mt \<Longrightarrow> finite (free_set mt)"
  by (rule finite_subset [of _ "{..<l}"]) (auto simp: free_set_def blocks_ok_def block_at_def span_def intro: less_le_trans)

lemma free_block_ok:
  assumes inv: "frames_inv fa" and h: "hole (fa_base_pfn fa) (fa_limit fa) (bytes fa) p k"
  shows "\<exists>fa'. free_block fa p k = Some fa' \<and> frames_inv fa' \<and> same_span fa fa'
    \<and> free_set (bytes fa') = free_set (bytes fa) \<union> span p k \<and> taken_at (bytes fa') = taken_at (bytes fa)"
proof -
  let ?b = "fa_base_pfn fa" and ?l = "fa_limit fa" and ?mt = "bytes fa"
  have ok: "fa_ok fa" "blocks_ok ?b ?l ?mt" "merged ?mt" and n: "fa_free_frames fa = card (free_set ?mt)"
    using inv by (simp_all add: frames_inv_def)
  note range = hole_range [OF h]
  have "p \<notin> free_set ?mt"
    using free_set_fill(3) [OF ok(2) h] span_first [of p k] by blast
  then have twice: "in_free_block fa p = Some False"
    using in_free_block_eq [OF ok(2) range(1,2)] by simp
  let ?fa = "fa\<lparr>fa_free_frames := fa_free_frames fa + 2 ^ k\<rparr>"
  have same: "fa_ok ?fa" "bytes ?fa = ?mt" "fa_base_pfn ?fa = ?b" "fa_limit ?fa = ?l"
    using ok(1) by (simp_all add: count_only)
  obtain q j fa1 where m: "frame_merge ?fa p k = Some (q, j, fa1)" "fa_ok fa1" "same_span ?fa fa1"
      "fa_free_frames fa1 = fa_free_frames fa + 2 ^ k" "blocks_ok ?b ?l (bytes fa1)" "merged (bytes fa1)"
      "hole ?b ?l (bytes fa1) q j" "j < MAX_ORDER \<longrightarrow> \<not> free_at (bytes fa1) (buddy q j) j"
      "free_set (bytes fa1) \<union> span q j = free_set ?mt \<union> span p k" "taken_at (bytes fa1) = taken_at ?mt"
    using frame_merge_ok [OF same(1), unfolded same(2-4), OF ok(2,3) h] by auto
  have span1: "fa_base_pfn fa1 = ?b" "fa_limit fa1 = ?l"
    using m(3) same(3,4) by (simp_all add: same_span_def)
  note range1 = hole_range [OF m(7)]
  have z: "bytes fa1 q = 0"
    by (rule hole_byte [OF m(5,7)])
  obtain fa' where push: "frame_push fa1 q j = Some fa'" "fa_ok fa'" "bytes fa' = (bytes fa1)(q := j + 1)" "same_span fa1 fa'"
      "fa_free_frames fa' = fa_free_frames fa1"
    using frame_push_ok [OF m(2) range1(3), of q] range1 z span1 by auto
  have step: "free_block fa p k = Some fa'"
    using twice m(1) push(1) by (simp add: free_block_def Let_def)
  have sets: "free_set (bytes fa') = free_set ?mt \<union> span p k"
    unfolding push(3) free_set_fill(1) [OF m(5,7)] by (rule m(9))
  have taken: "taken_at (bytes fa') = taken_at ?mt"
    using z range1(3) by (auto simp: push(3) block_at_upd fun_eq_iff m(10) [symmetric]) (auto simp: taken_at_def allocated_order)
  have "blocks_ok ?b ?l (bytes fa')"
    unfolding push(3) by (rule fill_hole [OF m(5,7)]) (use range1(3) in \<open>simp add: block_at_def\<close>)
  moreover have "merged (bytes fa')"
    unfolding push(3) by (rule merged_fill [OF m(5,6,7)]) (use m(8) in simp)
  moreover have "card (free_set (bytes fa')) = card (free_set ?mt) + 2 ^ k"
    unfolding sets using free_set_fill(3) [OF ok(2) h] finite_free_set [OF ok(2)] by (simp add: card_Un_disjoint)
  moreover have span: "same_span fa fa'"
    using push(4) span1 by (simp add: same_span_def)
  ultimately have "frames_inv fa'"
    using push(2,5) m(4) n by (simp add: frames_inv_def same_span_def)
  then show ?thesis
    using step sets taken span by blast
qed

end
