(* ===== verification/Frame_Alloc.thy ===== *)
theory Frame_Alloc
  imports Frame_Blocks
begin

text \<open>
  \<open>alloc\<close> of the page allocator: the search over the orders, the split of a larger block, and that it fails
  only when no aligned run of free frames is left, which rests on every pair of free buddies being merged.
\<close>

unbundle bit_operations_syntax

section \<open>Allocation\<close>

lemma alloc_order_ok:
  assumes ok: "fa_ok fa" and k: "k \<le> MAX_ORDER"
  shows "(\<exists>j p. alloc_order (fa_heads fa) k = Some (Some j) \<and> k \<le> j \<and> at_index (fa_heads fa) j = Some p \<and> free_at (bytes fa) p j)
    \<or> alloc_order (fa_heads fa) k = Some None \<and> (\<forall>j p. k \<le> j \<longrightarrow> \<not> free_at (bytes fa) p j)"
proof -
  obtain ls where ls: "fa_lists fa ls"
    using ok by (auto simp: fa_ok_def)
  note L = ls [unfolded fa_lists_def]
  have head: "at_index (fa_heads fa) j = Some (hd_or (ls j) frame_NIL)" if "j \<le> MAX_ORDER" for j
    using L that by (simp add: ORDERS_def)
  have none: "\<not> free_at (bytes fa) p j" if "j \<le> MAX_ORDER" "ls j = []" for j p
    using L that by (auto simp: free_at_def)
  show ?thesis
    using k
  proof (induction "MAX_ORDER - k" arbitrary: k rule: less_induct)
    case less
    note k = less.prems
    show ?case
    proof (cases "ls k")
      case (Cons p ps)
      then have "p \<in> set (ls k)"
        by simp
      then have "p \<noteq> frame_NIL" "free_at (bytes fa) p k"
        using fa_lists_nodes [OF ls k] k by (auto simp: free_at_def)
      then show ?thesis
        using head [OF k] Cons by (auto simp: alloc_order.simps [of _ k])
    next
      case Nil
      show ?thesis
      proof (cases "k = MAX_ORDER")
        case True
        then have "\<not> free_at (bytes fa) p j" if "k \<le> j" for j p
          using none [OF k Nil] that by (cases "j = k") (auto simp: free_at_def)
        moreover have "alloc_order (fa_heads fa) k = Some None"
          using head [OF k] Nil True by (simp add: alloc_order.simps [of _ MAX_ORDER])
        ultimately show ?thesis
          by blast
      next
        case False
        then have lt: "MAX_ORDER - (k + 1) < MAX_ORDER - k" "k + 1 \<le> MAX_ORDER"
          using k by linarith+
        have step: "alloc_order (fa_heads fa) k = alloc_order (fa_heads fa) (k + 1)"
          using head [OF k] Nil False by (simp add: alloc_order.simps [of _ k])
        have all: "\<forall>j p. k \<le> j \<longrightarrow> \<not> free_at (bytes fa) p j" if "\<forall>j p. k + 1 \<le> j \<longrightarrow> \<not> free_at (bytes fa) p j"
          using none [OF k Nil] that by (metis Suc_eq_plus1 Suc_leI le_neq_implies_less)
        show ?thesis
          using less.hyps [OF lt] all unfolding step by (meson add_leD1)
      qed
    qed
  qed
qed

lemma hole_halves:
  assumes "hole b l mt p (j + 1)"
  shows "hole b l mt p j" and "hole b l mt (p + 2 ^ j) j" and "buddy (p + 2 ^ j) j = p"
    and "span p (j + 1) = span p j \<union> span (p + 2 ^ j) j" and "span p j \<inter> span (p + 2 ^ j) j = {}"
proof -
  have d: "2 ^ (j + 1) dvd p" and dj: "2 ^ j dvd p"
    using assms by (auto simp: hole_def intro: dvd_trans [of _ "2 * 2 ^ j"])
  have b: "buddy p j = p + 2 ^ j"
    using buddy_cases(1) [OF dj] d by simp
  then show "buddy (p + 2 ^ j) j = p"
    using buddy_pair(2) [OF dj] by simp
  show s: "span p (j + 1) = span p j \<union> span (p + 2 ^ j) j"
    using buddy_pair(5) [OF dj] by (simp add: b)
  show "span p j \<inter> span (p + 2 ^ j) j = {}"
    using buddy_pair(6) [OF dj] by (simp add: b)
  show "hole b l mt p j" "hole b l mt (p + 2 ^ j) j"
    using assms dj unfolding hole_def s by auto
qed

lemma frame_split_ok:
  assumes "fa_ok fa" and "blocks_ok (fa_base_pfn fa) (fa_limit fa) (bytes fa)" and "merged (bytes fa)"
    and "hole (fa_base_pfn fa) (fa_limit fa) (bytes fa) p j" and "k \<le> j"
  shows "\<exists>fa'. frame_split fa p k j = Some fa' \<and> fa_ok fa' \<and> same_span fa fa' \<and> fa_free_frames fa' = fa_free_frames fa
    \<and> blocks_ok (fa_base_pfn fa) (fa_limit fa) (bytes fa') \<and> merged (bytes fa')
    \<and> hole (fa_base_pfn fa) (fa_limit fa) (bytes fa') p k
    \<and> free_set (bytes fa') \<union> span p k = free_set (bytes fa) \<union> span p j \<and> taken_at (bytes fa') = taken_at (bytes fa)"
  using assms
proof (induction j arbitrary: fa)
  case 0
  then show ?case
    by (intro exI [of _ fa]) (simp add: frame_split.simps)
next
  case (Suc j)
  let ?mt = "bytes fa" and ?b = "fa_base_pfn fa" and ?l = "fa_limit fa"
  show ?case
  proof (cases "k = Suc j")
    case True
    then show ?thesis
      using Suc.prems by (intro exI [of _ fa]) (simp add: frame_split.simps)
  next
    case False
    then have kj: "k \<le> j"
      using Suc.prems(5) by simp
    note halves = hole_halves [of ?b ?l ?mt p j, OF Suc.prems(4) [unfolded Suc_eq_plus1]]
    let ?q = "p + 2 ^ j"
    note range = hole_range [OF halves(2)]
    have z: "?mt ?q = 0" "?mt p = 0"
      using hole_byte [OF Suc.prems(2)] halves(1,2) by auto
    obtain fa1 where push: "frame_push fa ?q j = Some fa1" "fa_ok fa1" "bytes fa1 = ?mt(?q := j + 1)" "same_span fa fa1"
        "fa_free_frames fa1 = fa_free_frames fa"
      using frame_push_ok [OF Suc.prems(1) range(3), of ?q] range z by auto
    have span1: "fa_base_pfn fa1 = ?b" "fa_limit fa1 = ?l"
      using push(4) by (simp_all add: same_span_def)
    have ok1: "blocks_ok ?b ?l (bytes fa1)"
      unfolding push(3) by (rule fill_hole [OF Suc.prems(2) halves(2)]) (use range(3) in \<open>simp add: block_at_def\<close>)
    have merged1: "merged (bytes fa1)"
      unfolding push(3) by (rule merged_fill [OF Suc.prems(2,3) halves(2)]) (simp add: halves(3) free_at_def z)
    have hole1: "hole ?b ?l (bytes fa1) p j"
      using halves(1,5) range(3) unfolding hole_def push(3) block_at_upd by (auto simp: block_at_def)
    have sets: "free_set (bytes fa1) \<union> span p j = free_set ?mt \<union> span p (Suc j)"
      unfolding push(3) free_set_fill(1) [OF Suc.prems(2) halves(2)] using halves(4) by auto
    have taken: "taken_at (bytes fa1) = taken_at ?mt"
      using z range(3) by (auto simp: push(3) block_at_upd fun_eq_iff) (auto simp: taken_at_def allocated_order)
    have "frame_split fa p k (Suc j) = frame_split fa1 p k j"
      using kj push(1) by (simp add: frame_split.simps [of fa])
    then show ?thesis
      using Suc.IH [OF push(2), unfolded span1, OF ok1 merged1 hole1 kj] sets taken push(5) same_span_trans [OF push(4)] by auto
  qed
qed

text \<open>Where no block of an order or above is free, no aligned run of that many frames is.\<close>

lemma no_run:
  assumes ok: "blocks_ok b l mt" and m: "merged mt" and none: "\<And>j q. k \<le> j \<Longrightarrow> \<not> free_at mt q j"
    and k: "k \<le> MAX_ORDER" "2 ^ k dvd p"
  shows "\<not> span p k \<subseteq> free_set mt"
proof
  assume run: "span p k \<subseteq> free_set mt"
  define meets where "meets j \<longleftrightarrow> (\<exists>q. free_at mt q j \<and> span q j \<inter> span p k \<noteq> {})" for j
  have "p \<in> free_set mt"
    using run span_first by blast
  then have "\<exists>j. meets j"
    unfolding meets_def free_set_def using span_first by blast
  then obtain j where j: "meets j" and least: "\<And>i. meets i \<Longrightarrow> j \<le> i"
    using LeastI_ex [of meets] Least_le [of meets] by metis
  obtain q x where q: "free_at mt q j" and x: "x \<in> span q j" "x \<in> span p k"
    using j by (auto simp: meets_def)
  have jk: "j < k"
    using none [of j q] q by (metis not_le)
  have dq: "2 ^ j dvd q"
    using ok q by (auto simp: blocks_ok_def block_at_def)
  note pair = buddy_pair [OF dq]
  let ?r = "buddy q j"
  have "x \<in> span (min q ?r) (j + 1)"
    using x(1) pair(5) by blast
  then have "span (min q ?r) (j + 1) \<subseteq> span p k"
    using aligned_nested [OF pair(4) k(2) _ _ x(2)] jk by simp
  then have r: "?r \<in> span p k" "?r \<in> free_set mt"
    using pair(5) span_first [of ?r j] run by blast+
  then obtain s i where s: "free_at mt s i" "?r \<in> span s i"
    by (auto simp: free_set_def)
  then have "meets i"
    using r(1) by (auto simp: meets_def)
  then have ji: "j \<le> i"
    by (rule least)
  have ds: "2 ^ i dvd s"
    using ok s(1) by (auto simp: blocks_ok_def block_at_def)
  show False
  proof (cases "i = j")
    case True
    have "s = ?r div 2 ^ j * 2 ^ j"
      using aligned_cover [OF ds s(2)] True by simp
    also have "\<dots> = ?r"
      using pair(1) by simp
    finally show False
      using m q s(1) True jk k(1) by (simp add: merged_def)
  next
    case False
    then have "j + 1 \<le> i"
      using ji by simp
    moreover have "?r \<in> span (min q ?r) (j + 1)"
      using pair(5) span_first [of ?r j] by blast
    ultimately have "span (min q ?r) (j + 1) \<subseteq> span s i"
      using aligned_nested [OF pair(4) ds _ _ s(2)] by blast
    then have "q \<in> span s i"
      using pair(5) span_first [of q j] by blast
    moreover have "q \<noteq> s"
      using q s(1) False byte_unique(1) [of mt q j i] by (auto simp: block_at_def)
    ultimately show False
      using ok q s(1) span_first [of q j] unfolding blocks_ok_def block_at_def by blast
  qed
qed

lemma frame_alloc_ok:
  assumes inv: "frames_inv fa" and k: "k \<le> MAX_ORDER"
  shows "(\<exists>p fa'. frame_alloc fa k = Some (Some (p * page), fa') \<and> 2 ^ k dvd p \<and> span p k \<subseteq> free_set (bytes fa)
      \<and> frames_inv fa' \<and> same_span fa fa' \<and> free_set (bytes fa') = free_set (bytes fa) - span p k
      \<and> (\<forall>q j. taken_at (bytes fa') q j \<longleftrightarrow> taken_at (bytes fa) q j \<or> q = p \<and> j = k))
    \<or> frame_alloc fa k = Some (None, fa) \<and> (\<forall>p. 2 ^ k dvd p \<longrightarrow> \<not> span p k \<subseteq> free_set (bytes fa))"
proof -
  let ?mt = "bytes fa" and ?b = "fa_base_pfn fa" and ?l = "fa_limit fa"
  have ok: "fa_ok fa" "blocks_ok ?b ?l ?mt" "merged ?mt" and n: "fa_free_frames fa = card (free_set ?mt)"
    using inv by (simp_all add: frames_inv_def)
  consider (found) j p where "alloc_order (fa_heads fa) k = Some (Some j)" "k \<le> j" "at_index (fa_heads fa) j = Some p" "free_at ?mt p j"
    | (none) "alloc_order (fa_heads fa) k = Some None" "\<forall>j p. k \<le> j \<longrightarrow> \<not> free_at ?mt p j"
    using alloc_order_ok [OF ok(1) k] by blast
  then show ?thesis
  proof cases
    case none
    then have "frame_alloc fa k = Some (None, fa)"
      using k by (simp add: frame_alloc_def)
    then show ?thesis
      using no_run [OF ok(2,3) _ k] none(2) by blast
  next
    case found
    have byte: "?mt p = j + 1" "j \<le> MAX_ORDER" and blk: "block_at ?mt p j"
      using found(4) by (auto simp: free_at_def block_at_def)
    obtain fa1 where u: "frame_unlink fa p j = Some fa1" "fa_ok fa1" "bytes fa1 = ?mt(p := 0)" "same_span fa fa1"
        "fa_free_frames fa1 = fa_free_frames fa"
      using frame_unlink_ok [OF ok(1) byte(2,1)] by blast
    have span1: "fa_base_pfn fa1 = ?b" "fa_limit fa1 = ?l"
      using u(4) by (simp_all add: same_span_def)
    note c = clear_block [OF ok(2) blk, folded u(3)]
    obtain fa2 where sp: "frame_split fa1 p k j = Some fa2" "fa_ok fa2" "same_span fa1 fa2" "fa_free_frames fa2 = fa_free_frames fa1"
        "blocks_ok ?b ?l (bytes fa2)" "merged (bytes fa2)" "hole ?b ?l (bytes fa2) p k"
        "free_set (bytes fa2) \<union> span p k = free_set (bytes fa1) \<union> span p j" "taken_at (bytes fa2) = taken_at (bytes fa1)"
      using frame_split_ok [OF u(2), unfolded span1, OF c(1) merged_clear [OF ok(3), of p, folded u(3)] c(2) found(2)] by blast
    have span2: "fa_base_pfn fa2 = ?b" "fa_limit fa2 = ?l"
      using sp(3) span1 by (simp_all add: same_span_def)
    have all: "ALLOCATED OR k > ORDERS"
      using allocated_order [OF k] by (simp add: ORDERS_def MAX_ORDER_def)
    obtain fa3 where st: "set_meta fa2 p (ALLOCATED OR k) = Some fa3" "fa_ok fa3" "bytes fa3 = (bytes fa2)(p := ALLOCATED OR k)"
        "same_span fa2 fa3" "fa_free_frames fa3 = fa_free_frames fa2"
      using set_meta_ok [OF sp(2), of p "ALLOCATED OR k"] hole_range [OF sp(7)] hole_byte [OF sp(5,7)] all span2 by auto
    let ?fa = "fa3\<lparr>fa_free_frames := fa_free_frames fa3 - 2 ^ k\<rparr>"
    have step: "frame_alloc fa k = Some (Some (p * page), ?fa)"
      using k found u(1) sp(1) st(1) by (simp add: frame_alloc_def)
    have sub: "span p j \<subseteq> free_set ?mt" and free1: "free_set (bytes fa1) = free_set ?mt - span p j"
      using free_set_clear(1,2) [OF ok(2) found(4)] by (simp_all add: u(3))
    have free3: "free_set (bytes fa3) = free_set ?mt - span p k"
      using sp(8) free_set_fill(2,3) [OF sp(5,7)] free1 sub unfolding st(3) by blast
    have run: "span p k \<subseteq> free_set ?mt"
      using sp(8) free1 sub by blast
    have span3: "same_span fa ?fa"
      using span2 st(4) by (simp add: same_span_def count_only)
    have "blocks_ok ?b ?l (bytes fa3)"
      unfolding st(3) by (rule fill_hole [OF sp(5,7)]) (use k in \<open>simp add: block_at_def\<close>)
    moreover have "merged (bytes fa3)"
      using sp(6) k unfolding st(3) merged_def block_at_upd by auto
    moreover have "card (free_set (bytes fa3)) = fa_free_frames fa - 2 ^ k"
      unfolding free3 n using run by (simp add: card_Diff_subset)
    ultimately have "frames_inv ?fa"
      using st(2,5) sp(4) u(5) span3 by (simp add: frames_inv_def count_only same_span_def)
    moreover have "taken_at (bytes ?fa) q i \<longleftrightarrow> taken_at ?mt q i \<or> q = p \<and> i = k" for q i
      using byte_unique(2) [of ?mt p j] found(4) k by (auto simp: count_only st(3) block_at_upd sp(9) u(3))
    moreover have "2 ^ k dvd p"
      using sp(7) by (simp add: hole_def)
    ultimately show ?thesis
      using step run span3 free3 by (auto simp: count_only)
  qed
qed

end
