(* ===== verification/Frame_Regions.thy ===== *)
theory Frame_Regions
  imports Frame_Alloc
begin

text \<open>
  \<open>free\<close>, \<open>add_region\<close> and \<open>new\<close> of the page allocator: when they return, and what they do to the free frames
  and to the blocks that are out.
\<close>

unbundle bit_operations_syntax

section \<open>Freeing\<close>

definition taken_set :: "(nat \<Rightarrow> nat) \<Rightarrow> nat set" where
  "taken_set mt = {x. \<exists>p k. taken_at mt p k \<and> x \<in> span p k}"

lemma frame_free_ok:
  assumes inv: "frames_inv fa" and t: "taken_at (bytes fa) p k"
  shows "\<exists>fa'. frame_free fa (p * page) k = Some fa' \<and> frames_inv fa' \<and> same_span fa fa'
    \<and> free_set (bytes fa') = free_set (bytes fa) \<union> span p k
    \<and> (\<forall>q j. taken_at (bytes fa') q j \<longleftrightarrow> taken_at (bytes fa) q j \<and> \<not> (q = p \<and> j = k))"
proof -
  let ?mt = "bytes fa" and ?b = "fa_base_pfn fa" and ?l = "fa_limit fa"
  have ok: "fa_ok fa" "blocks_ok ?b ?l ?mt" "merged ?mt" and n: "fa_free_frames fa = card (free_set ?mt)"
    using inv by (simp_all add: frames_inv_def)
  have blk: "block_at ?mt p k" and byte: "?mt p = ALLOCATED OR k" "k \<le> MAX_ORDER"
    using t by (auto simp: block_at_def taken_at_def)
  have p: "2 ^ k dvd p" "?b \<le> p" "p + 2 ^ k \<le> ?l" "p < ?l"
    using ok(2) blk bytes_in_range [of fa p] byte_unique(3) [OF blk] by (auto simp: blocks_ok_def)
  note c = clear_block [OF ok(2) blk]
  have "?mt p > ORDERS"
    using byte allocated_order by (simp add: ORDERS_def MAX_ORDER_def)
  then obtain fa1 where s: "set_meta fa p NOT_FREE = Some fa1" "fa_ok fa1" "bytes fa1 = ?mt(p := 0)" "same_span fa fa1"
      "fa_free_frames fa1 = fa_free_frames fa"
    using set_meta_ok [OF ok(1) p(2,4), of 0] by (auto simp: NOT_FREE_def)
  have span1: "fa_base_pfn fa1 = ?b" "fa_limit fa1 = ?l"
    using s(4) by (simp_all add: same_span_def)
  have free1: "free_set (bytes fa1) = free_set ?mt"
    unfolding s(3) by (rule free_set_clear(3) [OF ok(2) t])
  have "frames_inv fa1"
    using s(2,5) c(1) merged_clear [OF ok(3), of p] n free1 span1 by (simp add: frames_inv_def s(3))
  then obtain fa' where f: "free_block fa1 p k = Some fa'" "frames_inv fa'" "same_span fa1 fa'"
      "free_set (bytes fa') = free_set ?mt \<union> span p k" "taken_at (bytes fa') = taken_at (bytes fa1)"
    using free_block_ok [of fa1 p k] c(2) free1 by (auto simp: span1 s(3))
  have "(p * page) mod (page * 2 ^ k) = 0"
    using p(1) by (simp add: mult.commute [of p] mod_eq_0_iff_dvd)
  then have "frame_free fa (p * page) k = Some fa'"
    using byte p s(1) f(1)
    by (simp add: frame_free_def frame_in_range_def meta_at_bytes fa_limit_def [symmetric])
  moreover have "taken_at (bytes fa') q j \<longleftrightarrow> taken_at ?mt q j \<and> \<not> (q = p \<and> j = k)" for q j
    using byte_unique(1) [OF blk, of j] by (auto simp: f(5) s(3) block_at_upd block_at_def)
  ultimately show ?thesis
    using f s(4) same_span_trans by blast
qed

lemma frame_free_refuses:
  assumes "frames_inv fa" and no: "\<And>p. pa = p * page \<Longrightarrow> \<not> taken_at (bytes fa) p k"
  shows "frame_free fa pa k = None"
proof (rule ccontr)
  assume "frame_free fa pa k \<noteq> None"
  then have k: "k \<le> MAX_ORDER" "pa mod (page * 2 ^ k) = 0" and "meta_at fa (pa div page) = Some (ALLOCATED OR k)"
    by (auto simp: frame_free_def ensure_eq_Some Let_def bind_Some_iff)
  then have "taken_at (bytes fa) (pa div page) k"
    by (auto simp: taken_at_def meta_at_bytes split: if_splits)
  moreover have "pa = pa div page * page"
    using k(2) by (metis dvd_div_mult_self dvd_mult_left mod_0_imp_dvd)
  ultimately show False
    using no by blast
qed

section \<open>Regions\<close>

lemma slice_bytes:
  assumes "fa_base_pfn fa \<le> p" and "p + 2 ^ k \<le> fa_limit fa"
  shows "set (take (2 ^ k) (drop (p - fa_base_pfn fa) (fa_meta fa))) = bytes fa ` span p k"
proof -
  let ?xs = "take (2 ^ k) (drop (p - fa_base_pfn fa) (fa_meta fa))"
  have len: "length ?xs = 2 ^ k"
    using assms by (simp add: fa_limit_def)
  have at: "?xs ! i = bytes fa (p + i)" if "i < 2 ^ k" for i
    using that assms by (simp add: bytes_def fa_limit_def)
  have "set ?xs = (!) ?xs ` {..<2 ^ k}"
    using nth_image [of "length ?xs" ?xs] unfolding len lessThan_atLeast0 by (simp only: take_all len order_refl)
  also have "\<dots> = (\<lambda>i. bytes fa (p + i)) ` {..<2 ^ k}"
    using at by (intro image_cong) simp_all
  also have "\<dots> = bytes fa ` (\<lambda>i. p + i) ` {..<2 ^ k}"
    by (simp add: image_image)
  also have "(\<lambda>i. p + i) ` {..<2 ^ k} = span p k"
    by (simp add: span_def lessThan_atLeast0 add.commute)
  finally show ?thesis .
qed

lemma covers_eq:
  assumes ok: "blocks_ok (fa_base_pfn fa) l (bytes fa)" and p: "fa_base_pfn fa \<le> p" "p < fa_limit fa"
  shows "any_head fa p (\<lambda>o' b. b = o' + 1 \<or> b = ALLOCATED OR o') [0..<ORDERS] = Some (\<exists>q j. block_at (bytes fa) q j \<and> p \<in> span q j)"
proof -
  let ?q = "\<lambda>j. p div 2 ^ j * 2 ^ j"
  have orders: "set [0..<ORDERS] = {..MAX_ORDER}"
    by (auto simp: ORDERS_def)
  have "(\<exists>j\<in>set [0..<ORDERS]. fa_base_pfn fa \<le> ?q j \<and> (bytes fa (?q j) = j + 1 \<or> bytes fa (?q j) = ALLOCATED OR j))
      \<longleftrightarrow> (\<exists>j\<le>MAX_ORDER. fa_base_pfn fa \<le> ?q j \<and> block_at (bytes fa) (?q j) j)"
    unfolding orders block_at_def free_at_def taken_at_def by auto
  also have "\<dots> \<longleftrightarrow> (\<exists>q j. block_at (bytes fa) q j \<and> p \<in> span q j)"
  proof
    assume "\<exists>j\<le>MAX_ORDER. fa_base_pfn fa \<le> ?q j \<and> block_at (bytes fa) (?q j) j"
    then show "\<exists>q j. block_at (bytes fa) q j \<and> p \<in> span q j"
      using round_in_span by blast
  next
    assume "\<exists>q j. block_at (bytes fa) q j \<and> p \<in> span q j"
    then obtain q j where q: "block_at (bytes fa) q j" "p \<in> span q j"
      by blast
    then have "2 ^ j dvd q" "fa_base_pfn fa \<le> q" "j \<le> MAX_ORDER"
      using ok by (auto simp: blocks_ok_def block_at_def free_at_def taken_at_def)
    then show "\<exists>j\<le>MAX_ORDER. fa_base_pfn fa \<le> ?q j \<and> block_at (bytes fa) (?q j) j"
      using q aligned_cover [of j q p] by auto
  qed
  finally show ?thesis
    using any_head_eq [OF p] by simp
qed

lemma overlaps_a_block_eq:
  assumes ok: "blocks_ok (fa_base_pfn fa) (fa_limit fa) (bytes fa)"
    and k: "k \<le> MAX_ORDER" "2 ^ k dvd p" "fa_base_pfn fa \<le> p" "p + 2 ^ k \<le> fa_limit fa"
  shows "overlaps_a_block fa p k = Some (\<not> hole (fa_base_pfn fa) (fa_limit fa) (bytes fa) p k)"
proof -
  let ?mt = "bytes fa"
  have lt: "p < fa_limit fa"
    using k(4) zero_less_power [of "2 :: nat" k] by linarith
  have top: "p + 2 ^ k - fa_base_pfn fa \<le> length (fa_meta fa)"
    using k(4) by (simp add: fa_limit_def)
  have "(\<exists>q j. block_at ?mt q j \<and> p \<in> span q j) \<or> (\<exists>q\<in>span p k. ?mt q \<noteq> 0) \<longleftrightarrow> (\<exists>q j. block_at ?mt q j \<and> span q j \<inter> span p k \<noteq> {})"
  proof
    assume "(\<exists>q j. block_at ?mt q j \<and> p \<in> span q j) \<or> (\<exists>q\<in>span p k. ?mt q \<noteq> 0)"
    then show "\<exists>q j. block_at ?mt q j \<and> span q j \<inter> span p k \<noteq> {}"
      using ok span_first unfolding blocks_ok_def by blast
  next
    assume "\<exists>q j. block_at ?mt q j \<and> span q j \<inter> span p k \<noteq> {}"
    then obtain q j x where q: "block_at ?mt q j" "x \<in> span q j" "x \<in> span p k"
      by blast
    then have dq: "2 ^ j dvd q"
      using ok by (auto simp: blocks_ok_def)
    show "(\<exists>q j. block_at ?mt q j \<and> p \<in> span q j) \<or> (\<exists>q\<in>span p k. ?mt q \<noteq> 0)"
    proof (cases "k \<le> j")
      case True
      then show ?thesis
        using aligned_nested [OF k(2) dq True q(3,2)] q(1) span_first by blast
    next
      case False
      then have "q \<in> span p k"
        using aligned_nested [OF dq k(2) _ q(2,3)] span_first [of q j] by auto
      then show ?thesis
        using byte_unique(3) [OF q(1)] by blast
    qed
  qed
  also have "\<dots> \<longleftrightarrow> \<not> hole (fa_base_pfn fa) (fa_limit fa) ?mt p k"
    using k by (simp add: hole_def)
  finally show ?thesis
    using k(3) slice_bytes [OF k(3,4)] covers_eq [OF ok k(3) lt] top
    by (cases "\<exists>q j. block_at ?mt q j \<and> p \<in> span q j")
      (simp_all add: overlaps_a_block_def NOT_FREE_def Let_def)
qed

lemma region_order_fits:
  assumes "p < l"
  shows "2 ^ region_order p l k dvd p \<and> p + 2 ^ region_order p l k \<le> l \<and> region_order p l k \<le> k"
proof (induction k)
  case 0
  then show ?case
    using assms by (simp add: region_order.simps [of _ _ 0])
next
  case (Suc k)
  then show ?case
    by (auto simp: region_order.simps [of _ _ "Suc k"] not_less mod_eq_0_iff_dvd)
qed

lemma frames_apart:
  assumes "blocks_ok b l mt"
  shows "taken_at mt p k \<Longrightarrow> free_set mt \<inter> span p k = {}"
  using assms byte_unique(2) unfolding blocks_ok_def free_set_def block_at_def by blast

lemma hole_iff:
  assumes "k \<le> MAX_ORDER" "2 ^ k dvd p" "b \<le> p" "p + 2 ^ k \<le> l"
  shows "hole b l mt p k \<longleftrightarrow> span p k \<inter> (free_set mt \<union> taken_set mt) = {}"
  using assms unfolding hole_def free_set_def taken_set_def block_at_def by blast

lemma add_frames_ok:
  assumes "frames_inv fa" and "fa_base_pfn fa \<le> f" and "l \<le> fa_limit fa"
  shows "if {f..<l} \<inter> (free_set (bytes fa) \<union> taken_set (bytes fa)) = {}
    then \<exists>fa'. add_frames fa f l = Some fa' \<and> frames_inv fa' \<and> same_span fa fa'
      \<and> free_set (bytes fa') = free_set (bytes fa) \<union> {f..<l} \<and> taken_at (bytes fa') = taken_at (bytes fa)
    else add_frames fa f l = None"
  using assms
proof (induction "l - f" arbitrary: fa f rule: less_induct)
  case less
  let ?mt = "bytes fa" and ?k = "region_order f l MAX_ORDER"
  have ok: "blocks_ok (fa_base_pfn fa) (fa_limit fa) ?mt"
    using less.prems(1) by (simp add: frames_inv_def)
  show ?case
  proof (cases "f < l")
    case False
    then show ?thesis
      using less.prems by (simp add: add_frames.simps [of fa])
  next
    case True
    have k: "2 ^ ?k dvd f" "f + 2 ^ ?k \<le> l" "?k \<le> MAX_ORDER"
      using region_order_fits [OF True] by blast+
    have cut: "{f..<l} = span f ?k \<union> {f + 2 ^ ?k..<l}"
      using k(2) by (auto simp: span_def)
    have top: "f + 2 ^ ?k \<le> fa_limit fa"
      using k(2) less.prems(3) by simp
    note twice = overlaps_a_block_eq [OF ok k(3,1) less.prems(2) top]
    note free = hole_iff [OF k(3,1) less.prems(2) top, of ?mt]
    show ?thesis
    proof (cases "hole (fa_base_pfn fa) (fa_limit fa) ?mt f ?k")
      case False
      then have "{f..<l} \<inter> (free_set ?mt \<union> taken_set ?mt) \<noteq> {}"
        using free cut by blast
      then show ?thesis
        using True twice False by (simp add: add_frames.simps [of fa])
    next
      case hole: True
      obtain fa1 where f1: "free_block fa f ?k = Some fa1" "frames_inv fa1" "same_span fa fa1"
          "free_set (bytes fa1) = free_set ?mt \<union> span f ?k" "taken_at (bytes fa1) = taken_at ?mt"
        using free_block_ok [OF less.prems(1) hole] by blast
      have step: "add_frames fa f l = add_frames fa1 (f + 2 ^ ?k) l"
        using True twice hole f1(1) by (simp add: add_frames.simps [of fa])
      have taken: "taken_set (bytes fa1) = taken_set ?mt"
        by (simp add: taken_set_def f1(5))
      have "span f ?k \<inter> {f + 2 ^ ?k..<l} = {}"
        by (auto simp: span_def)
      then have same: "{f + 2 ^ ?k..<l} \<inter> (free_set (bytes fa1) \<union> taken_set (bytes fa1)) = {} \<longleftrightarrow> {f..<l} \<inter> (free_set ?mt \<union> taken_set ?mt) = {}"
        using hole free cut unfolding taken f1(4) by blast
      have less': "l - (f + 2 ^ ?k) < l - f"
        using True zero_less_power [of "2 :: nat" ?k] by linarith
      have span1: "fa_base_pfn fa1 \<le> f + 2 ^ ?k" "l \<le> fa_limit fa1"
        using f1(3) less.prems(2,3) by (simp_all add: same_span_def)
      have un: "free_set ?mt \<union> {f..<l} = free_set (bytes fa1) \<union> {f + 2 ^ ?k..<l}"
        unfolding cut f1(4) by blast
      show ?thesis
        using less.hyps [OF less' f1(2) span1] f1(3) unfolding same step f1(5) un by (auto simp: same_span_def)
    qed
  qed
qed

text \<open>The whole frames of a range of addresses.\<close>

definition region_frames :: "nat \<Rightarrow> nat \<Rightarrow> nat set" where
  "region_frames base limit = {x. base \<le> x * page \<and> (x + 1) * page \<le> limit}"

lemma region_frames_eq: "region_frames base limit = {(base + page - 1) div page..<limit div page}"
proof -
  have "0 < page"
    by simp
  then have "base \<le> x * page \<longleftrightarrow> (base + page - 1) div page \<le> x" for x
    using div_less_iff_less_mult [OF \<open>0 < page\<close>, of "base + page - 1" "x + 1"] \<open>0 < page\<close>
    unfolding add_mult_distrib by linarith
  moreover have "(x + 1) * page \<le> limit \<longleftrightarrow> x < limit div page" for x
    using less_eq_div_iff_mult_less_eq [OF \<open>0 < page\<close>, of "x + 1" limit] by linarith
  ultimately show ?thesis
    by (auto simp: region_frames_def)
qed

lemma add_region_ok:
  assumes inv: "frames_inv fa"
  shows "if region_frames base limit \<subseteq> {fa_base_pfn fa..<fa_limit fa} - (free_set (bytes fa) \<union> taken_set (bytes fa))
    then \<exists>fa'. add_region fa base limit = Some fa' \<and> frames_inv fa' \<and> same_span fa fa'
      \<and> free_set (bytes fa') = free_set (bytes fa) \<union> region_frames base limit \<and> taken_at (bytes fa') = taken_at (bytes fa)
    else add_region fa base limit = None"
proof -
  let ?f = "(base + page - 1) div page" and ?l = "limit div page" and ?used = "free_set (bytes fa) \<union> taken_set (bytes fa)"
  note reg = region_frames_eq [of base limit]
  show ?thesis
  proof (cases "?f < ?l")
    case False
    then have "add_region fa base limit = Some fa" "region_frames base limit = {}"
      by (simp_all add: add_region_def reg)
    then show ?thesis
      using inv by simp
  next
    case True
    let ?in = "fa_base_pfn fa \<le> ?f \<and> ?l \<le> fa_limit fa"
    have iff: "region_frames base limit \<subseteq> {fa_base_pfn fa..<fa_limit fa} - ?used \<longleftrightarrow> ?in \<and> {?f..<?l} \<inter> ?used = {}"
      using ivl_subset [of ?f ?l "fa_base_pfn fa" "fa_limit fa"] True unfolding reg Diff_eq Int_subset_iff disjoint_eq_subset_Compl
      by (metis not_le)
    have step: "add_region fa base limit = (if ?in then add_frames fa ?f ?l else None)"
      using True by (simp add: add_region_def fa_limit_def ensure_def Let_def)
    show ?thesis
    proof (cases ?in)
      case True
      then show ?thesis
        using add_frames_ok [OF inv conjunct1 [OF True] conjunct2 [OF True]] unfolding iff step unfolding reg
        by (simp only: True if_True simp_thms)
    next
      case False
      then show ?thesis
        unfolding iff step by metis
    qed
  qed
qed

section \<open>Memory of others\<close>

lemma others_write_ok:
  assumes inv: "frames_inv fa" and same: "\<And>x i. x \<in> free_set (bytes fa) \<Longrightarrow> i < page \<Longrightarrow> mem (x * page + i) = fa_mem fa (x * page + i)"
  shows "frames_inv (fa\<lparr>fa_mem := mem\<rparr>)"
proof -
  let ?fa = "fa\<lparr>fa_mem := mem\<rparr>"
  have rest: "bytes ?fa = bytes fa" "fa_limit ?fa = fa_limit fa"
    by (simp_all add: bytes_def fa_limit_def fun_eq_iff)
  obtain ls where ls: "fa_lists fa ls"
    using inv by (auto simp: frames_inv_def fa_ok_def)
  have "seg mem frame_NIL (ls k) frame_NIL" if k: "k \<le> MAX_ORDER" for k
  proof (rule seg_cong)
    show "seg (fa_mem fa) frame_NIL (ls k) frame_NIL"
      using ls k by (simp add: fa_lists_def)
  next
    fix x assume "x \<in> set (ls k)"
    then have "free_at (bytes fa) x k"
      using fa_lists_nodes(4) [OF ls k] k by (simp add: free_at_def)
    then have "x \<in> free_set (bytes fa)"
      unfolding free_set_def using span_first by blast
    then show "mem (x * page) = fa_mem fa (x * page) \<and> mem (x * page + 8) = fa_mem fa (x * page + 8)"
      using same [of x 0] same [of x 8] by (simp add: PAGE_SHIFT_def)
  qed
  then have "fa_lists ?fa ls"
    using ls rest by (simp add: fa_lists_def)
  then show ?thesis
    using inv rest by (auto simp: frames_inv_def fa_ok_def)
qed

lemma frames_new_ok:
  assumes "frames_new mem base meta = Some fa" and "base < 2 ^ 64" and "length meta < 2 ^ 63"
  shows "frames_inv fa" and "free_set (bytes fa) = {}" and "\<not> taken_at (bytes fa) p k"
proof -
  have fa: "fa = \<lparr>fa_mem = mem, fa_base_pfn = base div page, fa_meta = replicate (length meta) NOT_FREE,
       fa_heads = replicate ORDERS frame_NIL, fa_free_frames = 0\<rparr>"
    using assms(1) by (simp add: frames_new_def bind_Some_iff ensure_eq_Some)
  have z: "bytes fa = (\<lambda>_. 0)"
    by (auto simp: bytes_def fa fa_limit_def NOT_FREE_def fun_eq_iff)
  have "base div page \<le> 2 ^ 52"
    using assms(2) by (simp add: PAGE_SHIFT_def)
  then have "fa_lists fa (\<lambda>_. [])"
    using assms(3) unfolding fa_lists_def z by (simp add: fa fa_limit_def frame_NIL_def ORDERS_def del: replicate_Suc)
  then have "fa_ok fa"
    by (auto simp: fa_ok_def)
  then show "frames_inv fa"
    unfolding frames_inv_def z by (auto simp: blocks_ok_def merged_def free_set_def fa)
  show "free_set (bytes fa) = {}" "\<not> taken_at (bytes fa) p k"
    unfolding z by (simp_all add: free_set_def)
qed

end
