(* ===== verification/Frame_Pool.thy ===== *)
theory Frame_Pool
  imports Frame_Regions
begin

text \<open>
  The page allocator as its clients see it, a pool of frames: the contract as a locale, that the calls of
  \<open>frames.rs\<close> keep it, and its properties over any history of calls and of writes to frames that are out.
\<close>

unbundle bit_operations_syntax

section \<open>The allocator as a pool of frames\<close>

text \<open>\<open>n\<close> pages taken one after another, as a client that needs that many does.\<close>

primrec take_pages :: "('s \<Rightarrow> nat \<Rightarrow> (nat option \<times> 's) option) \<Rightarrow> nat \<Rightarrow> 's \<Rightarrow> (nat option list \<times> 's) option" where
  "take_pages alloc 0 s = Some ([], s)"
| "take_pages alloc (Suc n) s = do {
     (pa, s) \<leftarrow> alloc s 0;
     (pas, s) \<leftarrow> take_pages alloc n s;
     Some (pa # pas, s) }"

text \<open>
  What clients rely on: a block comes out of the free frames when an aligned run of them is there, and goes
  back to them.
\<close>

locale frame_pool =
  fixes pool :: "'s \<Rightarrow> bool"
    and free_of :: "'s \<Rightarrow> nat set"
    and taken_of :: "'s \<Rightarrow> nat \<Rightarrow> nat \<Rightarrow> bool"
    and alloc :: "'s \<Rightarrow> nat \<Rightarrow> (nat option \<times> 's) option"
    and release :: "'s \<Rightarrow> nat \<Rightarrow> nat \<Rightarrow> 's option"
  assumes finite_free: "pool s \<Longrightarrow> finite (free_of s)"
    and taken_free: "pool s \<Longrightarrow> taken_of s p k \<Longrightarrow> free_of s \<inter> span p k = {}"
    and alloc_law: "pool s \<Longrightarrow> k \<le> MAX_ORDER \<Longrightarrow>
      (\<exists>p s'. alloc s k = Some (Some (p * page), s') \<and> 2 ^ k dvd p \<and> span p k \<subseteq> free_of s \<and> pool s'
        \<and> free_of s' = free_of s - span p k \<and> (\<forall>q j. taken_of s' q j \<longleftrightarrow> taken_of s q j \<or> q = p \<and> j = k))
      \<or> alloc s k = Some (None, s) \<and> (\<forall>p. 2 ^ k dvd p \<longrightarrow> \<not> span p k \<subseteq> free_of s)"
    and release_law: "pool s \<Longrightarrow> taken_of s p k \<Longrightarrow>
      \<exists>s'. release s (p * page) k = Some s' \<and> pool s' \<and> free_of s' = free_of s \<union> span p k
        \<and> (\<forall>q j. taken_of s' q j \<longleftrightarrow> taken_of s q j \<and> \<not> (q = p \<and> j = k))"
begin

lemma alloc_release:
  assumes s: "pool s" and k: "k \<le> MAX_ORDER" and a: "alloc s k = Some (Some pa, s1)"
  shows "\<exists>s2. release s1 pa k = Some s2 \<and> pool s2 \<and> free_of s2 = free_of s \<and> taken_of s2 = taken_of s"
proof -
  obtain p where p: "pa = p * page" "span p k \<subseteq> free_of s" "pool s1" "free_of s1 = free_of s - span p k"
      "\<And>q j. taken_of s1 q j \<longleftrightarrow> taken_of s q j \<or> q = p \<and> j = k"
    using alloc_law [OF s k] a by auto
  then obtain s2 where r: "release s1 pa k = Some s2" "pool s2" "free_of s2 = free_of s1 \<union> span p k"
      "\<And>q j. taken_of s2 q j \<longleftrightarrow> taken_of s1 q j \<and> \<not> (q = p \<and> j = k)"
    using release_law [OF p(3), of p k] by auto
  have "\<not> taken_of s p k"
    using taken_free [OF s, of p k] p(2) span_first [of p k] by blast
  then have "taken_of s2 = taken_of s"
    using r(4) p(5) by (auto simp: fun_eq_iff)
  then show ?thesis
    using r p(2,4) by blast
qed

lemma alloc_page:
  assumes s: "pool s"
  shows "if free_of s = {} then alloc s 0 = Some (None, s)
    else \<exists>x s'. alloc s 0 = Some (Some (x * page), s') \<and> x \<in> free_of s \<and> pool s' \<and> free_of s' = free_of s - {x}"
proof -
  have one: "span p 0 = {p}" for p
    by (auto simp: span_def)
  show ?thesis
    using alloc_law [OF s, of 0] by (auto simp: one)
qed

lemma take_all:
  assumes "pool s" and "card (free_of s) = n"
  shows "\<exists>xs s'. take_pages alloc n s = Some (map (\<lambda>x. Some (x * page)) xs, s') \<and> distinct xs \<and> set xs = free_of s
    \<and> alloc s' 0 = Some (None, s')"
  using assms
proof (induction n arbitrary: s)
  case 0
  then have "free_of s = {}"
    using finite_free by simp
  then show ?case
    using alloc_page [OF 0(1)] by simp
next
  case (Suc n)
  then have "free_of s \<noteq> {}"
    by auto
  then obtain x s1 where x: "alloc s 0 = Some (Some (x * page), s1)" "x \<in> free_of s" "pool s1" "free_of s1 = free_of s - {x}"
    using alloc_page [OF Suc.prems(1)] by auto
  have "card (free_of s1) = n"
    using Suc.prems x(2,4) finite_free by simp
  then obtain xs s' where xs: "take_pages alloc n s1 = Some (map (\<lambda>x. Some (x * page)) xs, s')" "distinct xs" "set xs = free_of s1"
      "alloc s' 0 = Some (None, s')"
    using Suc.IH [OF x(3)] by blast
  show ?case
    by (rule exI [of _ "x # xs"]) (use x xs in \<open>auto simp: insert_absorb\<close>)
qed

end

interpretation fp: frame_pool frames_inv "\<lambda>fa. free_set (bytes fa)" "\<lambda>fa. taken_at (bytes fa)" frame_alloc frame_free
proof unfold_locales
  fix fa p k
  assume inv: "frames_inv fa"
  then have ok: "blocks_ok (fa_base_pfn fa) (fa_limit fa) (bytes fa)"
    by (simp add: frames_inv_def)
  show "finite (free_set (bytes fa))"
    by (rule finite_free_set [OF ok])
  show "free_set (bytes fa) \<inter> span p k = {}" if "taken_at (bytes fa) p k"
    by (rule frames_apart [OF ok that])
  show "\<exists>fa'. frame_free fa (p * page) k = Some fa' \<and> frames_inv fa' \<and> free_set (bytes fa') = free_set (bytes fa) \<union> span p k
      \<and> (\<forall>q j. taken_at (bytes fa') q j \<longleftrightarrow> taken_at (bytes fa) q j \<and> \<not> (q = p \<and> j = k))" if "taken_at (bytes fa) p k"
    using frame_free_ok [OF inv that] by blast
next
  fix fa k
  assume "frames_inv fa" "k \<le> MAX_ORDER"
  from frame_alloc_ok [OF this]
  show "(\<exists>p fa'. frame_alloc fa k = Some (Some (p * page), fa') \<and> 2 ^ k dvd p \<and> span p k \<subseteq> free_set (bytes fa) \<and> frames_inv fa'
        \<and> free_set (bytes fa') = free_set (bytes fa) - span p k \<and> (\<forall>q j. taken_at (bytes fa') q j \<longleftrightarrow> taken_at (bytes fa) q j \<or> q = p \<and> j = k))
      \<or> frame_alloc fa k = Some (None, fa) \<and> (\<forall>p. 2 ^ k dvd p \<longrightarrow> \<not> span p k \<subseteq> free_set (bytes fa))"
    by blast
qed

section \<open>Histories\<close>

text \<open>
  What calls make of the allocator, with the frames that are free and the blocks that are out, by address
  and order. Between calls the owners of all other frames write to them as they like.
\<close>

inductive frames_reach :: "frame_allocator \<Rightarrow> nat set \<Rightarrow> (nat \<times> nat) set \<Rightarrow> bool" where
  new: "frames_new mem base meta = Some fa \<Longrightarrow> base < 2 ^ 64 \<Longrightarrow> length meta < 2 ^ 63 \<Longrightarrow> frames_reach fa {} {}"
| add: "frames_reach fa F A \<Longrightarrow> limit < 2 ^ 64 \<Longrightarrow> add_region fa base limit = Some fa' \<Longrightarrow>
    frames_reach fa' (F \<union> region_frames base limit) A"
| alloc: "frames_reach fa F A \<Longrightarrow> frame_alloc fa k = Some (Some pa, fa') \<Longrightarrow>
    frames_reach fa' (F - span (pa div page) k) (insert (pa, k) A)"
| full: "frames_reach fa F A \<Longrightarrow> frame_alloc fa k = Some (None, fa') \<Longrightarrow> frames_reach fa' F A"
| free: "frames_reach fa F A \<Longrightarrow> frame_free fa pa k = Some fa' \<Longrightarrow>
    frames_reach fa' (F \<union> span (pa div page) k) (A - {(pa, k)})"
| others: "frames_reach fa F A \<Longrightarrow> (\<And>x i. x \<in> F \<Longrightarrow> i < page \<Longrightarrow> mem (x * page + i) = fa_mem fa (x * page + i)) \<Longrightarrow>
    frames_reach (fa\<lparr>fa_mem := mem\<rparr>) F A"

definition blocks_out :: "frame_allocator \<Rightarrow> (nat \<times> nat) set" where
  "blocks_out fa = {(p * page, k) | p k. taken_at (bytes fa) p k}"

lemma blocks_out_iff: "(pa, k) \<in> blocks_out fa \<longleftrightarrow> pa = pa div page * page \<and> taken_at (bytes fa) (pa div page) k"
  by (auto simp: blocks_out_def)

lemma frame_alloc_big: "MAX_ORDER < k \<Longrightarrow> frame_alloc fa k = Some (None, fa)"
  by (simp add: frame_alloc_def)

lemma frames_reach_inv:
  assumes "frames_reach fa F A"
  shows "frames_inv fa \<and> F = free_set (bytes fa) \<and> A = blocks_out fa"
  using assms
proof (induction rule: frames_reach.induct)
  case (new mem base meta fa)
  then show ?case
    using frames_new_ok [OF new] by (auto simp: blocks_out_def)
next
  case (add fa F A limit base fa')
  then show ?case
    using add_region_ok [of fa base limit] by (auto simp: blocks_out_def split: if_splits)
next
  case (alloc fa F A k pa fa')
  then have inv: "frames_inv fa" and k: "k \<le> MAX_ORDER"
    using frame_alloc_big [of k fa] by (auto simp: not_le [symmetric])
  obtain p where p: "pa = p * page" "frames_inv fa'" "free_set (bytes fa') = free_set (bytes fa) - span p k"
      "\<And>q j. taken_at (bytes fa') q j \<longleftrightarrow> taken_at (bytes fa) q j \<or> q = p \<and> j = k"
    using fp.alloc_law [OF inv k] alloc.hyps(2) by auto
  then show ?case
    using alloc.IH by (auto simp: blocks_out_def)
next
  case (full fa F A k fa')
  then have "fa' = fa"
    using frame_alloc_big [of k fa] fp.alloc_law [of fa k] by (cases "k \<le> MAX_ORDER") auto
  then show ?case
    using full.IH by simp
next
  case (free fa F A pa k fa')
  then have inv: "frames_inv fa" and "\<exists>p. pa = p * page \<and> taken_at (bytes fa) p k"
    using frame_free_refuses [of fa pa k] by auto
  then obtain p where p: "pa = p * page" "taken_at (bytes fa) p k"
    by blast
  show ?case
    using fp.release_law [OF inv p(2)] p(1) free by (auto simp: blocks_out_def)
next
  case (others fa F A mem)
  have "bytes (fa\<lparr>fa_mem := mem\<rparr>) = bytes fa"
    by (simp add: bytes_def fa_limit_def fun_eq_iff)
  then show ?case
    using others others_write_ok [of fa mem] by (simp add: blocks_out_def)
qed

section \<open>Properties\<close>

definition frames_of :: "(nat \<times> nat) set \<Rightarrow> nat set" where
  "frames_of A = (\<Union>(pa, k)\<in>A. span (pa div page) k)"

lemma frames_of_out: "frames_of (blocks_out fa) = taken_set (bytes fa)"
  by (force simp: frames_of_def blocks_out_def taken_set_def)

text \<open>States for the witnesses: four frames from address 0 on, all free, and handed out as one block.\<close>

definition four_frames :: "frame_allocator option" where
  "four_frames = do {
     fa \<leftarrow> frames_new (\<lambda>_. 0) 0 (replicate 4 7);
     add_region fa 0 16484 }"

lemma four_frames_reach:
  obtains fa where "four_frames = Some fa" "frames_reach fa {0..<4} {}"
proof -
  obtain fa0 where new: "frames_new (\<lambda>_. 0) 0 (replicate 4 7) = Some fa0" "fa_base_pfn fa0 = 0" "fa_limit fa0 = 4"
    by (simp add: frames_new_def fa_limit_def)
  have reach: "frames_reach fa0 {} {}"
    by (rule frames_reach.new [OF new(1)]) simp_all
  have four: "region_frames 0 16484 = {0..<4}"
    by (simp add: region_frames_eq PAGE_SHIFT_def)
  have "frames_inv fa0" "free_set (bytes fa0) = {}" "blocks_out fa0 = {}"
    using frames_reach_inv [OF reach] by simp_all
  then obtain fa where add: "add_region fa0 0 16484 = Some fa"
    using add_region_ok [of fa0 0 16484] by (auto simp: four new(2,3) frames_of_out [symmetric] frames_of_def split: if_splits)
  have "frames_reach fa {0..<4} {}"
    using frames_reach.add [OF reach _ add] by (simp add: four)
  then show thesis
    using that new(1) add by (simp add: four_frames_def)
qed

definition one_block :: "(nat option \<times> frame_allocator) option" where
  "one_block = do {
     fa \<leftarrow> four_frames;
     frame_alloc fa 2 }"

lemma four_run: "2 ^ 2 dvd p \<Longrightarrow> span p 2 \<subseteq> {0..<4} \<Longrightarrow> p = 0"
  using span_last [of p 2] by (auto simp: span_def)

lemma one_block_reach:
  obtains fa where "one_block = Some (Some 0, fa)" "frames_reach fa {} {(0, 2)}"
proof -
  obtain fa0 where fa0: "four_frames = Some fa0" "frames_reach fa0 {0..<4} {}"
    by (rule four_frames_reach)
  have inv: "frames_inv fa0" "free_set (bytes fa0) = {0..<4}"
    using frames_reach_inv [OF fa0(2)] by simp_all
  have "span 0 2 \<subseteq> {0..<4}"
    by (simp add: span_def)
  then obtain p fa where a: "frame_alloc fa0 2 = Some (Some (p * page), fa)" "2 ^ 2 dvd p" "span p 2 \<subseteq> {0..<4}"
    using fp.alloc_law [OF inv(1), of 2] by (auto simp: inv(2) MAX_ORDER_def)
  then have a0: "frame_alloc fa0 2 = Some (Some 0, fa)"
    using four_run by auto
  have "frames_reach fa ({0..<4} - span (0 div page) 2) (insert (0, 2) {})"
    by (rule frames_reach.alloc [OF fa0(2) a0])
  then have "frames_reach fa {} {(0, 2)}"
    by (simp add: span_def)
  moreover have "one_block = Some (Some 0, fa)"
    by (simp add: one_block_def fa0(1) a0)
  ultimately show thesis
    using that by blast
qed

text \<open>
  C36. An allocation is exact after any history. It fails only for an order above the largest or when no
  aligned run of that many free frames is left, and then it changes nothing; otherwise it gives an aligned
  block of free frames that shares none with a block handed out before. The free count is the number of
  free frames. Owners may write to their frames at any time.
\<close>

theorem frames_alloc_exact:
  assumes "frames_reach fa F A"
  shows "fa_free_frames fa = card F \<and>
    (case frame_alloc fa k of
       None \<Rightarrow> False
     | Some (None, fa') \<Rightarrow> fa' = fa \<and> (k > MAX_ORDER \<or> (\<forall>p. 2 ^ k dvd p \<longrightarrow> \<not> span p k \<subseteq> F))
     | Some (Some pa, fa') \<Rightarrow> k \<le> MAX_ORDER \<and> pa mod (page * 2 ^ k) = 0 \<and> span (pa div page) k \<subseteq> F
         \<and> span (pa div page) k \<inter> frames_of A = {} \<and> fa_free_frames fa' = fa_free_frames fa - 2 ^ k)"
proof -
  note inv = frames_reach_inv [OF assms]
  have ok: "blocks_ok (fa_base_pfn fa) (fa_limit fa) (bytes fa)" and n: "fa_free_frames fa = card F"
    using inv by (simp_all add: frames_inv_def)
  have apart: "F \<inter> frames_of A = {}"
    using inv frames_apart [OF ok] by (auto simp: frames_of_out taken_set_def)
  show ?thesis
  proof (cases "k \<le> MAX_ORDER")
    case False
    then show ?thesis
      using n frame_alloc_big [of k fa] by simp
  next
    case True
    consider (some) p fa' where "frame_alloc fa k = Some (Some (p * page), fa')" "2 ^ k dvd p" "span p k \<subseteq> F" "frames_inv fa'"
        "free_set (bytes fa') = F - span p k"
      | (none) "frame_alloc fa k = Some (None, fa)" "\<forall>p. 2 ^ k dvd p \<longrightarrow> \<not> span p k \<subseteq> F"
      using fp.alloc_law [of fa k] inv True by blast
    then show ?thesis
    proof cases
      case some
      have "fa_free_frames fa' = card F - 2 ^ k"
        using some(3-5) by (simp add: frames_inv_def card_Diff_subset)
      moreover have "(p * page) mod (page * 2 ^ k) = 0"
        using some(2) by (simp add: mult.commute [of p] mod_eq_0_iff_dvd)
      ultimately show ?thesis
        using some(1,3) apart n True by auto
    qed (use n in simp)
  qed
qed

theorem frames_alloc_exact_witness:
  "case four_frames of
     Some fa \<Rightarrow> fa_free_frames fa = 4 \<and> map_option fst (frame_alloc fa 2) = Some (Some 0) \<and> frame_alloc fa 3 = Some (None, fa)
   | None \<Rightarrow> False"
proof -
  obtain fa where fa: "four_frames = Some fa" "frames_reach fa {0..<4} {}"
    by (rule four_frames_reach)
  have run: "span 0 2 \<subseteq> {0..<4}" and no: "\<not> span p 3 \<subseteq> {0..<4}" for p
    using span_last [of p 3] by (auto simp: span_def)
  have "pa = 0" if "pa mod (page * 2 ^ 2) = 0" "span (pa div page) 2 \<subseteq> {0..<4}" for pa
    using that four_run [of "pa div page"] by (auto simp: PAGE_SHIFT_def mod_eq_0_iff_dvd elim!: dvdE)
  then show ?thesis
    using frames_alloc_exact [OF fa(2), of 2] frames_alloc_exact [OF fa(2), of 3] run no
    by (auto simp: fa(1) MAX_ORDER_def split: option.splits)
qed

text \<open>
  C37. Misuse stops and nothing else does. After any history \<open>free\<close> returns exactly for a block that is out,
  with the order it was allocated with: not for a block freed before, part of one, or one never handed out.
  \<open>add_region\<close> returns exactly when the whole frames of the range lie in the allocator's span and none of
  them is free or part of a block that is out.
\<close>

theorem frames_misuse_stops:
  assumes "frames_reach fa F A"
  shows "(frame_free fa pa k \<noteq> None \<longleftrightarrow> (pa, k) \<in> A)
    \<and> (add_region fa base limit \<noteq> None \<longleftrightarrow> region_frames base limit \<subseteq> {fa_base_pfn fa..<fa_limit fa} - (F \<union> frames_of A))"
proof -
  have inv: "frames_inv fa" and F: "F = free_set (bytes fa)" and A: "A = blocks_out fa"
    using frames_reach_inv [OF assms] by simp_all
  have "frame_free fa pa k \<noteq> None \<longleftrightarrow> (\<exists>p. pa = p * page \<and> taken_at (bytes fa) p k)"
    using frame_free_refuses [OF inv, of pa k] fp.release_law [OF inv] by fastforce
  then have "frame_free fa pa k \<noteq> None \<longleftrightarrow> (pa, k) \<in> A"
    by (simp add: A blocks_out_def)
  moreover have "add_region fa base limit \<noteq> None \<longleftrightarrow> region_frames base limit \<subseteq> {fa_base_pfn fa..<fa_limit fa} - (F \<union> frames_of A)"
    using add_region_ok [OF inv, of base limit] unfolding F A frames_of_out by (auto split: if_splits)
  ultimately show ?thesis
    by blast
qed

theorem frames_misuse_stops_witness:
  "case one_block of
     Some (_, fa) \<Rightarrow> frame_free fa 0 2 \<noteq> None \<and> frame_free fa 0 0 = None \<and> frame_free fa 4096 0 = None \<and> add_region fa 0 4096 = None
   | None \<Rightarrow> False"
proof -
  obtain fa where fa: "one_block = Some (Some 0, fa)" "frames_reach fa {} {(0, 2)}"
    by (rule one_block_reach)
  have "region_frames 0 4096 = {0}"
    by (auto simp: region_frames_eq PAGE_SHIFT_def)
  then show ?thesis
    using frames_misuse_stops [OF fa(2), of 0 2 0 4096] frames_misuse_stops [OF fa(2), of 0 0] frames_misuse_stops [OF fa(2), of 4096 0]
    by (simp add: fa(1) frames_of_def span_def)
qed

text \<open>
  C38. Every free frame can be had. After any history that many single pages as the allocator counts come out
  one after another, each free frame exactly once, and the next request gets none. What comes out can go back:
  freeing a block just allocated gives the free frames and the blocks that were there before.
\<close>

theorem frames_all_come_out:
  assumes "frames_reach fa F A"
  shows "(\<exists>xs fa'. take_pages frame_alloc (fa_free_frames fa) fa = Some (map (\<lambda>x. Some (x * page)) xs, fa')
      \<and> distinct xs \<and> set xs = F \<and> frame_alloc fa' 0 = Some (None, fa'))
    \<and> (case frame_alloc fa k of Some (Some pa, fa') \<Rightarrow> \<exists>fa''. frame_free fa' pa k = Some fa'' \<and> frames_reach fa'' F A | _ \<Rightarrow> True)"
proof -
  have inv: "frames_inv fa" and F: "F = free_set (bytes fa)" and A: "A = blocks_out fa"
    using frames_reach_inv [OF assms] by simp_all
  have n: "card (free_set (bytes fa)) = fa_free_frames fa"
    using inv by (simp add: frames_inv_def)
  have "\<exists>fa''. frame_free fa' pa k = Some fa'' \<and> frames_reach fa'' F A" if a: "frame_alloc fa k = Some (Some pa, fa')" for pa fa'
  proof -
    have k: "k \<le> MAX_ORDER"
      using frame_alloc_big [of k fa] a by (auto simp: not_le [symmetric])
    obtain fa'' where f: "frame_free fa' pa k = Some fa''" "free_set (bytes fa'') = F" "taken_at (bytes fa'') = taken_at (bytes fa)"
      using fp.alloc_release [OF inv k a] F by blast
    have reach: "frames_reach fa'' (F - span (pa div page) k \<union> span (pa div page) k) (insert (pa, k) A - {(pa, k)})"
      by (rule frames_reach.free [OF frames_reach.alloc [OF assms a] f(1)])
    have "F - span (pa div page) k \<union> span (pa div page) k = F" "insert (pa, k) A - {(pa, k)} = A"
      using frames_reach_inv [OF reach] f(2,3) A by (simp_all add: blocks_out_def)
    then show ?thesis
      using f(1) reach by simp
  qed
  then show ?thesis
    using fp.take_all [OF inv n] by (auto simp: F split: option.splits)
qed

theorem frames_all_come_out_witness:
  "case four_frames of
     Some fa \<Rightarrow> \<exists>xs fa'. take_pages frame_alloc 4 fa = Some (map (\<lambda>x. Some (x * page)) xs, fa') \<and> distinct xs \<and> set xs = {0, 1, 2, 3}
   | None \<Rightarrow> False"
proof -
  obtain fa where fa: "four_frames = Some fa" "frames_reach fa {0..<4} {}"
    by (rule four_frames_reach)
  have "frames_inv fa" "free_set (bytes fa) = {0..<4}"
    using frames_reach_inv [OF fa(2)] by simp_all
  then have "fa_free_frames fa = 4"
    by (simp add: frames_inv_def)
  moreover have "{0..<4} = {0, 1, 2, 3 :: nat}"
    by auto
  ultimately have "\<exists>xs fa'. take_pages frame_alloc 4 fa = Some (map (\<lambda>x. Some (x * page)) xs, fa') \<and> distinct xs \<and> set xs = {0, 1, 2, 3}"
    using conjunct1 [OF frames_all_come_out [OF fa(2), of 0]] by metis
  then show ?thesis
    unfolding fa(1) by (simp only: option.case)
qed

end
