(* ===== verification/Spec2Isabelle.thy ===== *)
theory Spec2Isabelle
  imports Abi_Words Time_Scale Quota Process_Life Scheduler_Calls Notify Handle_Release Token_Life Grace_Period Usable_Memory Device_Window Timer_Fire Frame_Pool
begin

text \<open>
  Verification of the logic of the stafeto kernel, a capability microkernel for arm64 written in Rust.

  \<^bold>\<open>The program.\<close> The kernel is split in two: \<open>src/kcore\<close> holds its data structures and decisions as code
  without hardware, and \<open>src/kernel\<close> drives them over interrupts, page tables and assembler. Programs see
  the kernel through the numbers and words of \<open>src/lib/abi\<close>. The development models \<open>kcore\<close> and \<open>abi\<close>, a
  theory or a few for each source file, in the order the parts rest on one another.

  \<^bold>\<open>Conventions\<close> (theory \<open>Prelude\<close>). An operation on \<open>&mut self\<close> takes the state and returns it changed. A
  panic, a failed \<open>assert!\<close> or \<open>expect\<close> and an index out of range are \<open>None\<close>; a \<open>Result\<close> is a sum with the
  error on the left. The build is the release build, so integer arithmetic wraps: \<open>u64\<close> and narrower
  integers are words where the code may wrap or uses their bits, and natural numbers where the code
  bounds them. Pointers are values of a type of their own, and the nodes they point at are functions
  from pointers to records. A loop is a recursive function: structural, with a termination proof, or a
  partial function into \<open>option\<close> whose end is then part of what is proved.

  \<^bold>\<open>Parts and theories.\<close>
  \<^item> \<open>Abi\<close>, \<open>Abi_Words\<close> (\<open>lib/abi/src/lib.rs\<close>): handles, rights, errors, call numbers, and the words of
    messages and of the info structures. The lemmas are round trips of every encoding and the exact set of
    words each decoder takes.
  \<^item> \<open>Time_Scale\<close> (\<open>lib/abi/src/time.rs\<close>, \<open>kcore/src/time.rs\<close>): ticks and nanoseconds. The clock is never ahead
    of the exact quotient, a deadline becomes the least tick that reaches it, and the next release of
    periodic work is the first one after now, but for one corner that wraps.
  \<^item> \<open>Quota\<close>, \<open>Process_Life\<close> (\<open>quota.rs\<close>, \<open>process.rs\<close>): accounts conserve their limit through charges, refunds
    and shares; the first reason a process ends for stays.
  \<^item> \<open>Ready_Queue\<close>, \<open>Scheduler\<close>, \<open>Scheduler_Invariant\<close>, \<open>Scheduler_Calls\<close> (\<open>sched.rs\<close>): the ready queues are
    linked through the threads and refine a list for each priority; the scheduler keeps its invariant in
    every call, never stops, picks the first thread of the highest priority, lends priority within the
    ceiling, accounts each tick of a CPU once and rotates threads of one priority.
  \<^item> \<open>Notify\<close> (\<open>notify.rs\<close>): slots and the queue of a channel. Posts of one slot merge and no slot gets the bits
    of another.
  \<^item> \<open>Handle_Table\<close>, \<open>Handle_Invariant\<close>, \<open>Handle_Map\<close>, \<open>Handle_Release\<close> (\<open>handles.rs\<close>): the table of handles
    refines a finite map, a removed handle stays bad, a reserved insert succeeds, and the release of a table
    in portions ends with nothing left.
  \<^item> \<open>Token\<close>, \<open>Token_Calls\<close>, \<open>Token_Life\<close> (\<open>token.rs\<close>): tokens of replies never repeat and name their
    requester, but for the reuse of a number after an abandoned request.
  \<^item> \<open>Grace_Period\<close> (\<open>qsbr.rs\<close>): CPUs as interleaved steps; no CPU holds a pointer past the grace period of its
    object, and a grace period ends once every CPU was quiescent or idle.
  \<^item> \<open>Memory_Map\<close>, \<open>Usable_Memory\<close>, \<open>Device_Window\<close> (\<open>bootinfo.rs\<close>, \<open>memmap.rs\<close>, \<open>window.rs\<close>, \<open>console.rs\<close>): the
    usable RAM is exactly the whole pages of memory free of reserved ranges; a boot image that passes its
    check is safe to read; a device window shares no page with what is forbidden.
  \<^item> \<open>Timer_Heap\<close>, \<open>Timer_Rep\<close>, \<open>Timer_Order\<close>, \<open>Timer_Calls\<close> (\<open>timer.rs\<close>): the heap of timers, linked through
    the timers: its shape, its order, and its calls on the timers it holds. \<open>Timer_Levels\<close>, \<open>Timer_Queue\<close>,
    \<open>Timer_Invariant\<close>, \<open>Timer_Fire\<close>: the heaps by level with their masks and the nearest deadline, and the
    portions of a firing, with the loop of \<open>fire_at\<close> in \<open>kernel/src/timer.rs\<close>.
  \<^item> \<open>Frames\<close>, \<open>Frame_Lists\<close>, \<open>Frame_Blocks\<close>, \<open>Frame_Alloc\<close>, \<open>Frame_Regions\<close>, \<open>Frame_Pool\<close> (\<open>frames.rs\<close>): the
    buddy allocator of physical pages: its free lists through memory, its bytes as blocks of which no two
    free ones are buddies, and its calls. An allocation fails only when no aligned run of free frames is
    left, misuse stops, and every free frame can be had, while the owners of other frames write to them.

  \<^bold>\<open>Interfaces.\<close> A component that others or several operations rely on has a locale with its laws, interpreted
  on the model: \<open>expiry_queue\<close> and \<open>deadline_queue\<close> for the heap and the levels of timers, and \<open>frame_pool\<close> for
  the page allocator, are examples.

  \<^bold>\<open>Bounds.\<close> No fuel is used: a loop that the code bounds recurses on what bounds it, and a loop that may not
  end is a partial function proved to return. The bounds in statements are the code's own: 63 levels, 64
  priorities, eight timers in a portion. A state that calls lead to carries its history as extra arguments
  of an inductive predicate, for example the timers armed and not taken out.

  \<^bold>\<open>Not modelled.\<close> Page tables, address space identifiers and TLB maintenance, object pools, page lists and
  mappings, the checks of arguments, upcalls and the reader of the device tree are not modelled: the first two
  depend on the memory model of several CPUs or on the walk of hardware, the others are parts of \<open>kcore\<close> the
  modelled ones do not call. Locks are taken as given: what runs under one lock is one step. The encodings of
  registers of the processor and of the interrupt controller, the kernel proper, and everything in user space
  are left out.
\<close>

end
